(* ===== verification/RTES_Prelude.thy ===== *)
theory RTES_Prelude
  imports Main "HOL-Library.Word" "HOL-Library.AList"
begin

text \<open>
  Shared vocabulary of the development: the machine integers of the C++ code, the
  \<open>Result\<close> shape, association lists as the standard containers, and the
  generic facts on words, lists and maps on which the components rest.
\<close>

unbundle bit_operations_syntax

section \<open>Machine integers\<close>

type_synonym u8 = "8 word"
type_synonym u16 = "16 word"
type_synonym u32 = "32 word"
type_synonym u64 = "64 word"
type_synonym u128 = "128 word"
type_synonym byte = "8 word"

text \<open>
  The collections of the development: \<open>word_nat\<close> moves word equations to
  naturals, \<open>frame\<close> holds what an operation leaves alone, and \<open>inv_intros\<close>
  holds the introduction rules of invariants.
\<close>

named_theorems word_nat
named_theorems frame
named_theorems inv_intros

lemma unat_min [word_nat]: "unat (min a b) = min (unat a) (unat b)"
  for a b :: "'a::len word"
  by (simp add: min_def word_le_nat_alt)

lemma unat_minus_min [word_nat]: "unat (a - min a b) = unat a - min (unat a) (unat b)"
  for a b :: "'a::len word"
  by (simp add: unat_sub unat_min min.cobounded1)

lemma unat_minus_min2 [word_nat]: "unat (b - min a b) = unat b - min (unat a) (unat b)"
  for a b :: "'a::len word"
  by (simp add: unat_sub unat_min min.cobounded2)

lemma minus_min_0_iff: "b - min a b = 0 \<longleftrightarrow> b \<le> a"
  for a b :: "'a::len word"
  by (auto simp: min_def)

lemma minus_min_0_iff2: "a - min a b = 0 \<longleftrightarrow> a \<le> b"
  for a b :: "'a::len word"
  by (auto simp: min_def)

lemma unat_Suc_lt:
  fixes h :: "'a::len word"
  assumes "unat h < n" "n < 2 ^ LENGTH('a)"
  shows "unat (h + 1) = Suc (unat h)"
proof -
  have "Suc (unat h) < 2 ^ LENGTH('a)"
    using assms by linarith
  then show ?thesis
    by (simp add: unat_word_ariths)
qed

lemma word_pos_iff: "0 < (x :: 'a::len word) \<longleftrightarrow> x \<noteq> 0"
  by (simp add: word_neq_0_conv)

lemma unat_exp:
  assumes "k < LENGTH('a)"
  shows "unat (2 ^ k :: 'a::len word) = 2 ^ k"
proof -
  have "(2 ^ k :: 'a word) = of_nat (2 ^ k)" by simp
  moreover have "(2::nat) ^ k < 2 ^ LENGTH('a)" using assms by simp
  ultimately show ?thesis by (metis mod_less unat_of_nat)
qed
lemma unat_and_mask: "unat (w AND mask k) = unat w mod 2 ^ k" for w :: "'a::len word"
proof -
  have "unat (w AND mask k) = unat (take_bit k w)" by (simp only: take_bit_eq_mask)
  also have "\<dots> = take_bit k (unat w)" by (simp only: unsigned_take_bit_eq)
  finally show ?thesis by (simp only: take_bit_eq_mod)
qed

section \<open>Sums of word lists\<close>

lemma sum_list_remove1:
  fixes f :: "'b \<Rightarrow> 'a::ab_group_add"
  shows "x \<in> set xs \<Longrightarrow> sum_list (map f (remove1 x xs)) = sum_list (map f xs) - f x"
  by (induction xs) auto

lemma sum_list_map_cong_upd:
  "(\<And>x. x \<in> set xs \<Longrightarrow> f x = g x) \<Longrightarrow> sum_list (map f xs) = sum_list (map g xs)"
  by (metis map_cong)

section \<open>Lists\<close>

lemma drop_eq_Cons: "n < length xs \<Longrightarrow> drop n xs = xs ! n # drop (Suc n) xs"
  by (rule Cons_nth_drop_Suc [symmetric])

lemma nth_list_update_map:
  "i < length xs \<Longrightarrow> xs[i := f (xs ! i)] ! j = (if j = i then f (xs ! i) else xs ! j)"
  by (auto simp: nth_list_update)

lemma takeWhile_append_full: "(\<And>x. x \<in> set xs \<Longrightarrow> P x) \<Longrightarrow> takeWhile P (xs @ ys) = xs @ takeWhile P ys"
  by (induction xs) auto

section \<open>Association lists\<close>

lemma map_of_update [simp]:
  "map_of (AList.update k v al) k' = (if k' = k then Some v else map_of al k')"
  by (simp add: AList.update_conv')

lemma map_of_delete [simp]:
  "map_of (AList.delete k al) k' = (if k' = k then None else map_of al k')"
  by (simp add: AList.delete_conv')

lemma distinct_fst_update [simp]:
  "distinct (map fst al) \<Longrightarrow> distinct (map fst (AList.update k v al))"
  by (rule AList.distinct_update)

lemma distinct_fst_delete [simp]:
  "distinct (map fst al) \<Longrightarrow> distinct (map fst (AList.delete k al))"
  by (rule AList.distinct_delete)

lemma length_delete_eq:
  "distinct (map fst al) \<Longrightarrow> map_of al k \<noteq> None \<Longrightarrow>
     Suc (length (AList.delete k al)) = length al"
proof (induction al)
  case (Cons a al)
  obtain k' v' where [simp]: "a = (k', v')" by (cases a)
  show ?case
  proof (cases "k' = k")
    case True
    with Cons.prems have "k \<notin> fst ` set al" by auto
    with True show ?thesis by (simp add: AList.delete_id)
  next
    case False
    with Cons show ?thesis by simp
  qed
qed simp

section \<open>Numbers as text\<close>

fun decimal :: "nat \<Rightarrow> string" where
  "decimal n = (if n < 10 then [char_of (48 + n)] else decimal (n div 10) @ [char_of (48 + n mod 10)])"

declare decimal.simps [simp del]

end
