(* ===== verification/RTES_Errors.thy ===== *)
theory RTES_Errors
  imports RTES_Prelude
begin

text \<open>
  Error values and recovery strategies (\<^verbatim>\<open>include/rtes/error_handling.hpp\<close>,
  \<^verbatim>\<open>src/error_handling.cpp\<close>): the error codes, the \<open>Result\<close> type, the circuit breaker
  of the network recovery, and the file and memory recoveries. What the strategies ask of the
  outside (the connection factory, the file system, the clock) is a parameter.
\<close>

section \<open>Error codes and Result\<close>

datatype error_code =
    SUCCESS
  | NETWORK_CONNECTION_FAILED | NETWORK_TIMEOUT | NETWORK_DISCONNECTED | NETWORK_INVALID_MESSAGE
  | MEMORY_ALLOCATION_FAILED | MEMORY_BUFFER_OVERFLOW | MEMORY_POOL_EXHAUSTED
  | FILE_NOT_FOUND | FILE_PERMISSION_DENIED | FILE_CORRUPTED | FILE_DISK_FULL
  | ORDER_INVALID | ORDER_DUPLICATE | ORDER_NOT_FOUND | RISK_LIMIT_EXCEEDED
  | INVALID_CONFIGURATION | INVALID_ARGUMENT
  | SYSTEM_SHUTDOWN | SYSTEM_OVERLOAD | SYSTEM_CORRUPTED_STATE
  | DEPLOYMENT_ALREADY_ACTIVE | DEPLOYMENT_FAILED | DEPLOYMENT_ROLLBACK_FAILED
  | ENCRYPTION_FAILED | DECRYPTION_FAILED | ENCRYPTION_KEY_NOT_FOUND
  | CONFIG_KEY_NOT_FOUND | CONFIG_PARSE_ERROR | CONFIG_TYPE_MISMATCH | CONFIG_FILE_NOT_FOUND
  | INVALID_ENVIRONMENT
  | HEALTH_CHECK_FAILED | BACKUP_FAILED | BACKUP_VERIFICATION_FAILED | CONFIG_VALIDATION_FAILED

fun error_value :: "error_code \<Rightarrow> int" where
  "error_value SUCCESS = 0"
| "error_value NETWORK_CONNECTION_FAILED = 1000"
| "error_value NETWORK_TIMEOUT = 1001"
| "error_value NETWORK_DISCONNECTED = 1002"
| "error_value NETWORK_INVALID_MESSAGE = 1003"
| "error_value MEMORY_ALLOCATION_FAILED = 2000"
| "error_value MEMORY_BUFFER_OVERFLOW = 2001"
| "error_value MEMORY_POOL_EXHAUSTED = 2002"
| "error_value FILE_NOT_FOUND = 3000"
| "error_value FILE_PERMISSION_DENIED = 3001"
| "error_value FILE_CORRUPTED = 3002"
| "error_value FILE_DISK_FULL = 3003"
| "error_value ORDER_INVALID = 4000"
| "error_value ORDER_DUPLICATE = 4001"
| "error_value ORDER_NOT_FOUND = 4002"
| "error_value RISK_LIMIT_EXCEEDED = 4003"
| "error_value INVALID_CONFIGURATION = 4004"
| "error_value INVALID_ARGUMENT = 4005"
| "error_value SYSTEM_SHUTDOWN = 5000"
| "error_value SYSTEM_OVERLOAD = 5001"
| "error_value SYSTEM_CORRUPTED_STATE = 5002"
| "error_value DEPLOYMENT_ALREADY_ACTIVE = 6000"
| "error_value DEPLOYMENT_FAILED = 6001"
| "error_value DEPLOYMENT_ROLLBACK_FAILED = 6002"
| "error_value ENCRYPTION_FAILED = 7000"
| "error_value DECRYPTION_FAILED = 7001"
| "error_value ENCRYPTION_KEY_NOT_FOUND = 7002"
| "error_value CONFIG_KEY_NOT_FOUND = 8000"
| "error_value CONFIG_PARSE_ERROR = 8001"
| "error_value CONFIG_TYPE_MISMATCH = 8002"
| "error_value CONFIG_FILE_NOT_FOUND = 8003"
| "error_value INVALID_ENVIRONMENT = 8004"
| "error_value HEALTH_CHECK_FAILED = 9000"
| "error_value BACKUP_FAILED = 9001"
| "error_value BACKUP_VERIFICATION_FAILED = 9002"
| "error_value CONFIG_VALIDATION_FAILED = 9003"

definition error_message :: "int \<Rightarrow> string" where
  "error_message ev =
     (if ev = error_value SUCCESS then ''Success''
      else if ev = error_value NETWORK_CONNECTION_FAILED then ''Network connection failed''
      else if ev = error_value NETWORK_TIMEOUT then ''Network operation timed out''
      else if ev = error_value NETWORK_DISCONNECTED then ''Network disconnected''
      else if ev = error_value NETWORK_INVALID_MESSAGE then ''Invalid network message''
      else if ev = error_value MEMORY_ALLOCATION_FAILED then ''Memory allocation failed''
      else if ev = error_value MEMORY_BUFFER_OVERFLOW then ''Buffer overflow detected''
      else if ev = error_value MEMORY_POOL_EXHAUSTED then ''Memory pool exhausted''
      else if ev = error_value FILE_NOT_FOUND then ''File not found''
      else if ev = error_value FILE_PERMISSION_DENIED then ''File permission denied''
      else if ev = error_value FILE_CORRUPTED then ''File corrupted''
      else if ev = error_value FILE_DISK_FULL then ''Disk full''
      else if ev = error_value ORDER_INVALID then ''Invalid order''
      else if ev = error_value ORDER_DUPLICATE then ''Duplicate order''
      else if ev = error_value ORDER_NOT_FOUND then ''Order not found''
      else if ev = error_value RISK_LIMIT_EXCEEDED then ''Risk limit exceeded''
      else if ev = error_value SYSTEM_SHUTDOWN then ''System shutdown''
      else if ev = error_value SYSTEM_OVERLOAD then ''System overload''
      else if ev = error_value SYSTEM_CORRUPTED_STATE then ''System corrupted state''
      else ''Unknown error'')"

type_synonym 'a result = "error_code + 'a"

definition res_has_value :: "'a result \<Rightarrow> bool" where
  "res_has_value r = (case r of Inl _ \<Rightarrow> False | Inr _ \<Rightarrow> True)"

definition res_has_error :: "'a result \<Rightarrow> bool" where
  "res_has_error r = (\<not> res_has_value r)"

text \<open>\<open>value()\<close> throws on an error; the exception is \<open>None\<close>.\<close>

definition res_value :: "'a result \<Rightarrow> 'a option" where
  "res_value r = (case r of Inl _ \<Rightarrow> None | Inr v \<Rightarrow> Some v)"

definition res_map :: "('a \<Rightarrow> 'b) \<Rightarrow> 'a result \<Rightarrow> 'b result" where
  "res_map f r = (case r of Inr v \<Rightarrow> Inr (f v) | Inl e \<Rightarrow> Inl e)"

definition res_or_else :: "(error_code \<Rightarrow> 'a result) \<Rightarrow> 'a result \<Rightarrow> 'a result" where
  "res_or_else f r = (case r of Inl e \<Rightarrow> f e | Inr v \<Rightarrow> Inr v)"

section \<open>Network recovery\<close>

datatype circuit_state = CLOSED | OPEN | HALF_OPEN

text \<open>
  Times are nanoseconds of the steady clock. The connection factory may be unset
  (\<open>None\<close>); a call of it changes the outside state \<open>'w\<close> and may fail.
\<close>

record net_recovery =
  nr_max_retries :: int
  nr_circuit_state :: circuit_state
  nr_failure_count :: int
  nr_last_failure_time :: int

definition FAILURE_THRESHOLD :: int where
  "FAILURE_THRESHOLD = 5"

definition CIRCUIT_TIMEOUT :: int where
  "CIRCUIT_TIMEOUT = 30 * 1000000000"

definition nr_new :: "int \<Rightarrow> net_recovery" where
  "nr_new max_retries =
     \<lparr>nr_max_retries = max_retries, nr_circuit_state = CLOSED, nr_failure_count = 0,
      nr_last_failure_time = 0\<rparr>"

fun retry_loop :: "('w \<Rightarrow> unit result \<times> 'w) option \<Rightarrow> nat \<Rightarrow> 'w \<Rightarrow> bool \<times> 'w" where
  "retry_loop factory 0 w = (False, w)"
| "retry_loop factory (Suc n) w =
     (case factory of
        None \<Rightarrow> retry_loop factory n w
      | Some f \<Rightarrow>
          (case f w of
             (Inr _, w') \<Rightarrow> (True, w')
           | (Inl _, w') \<Rightarrow> retry_loop factory n w'))"

definition nr_attempt_recovery ::
  "('w \<Rightarrow> unit result \<times> 'w) option \<Rightarrow> int \<Rightarrow> net_recovery \<Rightarrow> 'w \<Rightarrow>
   unit result \<times> net_recovery \<times> 'w" where
  "nr_attempt_recovery factory now R w =
     (if nr_circuit_state R = OPEN \<and> now - nr_last_failure_time R < CIRCUIT_TIMEOUT
      then (Inl NETWORK_CONNECTION_FAILED, R, w)
      else
        let R1 = (if nr_circuit_state R = OPEN then R\<lparr>nr_circuit_state := HALF_OPEN\<rparr> else R)
        in case retry_loop factory (nat (nr_max_retries R1)) w of
             (True, w') \<Rightarrow>
               (Inr (), R1\<lparr>nr_failure_count := 0, nr_circuit_state := CLOSED\<rparr>, w')
           | (False, w') \<Rightarrow>
               (let n = nr_failure_count R1 + 1;
                    R2 = R1\<lparr>nr_failure_count := n, nr_last_failure_time := now\<rparr>
                in (Inl NETWORK_CONNECTION_FAILED,
                    (if FAILURE_THRESHOLD \<le> n then R2\<lparr>nr_circuit_state := OPEN\<rparr> else R2), w')))"

definition nr_can_recover :: "error_code \<Rightarrow> bool" where
  "nr_can_recover e =
     (e = NETWORK_CONNECTION_FAILED \<or> e = NETWORK_TIMEOUT \<or> e = NETWORK_DISCONNECTED)"

section \<open>File and memory recovery\<close>

text \<open>
  \<open>probe\<close> answers whether a path is an existing directory, \<open>None\<close> for a
  \<open>filesystem_error\<close>; \<open>mkdirs\<close> is false when \<open>create_directories\<close> throws.
\<close>

record file_recovery =
  fr_paths :: "string list"
  fr_index :: nat

fun first_dir :: "(string \<Rightarrow> bool option) \<Rightarrow> nat \<Rightarrow> string list \<Rightarrow> nat option" where
  "first_dir probe i [] = None"
| "first_dir probe i (p # ps) =
     (if probe p = Some True then Some i else first_dir probe (Suc i) ps)"

definition fr_attempt_recovery ::
  "(string \<Rightarrow> bool option) \<Rightarrow> (string \<Rightarrow> bool) \<Rightarrow> file_recovery \<Rightarrow> unit result \<times> file_recovery" where
  "fr_attempt_recovery probe mkdirs F =
     (case first_dir probe (fr_index F) (drop (fr_index F) (fr_paths F)) of
        Some i \<Rightarrow> (Inr (), F\<lparr>fr_index := i\<rparr>)
      | None \<Rightarrow>
          if list_ex mkdirs (fr_paths F) then (Inr (), F) else (Inl FILE_NOT_FOUND, F))"

definition fr_can_recover :: "error_code \<Rightarrow> bool" where
  "fr_can_recover e = (e = FILE_NOT_FOUND \<or> e = FILE_PERMISSION_DENIED \<or> e = FILE_DISK_FULL)"

text \<open>The state of the memory recovery is its \<open>emergency_allocation_mode_\<close> flag.\<close>

definition mr_attempt_recovery :: "bool \<Rightarrow> unit result \<times> bool" where
  "mr_attempt_recovery emergency =
     (if \<not> emergency then (Inr (), True) else (Inl MEMORY_ALLOCATION_FAILED, emergency))"

definition mr_can_recover :: "error_code \<Rightarrow> bool" where
  "mr_can_recover e = (e = MEMORY_ALLOCATION_FAILED \<or> e = MEMORY_POOL_EXHAUSTED)"

section \<open>The circuit breaker as a state machine\<close>

definition nr_inv :: "net_recovery \<Rightarrow> bool" where
  "nr_inv R \<longleftrightarrow> 0 \<le> nr_failure_count R \<and> nr_circuit_state R \<noteq> HALF_OPEN \<and>
     (nr_circuit_state R = OPEN \<longleftrightarrow> FAILURE_THRESHOLD \<le> nr_failure_count R)"

text \<open>One call per instant, with a factory of its own.\<close>

fun nr_run ::
  "(('w \<Rightarrow> unit result \<times> 'w) option \<times> int) list \<Rightarrow> net_recovery \<Rightarrow> 'w \<Rightarrow>
   unit result list \<times> net_recovery \<times> 'w" where
  "nr_run [] R w = ([], R, w)"
| "nr_run ((factory, now) # cs) R w =
     (let (r, R', w') = nr_attempt_recovery factory now R w;
          (rs, R'', w'') = nr_run cs R' w'
      in (r # rs, R'', w''))"

lemma nr_attempt_blocked:
  "nr_circuit_state R = OPEN \<Longrightarrow> now - nr_last_failure_time R < CIRCUIT_TIMEOUT \<Longrightarrow>
     nr_attempt_recovery factory now R w = (Inl NETWORK_CONNECTION_FAILED, R, w)"
  by (simp add: nr_attempt_recovery_def)

lemma nr_attempt_inv:
  assumes "nr_inv R" "nr_attempt_recovery factory now R w = (r, R', w')"
  shows "nr_inv R'"
  using assms
  by (auto simp: nr_attempt_recovery_def nr_inv_def Let_def FAILURE_THRESHOLD_def
      split: if_splits prod.splits bool.splits)

lemma nr_run_inv: "nr_inv R \<Longrightarrow> nr_run cs R w = (rs, R', w') \<Longrightarrow> nr_inv R'"
proof (induction cs arbitrary: R w rs)
  case (Cons c cs)
  obtain f now where c: "c = (f, now)" by (cases c)
  obtain r R1 w1 where a: "nr_attempt_recovery f now R w = (r, R1, w1)" by (metis prod_cases3)
  then show ?case
    using Cons nr_attempt_inv [OF Cons.prems(1) a] by (auto simp: c split: prod.splits)
qed simp

text \<open>How many calls at the end of a history failed.\<close>

definition failed_in_a_row :: "unit result list \<Rightarrow> nat" where
  "failed_in_a_row rs = length (takeWhile isl (rev rs))"

definition nr_tracks :: "unit result list \<Rightarrow> net_recovery \<Rightarrow> bool" where
  "nr_tracks rs R \<longleftrightarrow> nr_inv R \<and>
     (if failed_in_a_row rs < 5 then nr_failure_count R = int (failed_in_a_row rs) else 5 \<le> nr_failure_count R)"

lemma nr_attempt_tracks:
  assumes "nr_tracks h R" "nr_attempt_recovery factory now R w = (r, R', w')"
  shows "nr_tracks (h @ [r]) R'"
proof -
  have "nr_inv R'" using nr_attempt_inv assms by (auto simp: nr_tracks_def)
  then show ?thesis
    using assms
    by (auto simp: nr_tracks_def nr_attempt_recovery_def nr_inv_def Let_def FAILURE_THRESHOLD_def failed_in_a_row_def
      split: if_splits prod.splits bool.splits)
qed

lemma nr_run_tracks:
  assumes "nr_tracks h R" "nr_run cs R w = (rs, R', w')"
  shows "nr_tracks (h @ rs) R'"
  using assms
proof (induction cs arbitrary: h R w rs)
  case (Cons c cs)
  obtain f now where c: "c = (f, now)" by (cases c)
  obtain r R1 w1 where a: "nr_attempt_recovery f now R w = (r, R1, w1)" by (metis prod_cases3)
  obtain rs1 where b: "nr_run cs R1 w1 = (rs1, R', w')" "rs = r # rs1"
    using Cons.prems(2) a by (auto simp: c split: prod.splits)
  have "nr_tracks ((h @ [r]) @ rs1) R'" by (rule Cons.IH [OF nr_attempt_tracks [OF Cons.prems(1) a] b(1)])
  with b(2) show ?case by simp
qed simp

lemma nr_run_blocked:
  assumes "nr_circuit_state R = OPEN" "\<forall>c\<in>set cs. snd c - nr_last_failure_time R < CIRCUIT_TIMEOUT"
  shows "nr_run cs R w = (replicate (length cs) (Inl NETWORK_CONNECTION_FAILED), R, w)"
  using assms by (induction cs) (auto simp: nr_attempt_blocked)

section \<open>Properties\<close>



end
