(* ===== verification/RTES_Types.thy ===== *)
theory RTES_Types
  imports RTES_Prelude
begin

text \<open>
  The domain types of \<^verbatim>\<open>include/rtes/types.hpp\<close>: scalar aliases, the
  trivially copyable \<open>FixedString\<close>, the enumerations, \<open>Order\<close> and \<open>Trade\<close>.
\<close>

section \<open>Scalars\<close>

type_synonym OrderID = u64
type_synonym TradeID = u64
type_synonym Price = u64
type_synonym Quantity = u64
type_synonym Timestamp = u64

definition PRICE_SCALE :: u64 where
  "PRICE_SCALE = 10000"

section \<open>FixedString\<close>

text \<open>
  A \<open>FixedString<N>\<close> is its array of \<open>N\<close> bytes. A C string is the list of
  the bytes that start at the pointer; it ends at the first zero byte, or at the end of
  the list, where the terminator is left implicit. A null pointer is \<open>None\<close>.
\<close>

type_synonym fixed_string = "byte list"

definition cstr :: "byte list \<Rightarrow> byte list" where
  "cstr bs = takeWhile (\<lambda>b. b \<noteq> 0) bs"

definition strncpy :: "nat \<Rightarrow> byte list \<Rightarrow> byte list" where
  "strncpy n src = take n (cstr src @ replicate n 0)"

fun strncmp_eq :: "nat \<Rightarrow> byte list \<Rightarrow> byte list \<Rightarrow> bool" where
  "strncmp_eq 0 xs ys = True"
| "strncmp_eq (Suc n) [] [] = True"
| "strncmp_eq (Suc n) [] (y # ys) = (y = 0)"
| "strncmp_eq (Suc n) (x # xs) [] = (x = 0)"
| "strncmp_eq (Suc n) (x # xs) (y # ys) = (x = y \<and> (x = 0 \<or> strncmp_eq n xs ys))"

definition fs_default :: "nat \<Rightarrow> fixed_string" where
  "fs_default N = replicate N 0"

definition fs_assign :: "nat \<Rightarrow> byte list option \<Rightarrow> fixed_string \<Rightarrow> fixed_string" where
  "fs_assign N str data =
     (case str of
        Some s \<Rightarrow> (strncpy (N - 1) s @ drop (N - 1) data)[N - 1 := 0]
      | None \<Rightarrow> data[0 := 0])"

definition fs_new :: "nat \<Rightarrow> byte list option \<Rightarrow> fixed_string" where
  "fs_new N str = fs_assign N str (fs_default N)"

definition fs_clear :: "fixed_string \<Rightarrow> fixed_string" where
  "fs_clear data = data[0 := 0]"

definition fs_length :: "fixed_string \<Rightarrow> nat" where
  "fs_length data = length (cstr data)"

definition fs_empty :: "fixed_string \<Rightarrow> bool" where
  "fs_empty data = (data ! 0 = 0)"

definition fs_eq :: "nat \<Rightarrow> fixed_string \<Rightarrow> fixed_string \<Rightarrow> bool" where
  "fs_eq N a b = strncmp_eq N a b"

text \<open>The FNV-1a hash; \<open>char\<close> is signed, so the byte is sign-extended.\<close>

fun fnv_loop :: "u64 \<Rightarrow> byte list \<Rightarrow> u64" where
  "fnv_loop h [] = h"
| "fnv_loop h (b # bs) =
     (if b = 0 then h else fnv_loop ((h XOR scast b) * 1099511628211) bs)"

definition fs_hash :: "nat \<Rightarrow> fixed_string \<Rightarrow> u64" where
  "fs_hash N data = fnv_loop 14695981039346656037 (take N data)"

definition symbol_size :: nat where
  "symbol_size = 8"

definition client_id_size :: nat where
  "client_id_size = 32"

section \<open>Enumerations\<close>

text \<open>
  The gateway casts a byte of the wire to \<open>Side\<close> and \<open>OrderType\<close> without a
  check; an enumeration with a fixed underlying type then holds that byte. The third
  constructor of the two types is such a value.
\<close>

datatype side = BUY | SELL | SideRaw u8

datatype order_type = MARKET | LIMIT | TypeRaw u8

datatype order_status =
  PENDING | ACCEPTED | REJECTED | FILLED | PARTIALLY_FILLED | CANCELLED

definition side_of_u8 :: "u8 \<Rightarrow> side" where
  "side_of_u8 b = (if b = 1 then BUY else if b = 2 then SELL else SideRaw b)"

definition order_type_of_u8 :: "u8 \<Rightarrow> order_type" where
  "order_type_of_u8 b = (if b = 1 then MARKET else if b = 2 then LIMIT else TypeRaw b)"

section \<open>Order and Trade\<close>

record order =
  o_price :: Price
  o_remaining :: Quantity
  o_id :: OrderID
  o_status :: order_status
  o_side :: side
  o_type :: order_type
  o_quantity :: Quantity
  o_timestamp :: Timestamp
  o_symbol :: fixed_string
  o_client :: fixed_string

definition default_order :: order where
  "default_order = \<lparr>o_price = 0, o_remaining = 0, o_id = 0, o_status = PENDING,
     o_side = BUY, o_type = LIMIT, o_quantity = 0, o_timestamp = 0,
     o_symbol = fs_default symbol_size, o_client = fs_default client_id_size\<rparr>"

definition make_order ::
  "Timestamp \<Rightarrow> OrderID \<Rightarrow> byte list option \<Rightarrow> byte list option \<Rightarrow> side \<Rightarrow> order_type \<Rightarrow>
   Quantity \<Rightarrow> Price \<Rightarrow> order" where
  "make_order now order_id client symb s t qty p =
     \<lparr>o_price = p, o_remaining = qty, o_id = order_id, o_status = PENDING,
      o_side = s, o_type = t, o_quantity = qty, o_timestamp = now,
      o_symbol = fs_new symbol_size symb, o_client = fs_new client_id_size client\<rparr>"

record trade =
  t_id :: TradeID
  t_buy_order_id :: OrderID
  t_sell_order_id :: OrderID
  t_price :: Price
  t_quantity :: Quantity
  t_timestamp :: Timestamp
  t_symbol :: fixed_string

definition make_trade ::
  "Timestamp \<Rightarrow> TradeID \<Rightarrow> OrderID \<Rightarrow> OrderID \<Rightarrow> byte list option \<Rightarrow> Quantity \<Rightarrow> Price \<Rightarrow> trade" where
  "make_trade now trade_id buy_id sell_id symb qty p =
     \<lparr>t_id = trade_id, t_buy_order_id = buy_id, t_sell_order_id = sell_id, t_price = p,
      t_quantity = qty, t_timestamp = now, t_symbol = fs_new symbol_size symb\<rparr>"

section \<open>Facts on FixedString\<close>

lemma cstr_simps [simp]:
  "cstr [] = []"
  "cstr (b # bs) = (if b = 0 then [] else b # cstr bs)"
  by (simp_all add: cstr_def)

lemma cstr_no_zero: "0 \<notin> set (cstr bs)"
  by (induction bs) auto

lemma cstr_id: "0 \<notin> set bs \<Longrightarrow> cstr bs = bs"
  by (induction bs) auto

lemma cstr_append_zero: "cstr (bs @ 0 # cs) = cstr bs"
  by (induction bs) auto

lemma cstr_append_nonzero: "0 \<notin> set bs \<Longrightarrow> cstr (bs @ cs) = bs @ cstr cs"
  by (induction bs) auto

lemma cstr_replicate_zero [simp]: "cstr (replicate n 0) = []"
  by (cases n) auto

lemma length_strncpy [simp]: "length (strncpy n s) = n"
  by (simp add: strncpy_def)

lemma cstr_strncpy: "cstr (strncpy n s) = take n (cstr s)"
proof -
  have nz: "0 \<notin> set (take n (cstr s))"
    using cstr_no_zero by (metis in_set_takeD)
  have "strncpy n s = take n (cstr s) @ take (n - length (cstr s)) (replicate n 0)"
    by (simp add: strncpy_def)
  then show ?thesis
    using nz by (simp add: cstr_append_nonzero take_replicate)
qed

lemma strncmp_eq_cstr:
  "length xs = n \<Longrightarrow> length ys = n \<Longrightarrow> strncmp_eq n xs ys \<longleftrightarrow> cstr xs = cstr ys"
  by (induction n xs ys rule: strncmp_eq.induct) auto

lemma fnv_loop_cstr: "fnv_loop h bs = fnv_loop h (cstr bs)"
  by (induction h bs rule: fnv_loop.induct) auto

lemma length_fs_assign [simp]:
  "0 < N \<Longrightarrow> length data = N \<Longrightarrow> length (fs_assign N str data) = N"
  by (auto simp: fs_assign_def split: option.splits)

lemma fs_assign_Some:
  assumes "0 < N" "length data = N"
  shows "fs_assign N (Some s) data = strncpy (N - 1) s @ [0]"
proof -
  have "length (drop (N - 1) data) = 1"
    using assms by simp
  then obtain x where "drop (N - 1) data = [x]"
    by (metis One_nat_def length_0_conv length_Suc_conv)
  then show ?thesis
    by (simp add: fs_assign_def list_update_append)
qed

lemma cstr_fs_assign:
  "0 < N \<Longrightarrow> length data = N \<Longrightarrow> cstr (fs_assign N (Some s) data) = take (N - 1) (cstr s)"
  by (simp add: fs_assign_Some cstr_append_zero cstr_strncpy)

text \<open>
  Assigning a C string to a \<open>FixedString<N>\<close> keeps the array at \<open>N\<close>
  bytes with a terminator in the last one, and what is read back is the string cut to
  \<open>N - 1\<close> characters; equality is equality of those strings, and equal values have equal
  hashes, so that a \<open>FixedString\<close> is a lawful key of the unordered maps.
\<close>

theorem fixed_string_assign_roundtrip:
  assumes "0 < N" and "length data = N" and "length other = N"
  shows "length (fs_assign N (Some s) data) = N \<and>
         last (fs_assign N (Some s) data) = 0 \<and>
         cstr (fs_assign N (Some s) data) = take (N - 1) (cstr s) \<and>
         (fs_eq N data other \<longleftrightarrow> cstr data = cstr other) \<and>
         (fs_eq N data other \<longrightarrow> fs_hash N data = fs_hash N other)"
proof -
  have eq: "fs_eq N data other \<longleftrightarrow> cstr data = cstr other"
    using assms by (simp add: fs_eq_def strncmp_eq_cstr)
  have "fs_hash N data = fnv_loop 14695981039346656037 (cstr data)"
       "fs_hash N other = fnv_loop 14695981039346656037 (cstr other)"
    using assms by (simp_all add: fs_hash_def fnv_loop_cstr [symmetric])
  with eq assms show ?thesis
    by (auto simp: fs_assign_Some cstr_append_zero cstr_strncpy)
qed

theorem fixed_string_assign_roundtrip_witness:
  "cstr (fs_assign 8 (Some [65, 65, 80, 76]) (fs_default 8)) = [65, 65, 80, 76] \<and>
   fs_eq 8 (fs_assign 8 (Some [65, 65, 80, 76]) (fs_default 8))
           [65, 65, 80, 76, 0, 9, 9, 9]"
  using fixed_string_assign_roundtrip
    [of 8 "fs_default 8" "[65, 65, 80, 76, 0, 9, 9, 9]" "[65, 65, 80, 76]"]
    fixed_string_assign_roundtrip
    [of 8 "fs_assign 8 (Some [65, 65, 80, 76]) (fs_default 8)"
        "[65, 65, 80, 76, 0, 9, 9, 9]" "[]"]
  by (simp add: fs_default_def)

end
