(* ===== verification/RTES_Queue_Spec.thy ===== *)
theory RTES_Queue_Spec
  imports RTES_Types
begin

text \<open>
  What the two ring buffers of \<^verbatim>\<open>include/rtes/spsc_queue.hpp\<close> and
  \<^verbatim>\<open>include/rtes/mpmc_queue.hpp\<close> share: the rounding of a capacity to a power of
  two, the index arithmetic of a ring, and the bounded queue as an interface.
\<close>

section \<open>Capacities\<close>

definition smear :: "u64 \<Rightarrow> u64" where
  "smear v =
     (let v = v OR drop_bit 1 v;
          v = v OR drop_bit 2 v;
          v = v OR drop_bit 4 v;
          v = v OR drop_bit 8 v;
          v = v OR drop_bit 16 v;
          v = v OR drop_bit 32 v
      in v)"

definition round_up_pow2 :: "u64 \<Rightarrow> u64" where
  "round_up_pow2 v = (if v = 0 then 1 else smear (v - 1) + 1)"

section \<open>Rounding up to a power of two\<close>

definition smeared :: "nat \<Rightarrow> u64 \<Rightarrow> u64 \<Rightarrow> bool" where
  "smeared n w a \<longleftrightarrow> (\<forall>i. bit a i \<longleftrightarrow> (\<exists>j<n. bit w (i + j)))"

lemma smeared_double:
  assumes "smeared n w a"
  shows "smeared (n + n) w (a OR drop_bit n a)"
  unfolding smeared_def
proof
  fix i
  have "bit (a OR drop_bit n a) i \<longleftrightarrow> bit a i \<or> bit a (n + i)"
    by (simp add: bit_simps)
  also have "\<dots> \<longleftrightarrow> (\<exists>j<n. bit w (i + j)) \<or> (\<exists>j<n. bit w (n + i + j))"
    using assms by (simp add: smeared_def)
  also have "\<dots> \<longleftrightarrow> (\<exists>j<n + n. bit w (i + j))"
  proof
    assume "(\<exists>j<n. bit w (i + j)) \<or> (\<exists>j<n. bit w (n + i + j))"
    then show "\<exists>j<n + n. bit w (i + j)"
    proof
      assume "\<exists>j<n. bit w (n + i + j)"
      then obtain j where "j < n" "bit w (i + (n + j))" by (auto simp: ac_simps)
      then show ?thesis by (intro exI [of _ "n + j"]) simp
    qed (metis trans_less_add1)
  next
    assume "\<exists>j<n + n. bit w (i + j)"
    then obtain j where j: "j < n + n" "bit w (i + j)" by auto
    show "(\<exists>j<n. bit w (i + j)) \<or> (\<exists>j<n. bit w (n + i + j))"
    proof (cases "j < n")
      case False
      with j have "j - n < n" "bit w (n + i + (j - n))" by (auto simp: ac_simps)
      then show ?thesis by blast
    qed (use j in auto)
  qed
  finally show "bit (a OR drop_bit n a) i \<longleftrightarrow> (\<exists>j<n + n. bit w (i + j))" .
qed

lemma smeared_smear: "smeared 64 w (smear w)"
proof -
  have step: "smeared m w (a OR drop_bit n a)" if "smeared n w a" "m = n + n" for n m a
    using smeared_double that by simp
  have "smeared 1 w w" by (simp add: smeared_def)
  then have "smeared 2 w (w OR drop_bit 1 w)" (is "smeared _ _ ?v1") by (rule step) simp
  then have "smeared 4 w (?v1 OR drop_bit 2 ?v1)" (is "smeared _ _ ?v2") by (rule step) simp
  then have "smeared 8 w (?v2 OR drop_bit 4 ?v2)" (is "smeared _ _ ?v3") by (rule step) simp
  then have "smeared 16 w (?v3 OR drop_bit 8 ?v3)" (is "smeared _ _ ?v4") by (rule step) simp
  then have "smeared 32 w (?v4 OR drop_bit 16 ?v4)" (is "smeared _ _ ?v5") by (rule step) simp
  then have "smeared 64 w (?v5 OR drop_bit 32 ?v5)" by (rule step) simp
  then show ?thesis by (simp only: smear_def Let_def)
qed

lemma smear_0 [simp]: "smear 0 = 0"
  by (simp add: smear_def)

lemma highest_bit:
  fixes w :: u64
  assumes "w \<noteq> 0"
  obtains h where "h < 64" "bit w h" "\<And>i. h < i \<Longrightarrow> \<not> bit w i" "2 ^ h \<le> unat w" "unat w < 2 ^ Suc h"
proof -
  let ?S = "{i. bit w i}"
  have fin: "finite ?S"
    by (rule finite_subset [of _ "{..<64}"]) (auto dest: bit_imp_le_length)
  have "?S \<noteq> {}" using assms by (auto simp: bit_eq_iff)
  then have h: "bit w (Max ?S)" using Max_in [OF fin] by auto
  have hi: "\<not> bit w i" if "Max ?S < i" for i
  proof
    assume "bit w i"
    then have "i \<le> Max ?S" using Max_ge [OF fin, of i] by simp
    with that show False by simp
  qed
  have "Max ?S < 64" using h by (auto dest: bit_imp_le_length)
  moreover have "2 ^ Max ?S \<le> unat w"
  proof (rule ccontr)
    assume "\<not> 2 ^ Max ?S \<le> unat w"
    then have "unat w < 2 ^ Max ?S" by simp
    then have "take_bit (Max ?S) (unat w) = unat w"
      by (simp add: take_bit_nat_eq_self)
    then have "\<not> bit (unat w) (Max ?S)"
      by (metis bit_take_bit_iff less_irrefl)
    with h show False by (simp add: bit_unsigned_iff)
  qed
  moreover have "take_bit (Suc (Max ?S)) (unat w) = unat w"
  proof (rule bit_eqI)
    fix n
    have "n < Suc (Max ?S)" if "bit (unat w) n"
    proof (rule ccontr)
      assume "\<not> n < Suc (Max ?S)"
      then have "\<not> bit w n" by (intro hi) simp
      with that show False by (simp add: bit_unsigned_iff)
    qed
    then show "bit (take_bit (Suc (Max ?S)) (unat w)) n = bit (unat w) n"
      by (auto simp only: bit_take_bit_iff)
  qed
  then have "unat w < 2 ^ Suc (Max ?S)"
    by (metis take_bit_nat_less_exp)
  ultimately show ?thesis using h hi that by blast
qed

lemma smear_mask:
  assumes "w \<noteq> 0" "\<And>i. h < i \<Longrightarrow> \<not> bit w i" "bit w h"
  shows "smear w = mask (Suc h)"
proof (rule bit_word_eqI)
  fix i assume "i < LENGTH(64)"
  have "h < 64" using assms(3) by (auto dest: bit_imp_le_length)
  have "bit (smear w) i \<longleftrightarrow> (\<exists>j<64. bit w (i + j))"
    using smeared_smear [of w] by (simp add: smeared_def)
  also have "\<dots> \<longleftrightarrow> i \<le> h"
  proof
    assume "\<exists>j<64. bit w (i + j)"
    then obtain j where "bit w (i + j)" by auto
    with assms(2) [of "i + j"] show "i \<le> h" by (meson le_add1 le_trans not_le)
  next
    assume "i \<le> h"
    then show "\<exists>j<64. bit w (i + j)"
      using assms(3) \<open>h < 64\<close> by (intro exI [of _ "h - i"]) auto
  qed
  finally show "bit (smear w) i \<longleftrightarrow> bit (mask (Suc h) :: u64) i"
    using \<open>i < LENGTH(64)\<close> by (auto simp: bit_simps)
qed

lemma round_up_pow2_spec:
  assumes "unat v \<le> 2 ^ 63"
  shows "\<exists>k\<le>63. round_up_pow2 v = 2 ^ k \<and> unat (round_up_pow2 v) = 2 ^ k \<and> unat v \<le> 2 ^ k \<and>
           (\<forall>m. unat v \<le> 2 ^ m \<longrightarrow> k \<le> m)"
proof -
  have un: "unat (2 ^ k :: u64) = 2 ^ k" if "k \<le> 63" for k
    using that unat_exp [of k, where 'a = 64] by simp
  consider "v = 0" | "v = 1" | "v \<noteq> 0" "v - 1 \<noteq> 0" by fastforce
  then show ?thesis
  proof cases
    case 1
    then show ?thesis by (intro exI [of _ 0]) (simp add: round_up_pow2_def)
  next
    case 2
    then show ?thesis by (intro exI [of _ 0]) (simp add: round_up_pow2_def)
  next
    case 3
    obtain h where h: "h < 64" "bit (v - 1) h" "\<And>i. h < i \<Longrightarrow> \<not> bit (v - 1) i"
      "2 ^ h \<le> unat (v - 1)" "unat (v - 1) < 2 ^ Suc h"
      using highest_bit [OF 3(2)] by blast
    have uv: "unat (v - 1) = unat v - 1" "0 < unat v"
      using 3(1) by (simp_all add: unat_minus_one unat_gt_0)
    then have "2 ^ h < (2::nat) ^ 63" using h(4) assms by linarith
    then have "h < 63" by (rule power_less_imp_less_exp [rotated]) simp
    then have h63: "Suc h \<le> 63" by simp
    have "round_up_pow2 v = mask (Suc h) + 1"
      using smear_mask [OF 3(2) h(3) h(2)] 3(1) by (simp add: round_up_pow2_def)
    then have r: "round_up_pow2 v = 2 ^ Suc h"
      by (simp add: mask_eq_exp_minus_1)
    have "k \<le> m" if "unat v \<le> 2 ^ m" "k = Suc h" for k m
    proof -
      have "(2::nat) ^ h < 2 ^ m" using that(1) h(4) uv by linarith
      then have "h < m" by (rule power_less_imp_less_exp [rotated]) simp
      then show ?thesis using that(2) by simp
    qed
    moreover have "unat v \<le> 2 ^ Suc h" using h(5) uv by linarith
    ultimately show ?thesis
      using r un [OF h63] h63 by (intro exI [of _ "Suc h"] conjI allI impI) (simp_all only: refl)
  qed
qed

section \<open>Ring indices\<close>

lemma ring_index_neq:
  assumes "i < n" "n < i + c"
  shows "(t + i) mod c \<noteq> (t + n) mod (c::nat)"
proof
  assume eq: "(t + i) mod c = (t + n) mod c"
  have "t + i \<le> t + n" using assms by simp
  with eq have "c dvd (t + n) - (t + i)"
    by (metis mod_eq_dvd_iff_nat)
  then have "c dvd n - i" by simp
  with assms show False by (auto dest: dvd_imp_le)
qed

lemma unat_add_mod_pow2:
  assumes "k \<le> 64"
  shows "(unat (w + 1 :: u64) + i) mod 2 ^ k = (unat w + Suc i) mod 2 ^ k"
proof -
  have dvd: "(2::nat) ^ k dvd 2 ^ 64" using assms by (rule le_imp_power_dvd)
  have "unat (w + 1) mod 2 ^ k = (unat w + 1) mod 2 ^ 64 mod 2 ^ k"
    by (simp add: unat_word_ariths)
  also have "\<dots> = (unat w + 1) mod 2 ^ k"
    using dvd by (rule mod_mod_cancel)
  finally have "(unat (w + 1) + i) mod 2 ^ k = (unat w + 1 + i) mod 2 ^ k"
    by (metis mod_add_left_eq)
  then show ?thesis by simp
qed

lemma unat_add_of_nat_mod_pow2:
  assumes "k \<le> 64"
  shows "unat (w + of_nat i :: u64) mod 2 ^ k = (unat w + i) mod 2 ^ k"
proof -
  have dvd: "(2::nat) ^ k dvd 2 ^ 64" using assms by (rule le_imp_power_dvd)
  have "unat (w + of_nat i) = (unat w + i) mod 2 ^ 64"
    by (simp add: unat_word_ariths unat_of_nat mod_add_right_eq)
  then show ?thesis using dvd by (simp only: mod_mod_cancel)
qed

lemma unat_diff_Suc:
  fixes x y :: u64
  assumes "unat (x - y) < 2 ^ 63"
  shows "unat (x + 1 - y) = Suc (unat (x - y))"
proof -
  have "unat (x + 1 - y) = unat ((x - y) + 1)" by (rule arg_cong [of _ _ unat]) simp
  also have "\<dots> = Suc (unat (x - y))" using assms by (intro unat_Suc_lt) auto
  finally show ?thesis .
qed

lemma unat_diff_pred:
  fixes x y :: u64
  assumes "x \<noteq> y"
  shows "Suc (unat (x - (y + 1))) = unat (x - y)"
proof -
  have ne: "x - y \<noteq> 0" using assms by simp
  have "unat (x - (y + 1)) = unat ((x - y) - 1)"
    by (rule arg_cong [of _ _ unat]) (simp add: algebra_simps)
  also have "\<dots> = unat (x - y) - 1" using ne by (rule unat_minus_one)
  moreover have "0 < unat (x - y)" using ne unat_gt_0 by blast
  ultimately show ?thesis by linarith
qed

section \<open>The bounded queue as an interface\<close>

text \<open>
  A producer may be refused only when the queue holds \<open>cap\<close> elements, a consumer only when
  it holds none, and elements leave in the order in which they came. \<open>push_all\<close> and
  \<open>drain\<close> are the loops that clients run.
\<close>

fun push_all :: "('a \<Rightarrow> 'q \<Rightarrow> bool \<times> 'q) \<Rightarrow> 'a list \<Rightarrow> 'q \<Rightarrow> bool list \<times> 'q" where
  "push_all push [] q = ([], q)"
| "push_all push (x # xs) q =
     (let (b, q') = push x q; (bs, q'') = push_all push xs q' in (b # bs, q''))"

fun drain :: "('q \<Rightarrow> 'a option \<times> 'q) \<Rightarrow> nat \<Rightarrow> 'q \<Rightarrow> 'a list \<times> 'q" where
  "drain pop 0 q = ([], q)"
| "drain pop (Suc n) q =
     (case pop q of
        (None, q') \<Rightarrow> ([], q')
      | (Some x, q') \<Rightarrow> let (xs, q'') = drain pop n q' in (x # xs, q''))"

locale bounded_queue =
  fixes push :: "'a \<Rightarrow> 'q \<Rightarrow> bool \<times> 'q"
    and pop :: "'q \<Rightarrow> 'a option \<times> 'q"
    and contents :: "'q \<Rightarrow> 'a list"
    and cap :: "'q \<Rightarrow> nat"
    and invar :: "'q \<Rightarrow> bool"
  assumes push_room: "invar q \<Longrightarrow> length (contents q) < cap q \<Longrightarrow>
      \<exists>q'. push x q = (True, q') \<and> invar q' \<and> contents q' = contents q @ [x] \<and> cap q' = cap q"
    and push_full: "invar q \<Longrightarrow> length (contents q) = cap q \<Longrightarrow>
      \<exists>q'. push x q = (False, q') \<and> invar q' \<and> contents q' = contents q \<and> cap q' = cap q"
    and pop_nil: "invar q \<Longrightarrow> contents q = [] \<Longrightarrow>
      \<exists>q'. pop q = (None, q') \<and> invar q' \<and> contents q' = [] \<and> cap q' = cap q"
    and pop_cons: "invar q \<Longrightarrow> contents q = x # xs \<Longrightarrow>
      \<exists>q'. pop q = (Some x, q') \<and> invar q' \<and> contents q' = xs \<and> cap q' = cap q"
    and within_cap: "invar q \<Longrightarrow> length (contents q) \<le> cap q"
begin

lemma push_spec:
  assumes "invar q" "push x q = (b, q')"
  shows "invar q' \<and> cap q' = cap q \<and> b = (length (contents q) < cap q) \<and>
         contents q' = (if b then contents q @ [x] else contents q)"
proof (cases "length (contents q) < cap q")
  case True
  with push_room [OF assms(1), of x] assms(2) show ?thesis by auto
next
  case False
  with within_cap [OF assms(1)] have "length (contents q) = cap q" by simp
  with push_full [OF assms(1), of x] assms(2) show ?thesis by auto
qed

lemma pop_spec:
  assumes "invar q" "pop q = (r, q')"
  shows "invar q' \<and> cap q' = cap q \<and>
         (case r of None \<Rightarrow> contents q = [] \<and> contents q' = []
                  | Some x \<Rightarrow> contents q = x # contents q')"
proof (cases "contents q")
  case Nil
  with pop_nil [OF assms(1)] assms(2) show ?thesis by auto
next
  case (Cons x xs)
  with pop_cons [OF assms(1)] assms(2) show ?thesis by fastforce
qed

lemma drain_spec:
  "invar q \<Longrightarrow>
     \<exists>q'. drain pop n q = (take n (contents q), q') \<and> invar q' \<and>
          contents q' = drop n (contents q) \<and> cap q' = cap q"
proof (induction n arbitrary: q)
  case (Suc n)
  show ?case
  proof (cases "contents q")
    case Nil
    with pop_nil [OF Suc.prems] show ?thesis by auto
  next
    case (Cons x xs)
    from pop_cons [OF Suc.prems Cons] obtain q1 where
      q1: "pop q = (Some x, q1)" "invar q1" "contents q1 = xs" "cap q1 = cap q" by blast
    from Suc.IH [OF q1(2)] q1 Cons show ?thesis by auto
  qed
qed auto

lemma push_all_spec:
  "invar q \<Longrightarrow>
     \<exists>q'. push_all push xs q =
            (map (\<lambda>i. length (contents q) + i < cap q) [0 ..< length xs], q') \<and> invar q' \<and>
          contents q' = contents q @ take (cap q - length (contents q)) xs \<and> cap q' = cap q"
proof (induction xs arbitrary: q)
  case (Cons x xs)
  obtain b q1 where p: "push x q = (b, q1)" by force
  note sp = push_spec [OF Cons.prems p]
  from Cons.IH [of q1] sp obtain q2 where
    q2: "push_all push xs q1 = (map (\<lambda>i. length (contents q1) + i < cap q) [0 ..< length xs], q2)"
      "invar q2" "contents q2 = contents q1 @ take (cap q - length (contents q1)) xs" "cap q2 = cap q"
    by auto
  have upt: "[0 ..< Suc (length xs)] = 0 # map Suc [0 ..< length xs]"
    by (simp add: map_Suc_upt upt_conv_Cons del: upt_Suc)
  show ?case
  proof (cases b)
    case True
    then have c1: "contents q1 = contents q @ [x]" and len: "length (contents q) < cap q"
      using sp by auto
    have "cap q - length (contents q) = Suc (cap q - length (contents q1))"
      using len c1 by simp
    then have "take (cap q - length (contents q)) (x # xs) = x # take (cap q - length (contents q1)) xs"
      by simp
    with True q2 len p c1 show ?thesis by (simp add: upt comp_def del: upt_Suc)
  next
    case False
    then have "contents q1 = contents q" "cap q = length (contents q)"
      using sp within_cap [OF Cons.prems] by auto
    with False q2 p show ?thesis by (simp add: upt comp_def del: upt_Suc)
  qed
qed auto

lemma fifo:
  assumes "invar q" "length (contents q) + length xs \<le> cap q" "push_all push xs q = (bs, q1)"
  shows "bs = replicate (length xs) True \<and>
         fst (drain pop (length (contents q) + length xs) q1) = contents q @ xs"
proof -
  obtain q' where "push_all push xs q =
      (map (\<lambda>i. length (contents q) + i < cap q) [0 ..< length xs], q')" "invar q'"
    "contents q' = contents q @ take (cap q - length (contents q)) xs"
    using push_all_spec [OF assms(1)] by blast
  moreover have "take (cap q - length (contents q)) xs = xs"
    using assms(2) by simp
  ultimately have sp: "bs = map (\<lambda>i. length (contents q) + i < cap q) [0 ..< length xs]"
    "invar q1" "contents q1 = contents q @ xs"
    using assms(3) by simp_all
  have "bs = replicate (length xs) True"
    using sp(1) assms(2) by (intro nth_equalityI) auto
  moreover obtain q2 where
    "drain pop (length (contents q) + length xs) q1 =
       (take (length (contents q) + length xs) (contents q1), q2)"
    using drain_spec [OF sp(2)] by blast
  then have "fst (drain pop (length (contents q) + length xs) q1) = contents q @ xs"
    using sp(3) by simp
  ultimately show ?thesis by simp
qed

end

end
