(* ===== verification/RTES_MPMC.thy ===== *)
theory RTES_MPMC
  imports RTES_Queue_Spec
begin

text \<open>
  The multi-producer multi-consumer queue of \<^verbatim>\<open>include/rtes/mpmc_queue.hpp\<close>. Each
  operation is a small program whose steps are single accesses to shared memory; one thread
  running alone gives the sequential operations, any number of threads stepping in any order
  gives the concurrent system.
\<close>

section \<open>State\<close>

record 'a cell =
  c_sequence :: u64
  c_data :: 'a

record 'a mpmc =
  mq_capacity :: u64
  mq_mask :: u64
  mq_buffer :: "'a cell list"
  mq_enqueue_pos :: u64
  mq_dequeue_pos :: u64

definition mq_new :: "'a \<Rightarrow> u64 \<Rightarrow> 'a mpmc" where
  "mq_new zero min_capacity =
     (let capacity = round_up_pow2 min_capacity in
      \<lparr>mq_capacity = capacity, mq_mask = capacity - 1,
       mq_buffer = map (\<lambda>i. \<lparr>c_sequence = of_nat i, c_data = zero\<rparr>) [0 ..< unat capacity],
       mq_enqueue_pos = 0, mq_dequeue_pos = 0\<rparr>)"

definition mq_cell :: "'a mpmc \<Rightarrow> u64 \<Rightarrow> 'a cell" where
  "mq_cell q pos = mq_buffer q ! unat (pos AND mq_mask q)"

definition mq_set_cell :: "u64 \<Rightarrow> 'a cell \<Rightarrow> 'a mpmc \<Rightarrow> 'a mpmc" where
  "mq_set_cell pos c q = q\<lparr>mq_buffer := (mq_buffer q)[unat (pos AND mq_mask q) := c]\<rparr>"

definition mq_empty :: "'a mpmc \<Rightarrow> bool" where
  "mq_empty q \<longleftrightarrow> mq_enqueue_pos q \<le> mq_dequeue_pos q"

definition mq_size_approx :: "'a mpmc \<Rightarrow> u64" where
  "mq_size_approx q =
     (let diff = mq_enqueue_pos q - mq_dequeue_pos q
      in if diff \<le> mq_capacity q then diff else 0)"

section \<open>The programs of push and pop\<close>

text \<open>
  \<open>Push_Look\<close> loads the sequence number of the cell and branches on its distance from the
  position, \<open>Push_Claim\<close> is the compare-and-exchange, \<open>Push_Write\<close> and
  \<open>Push_Publish\<close> are the two stores after the loop; likewise for \<open>pop\<close>.
  The distance is a difference of two signed 64-bit values.
\<close>

datatype 'a task =
    Idle
  | Push_Load 'a | Push_Look 'a u64 | Push_Claim 'a u64 | Push_Write 'a u64 | Push_Publish 'a u64
  | Push_Return bool
  | Pop_Load | Pop_Look u64 | Pop_Claim u64 | Pop_Read u64 | Pop_Recycle u64 'a
  | Pop_Return "'a option"

definition seq_diff :: "u64 \<Rightarrow> u64 \<Rightarrow> int" where
  "seq_diff seq pos = sint (seq - pos)"

fun push_step :: "'a mpmc \<Rightarrow> 'a task \<Rightarrow> 'a mpmc \<times> 'a task" where
  "push_step q (Push_Load x) = (q, Push_Look x (mq_enqueue_pos q))"
| "push_step q (Push_Look x pos) =
     (let diff = seq_diff (c_sequence (mq_cell q pos)) pos
      in if diff = 0 then (q, Push_Claim x pos)
         else if diff < 0 then (q, Push_Return False)
         else (q, Push_Load x))"
| "push_step q (Push_Claim x pos) =
     (if mq_enqueue_pos q = pos then (q\<lparr>mq_enqueue_pos := pos + 1\<rparr>, Push_Write x pos)
      else (q, Push_Look x (mq_enqueue_pos q)))"
| "push_step q (Push_Write x pos) =
     (mq_set_cell pos ((mq_cell q pos)\<lparr>c_data := x\<rparr>) q, Push_Publish x pos)"
| "push_step q (Push_Publish x pos) =
     (mq_set_cell pos ((mq_cell q pos)\<lparr>c_sequence := pos + 1\<rparr>) q, Push_Return True)"
| "push_step q u = (q, u)"

fun pop_step :: "'a mpmc \<Rightarrow> 'a task \<Rightarrow> 'a mpmc \<times> 'a task" where
  "pop_step q Pop_Load = (q, Pop_Look (mq_dequeue_pos q))"
| "pop_step q (Pop_Look pos) =
     (let diff = seq_diff (c_sequence (mq_cell q pos)) (pos + 1)
      in if diff = 0 then (q, Pop_Claim pos)
         else if diff < 0 then (q, Pop_Return None)
         else (q, Pop_Load))"
| "pop_step q (Pop_Claim pos) =
     (if mq_dequeue_pos q = pos then (q\<lparr>mq_dequeue_pos := pos + 1\<rparr>, Pop_Read pos)
      else (q, Pop_Look (mq_dequeue_pos q)))"
| "pop_step q (Pop_Read pos) = (q, Pop_Recycle pos (c_data (mq_cell q pos)))"
| "pop_step q (Pop_Recycle pos x) =
     (mq_set_cell pos ((mq_cell q pos)\<lparr>c_sequence := pos + mq_capacity q\<rparr>) q, Pop_Return (Some x))"
| "pop_step q u = (q, u)"

text \<open>The operations of a thread that runs alone; a loop that never ends is \<open>None\<close>.\<close>

partial_function (option) push_run :: "'a mpmc \<Rightarrow> 'a task \<Rightarrow> (bool \<times> 'a mpmc) option" where
  "push_run q u =
     (case u of
        Push_Return b \<Rightarrow> Some (b, q)
      | _ \<Rightarrow> (let (q', u') = push_step q u in push_run q' u'))"

partial_function (option) pop_run :: "'a mpmc \<Rightarrow> 'a task \<Rightarrow> ('a option \<times> 'a mpmc) option" where
  "pop_run q u =
     (case u of
        Pop_Return r \<Rightarrow> Some (r, q)
      | _ \<Rightarrow> (let (q', u') = pop_step q u in pop_run q' u'))"

definition mq_push :: "'a \<Rightarrow> 'a mpmc \<Rightarrow> (bool \<times> 'a mpmc) option" where
  "mq_push item q = push_run q (Push_Load item)"

definition mq_pop :: "'a mpmc \<Rightarrow> ('a option \<times> 'a mpmc) option" where
  "mq_pop q = pop_run q Pop_Load"

lemma push_run_eqs:
  "push_run q (Push_Return b) = Some (b, q)"
  "push_run q (Push_Load x) = push_run q (Push_Look x (mq_enqueue_pos q))"
  "push_run q (Push_Claim x pos) =
     (if mq_enqueue_pos q = pos then push_run (q\<lparr>mq_enqueue_pos := pos + 1\<rparr>) (Push_Write x pos)
      else push_run q (Push_Look x (mq_enqueue_pos q)))"
  "push_run q (Push_Write x pos) =
     push_run (mq_set_cell pos ((mq_cell q pos)\<lparr>c_data := x\<rparr>) q) (Push_Publish x pos)"
  "push_run q (Push_Publish x pos) =
     push_run (mq_set_cell pos ((mq_cell q pos)\<lparr>c_sequence := pos + 1\<rparr>) q) (Push_Return True)"
  by (subst push_run.simps, simp)+

lemma pop_run_eqs:
  "pop_run q (Pop_Return r) = Some (r, q)"
  "pop_run q Pop_Load = pop_run q (Pop_Look (mq_dequeue_pos q))"
  "pop_run q (Pop_Claim pos) =
     (if mq_dequeue_pos q = pos then pop_run (q\<lparr>mq_dequeue_pos := pos + 1\<rparr>) (Pop_Read pos)
      else pop_run q (Pop_Look (mq_dequeue_pos q)))"
  "pop_run q (Pop_Read pos) = pop_run q (Pop_Recycle pos (c_data (mq_cell q pos)))"
  "pop_run q (Pop_Recycle pos x) =
     pop_run (mq_set_cell pos ((mq_cell q pos)\<lparr>c_sequence := pos + mq_capacity q\<rparr>) q) (Pop_Return (Some x))"
  by (subst pop_run.simps, simp)+

lemma push_run_look:
  "push_run q (Push_Look x pos) =
     (if seq_diff (c_sequence (mq_cell q pos)) pos = 0 then push_run q (Push_Claim x pos)
      else if seq_diff (c_sequence (mq_cell q pos)) pos < 0 then Some (False, q)
      else push_run q (Push_Load x))"
  by (subst push_run.simps) (simp add: Let_def push_run_eqs(1))

lemma pop_run_look:
  "pop_run q (Pop_Look pos) =
     (if seq_diff (c_sequence (mq_cell q pos)) (pos + 1) = 0 then pop_run q (Pop_Claim pos)
      else if seq_diff (c_sequence (mq_cell q pos)) (pos + 1) < 0 then Some (None, q)
      else pop_run q Pop_Load)"
  by (subst pop_run.simps) (simp add: Let_def pop_run_eqs(1))

section \<open>A thread that runs alone\<close>

text \<open>
  What a push does that finds its cell writable, and a pop that finds its cell filled: the
  branches of the loop that leave it.
\<close>

definition mq_put :: "'a \<Rightarrow> 'a mpmc \<Rightarrow> 'a mpmc" where
  "mq_put x q = (mq_set_cell (mq_enqueue_pos q)
      \<lparr>c_sequence = mq_enqueue_pos q + 1, c_data = x\<rparr> q)\<lparr>mq_enqueue_pos := mq_enqueue_pos q + 1\<rparr>"

definition mq_take :: "'a mpmc \<Rightarrow> 'a mpmc" where
  "mq_take q = (mq_set_cell (mq_dequeue_pos q)
      ((mq_cell q (mq_dequeue_pos q))\<lparr>c_sequence := mq_dequeue_pos q + mq_capacity q\<rparr>) q)
        \<lparr>mq_dequeue_pos := mq_dequeue_pos q + 1\<rparr>"

lemma seq_diff_0 [simp]: "seq_diff a b = 0 \<longleftrightarrow> a = b"
proof -
  have "sint (a - b) = 0 \<longleftrightarrow> a - b = 0" using signed_eq_0_iff by blast
  then show ?thesis by (simp add: seq_diff_def)
qed

lemma cell_filled: "(c :: 'a cell)\<lparr>c_data := x, c_sequence := s\<rparr> = \<lparr>c_sequence = s, c_data = x\<rparr>"
  by (cases c) simp

lemma mq_push_put:
  assumes "unat (mq_enqueue_pos q AND mq_mask q) < length (mq_buffer q)"
    and "c_sequence (mq_cell q (mq_enqueue_pos q)) = mq_enqueue_pos q"
  shows "mq_push x q = Some (True, mq_put x q)"
  using assms
  by (cases q)
    (simp add: mq_push_def push_run_eqs push_run_look mq_put_def mq_set_cell_def mq_cell_def cell_filled)

lemma mq_push_refused:
  assumes "seq_diff (c_sequence (mq_cell q (mq_enqueue_pos q))) (mq_enqueue_pos q) < 0"
  shows "mq_push x q = Some (False, q)"
proof -
  have "c_sequence (mq_cell q (mq_enqueue_pos q)) \<noteq> mq_enqueue_pos q"
    using assms seq_diff_0 by (metis less_irrefl)
  then show ?thesis using assms by (simp add: mq_push_def push_run_eqs(2) push_run_look)
qed

lemma mq_pop_take:
  assumes "c_sequence (mq_cell q (mq_dequeue_pos q)) = mq_dequeue_pos q + 1"
  shows "mq_pop q = Some (Some (c_data (mq_cell q (mq_dequeue_pos q))), mq_take q)"
  using assms by (simp add: mq_pop_def pop_run_eqs pop_run_look mq_take_def mq_set_cell_def mq_cell_def)

lemma mq_pop_refused:
  assumes "seq_diff (c_sequence (mq_cell q (mq_dequeue_pos q))) (mq_dequeue_pos q + 1) < 0"
  shows "mq_pop q = Some (None, q)"
proof -
  have "c_sequence (mq_cell q (mq_dequeue_pos q)) \<noteq> mq_dequeue_pos q + 1"
    using assms seq_diff_0 by (metis less_irrefl)
  then show ?thesis using assms by (simp add: mq_pop_def pop_run_eqs(2) pop_run_look)
qed

text \<open>
  Between operations of one thread, the cells that hold elements carry the sequence number
  of the next position, the others that of their own; positions may wrap around.
\<close>

definition mq_cap :: "'a mpmc \<Rightarrow> nat" where
  "mq_cap q = unat (mq_capacity q)"

definition mq_len :: "'a mpmc \<Rightarrow> nat" where
  "mq_len q = unat (mq_enqueue_pos q - mq_dequeue_pos q)"

definition mq_nth :: "'a mpmc \<Rightarrow> nat \<Rightarrow> 'a cell" where
  "mq_nth q i = mq_buffer q ! ((unat (mq_dequeue_pos q) + i) mod mq_cap q)"

definition mq_contents :: "'a mpmc \<Rightarrow> 'a list" where
  "mq_contents q = map (\<lambda>i. c_data (mq_nth q i)) [0 ..< mq_len q]"

definition mq_shape :: "'a mpmc \<Rightarrow> bool" where
  "mq_shape q \<longleftrightarrow>
     (\<exists>k. 1 \<le> k \<and> k \<le> 63 \<and> mq_capacity q = 2 ^ k) \<and> mq_mask q = mq_capacity q - 1 \<and>
     length (mq_buffer q) = mq_cap q"

definition mq_inv :: "'a mpmc \<Rightarrow> bool" where
  "mq_inv q \<longleftrightarrow> mq_shape q \<and> mq_len q \<le> mq_cap q \<and>
     (\<forall>i<mq_cap q. c_sequence (mq_nth q i) =
        mq_dequeue_pos q + of_nat i + (if i < mq_len q then 1 else 0))"

lemma mq_capE:
  assumes "mq_shape q"
  obtains k where "k \<le> 63" "mq_capacity q = 2 ^ k" "mq_cap q = 2 ^ k" "2 \<le> mq_cap q"
    "mq_cap q \<le> 2 ^ 63" "mq_mask q = mask k"
proof -
  from assms obtain k where k: "1 \<le> k" "k \<le> 63" "mq_capacity q = 2 ^ k" "mq_mask q = mq_capacity q - 1"
    by (auto simp: mq_shape_def)
  have c: "mq_cap q = 2 ^ k"
    using k unat_exp [of k, where 'a = 64] by (simp add: mq_cap_def)
  moreover have "(2::nat) ^ k \<le> 2 ^ 63" "(2::nat) ^ 1 \<le> 2 ^ k"
    using k(1,2) by (intro power_increasing; simp)+
  ultimately show ?thesis
    using that [OF k(2,3) c] k by (simp add: mask_eq_exp_minus_1)
qed

lemma mq_index: "mq_shape q \<Longrightarrow> unat (w AND mq_mask q) = unat w mod mq_cap q"
  by (erule mq_capE) (simp add: unat_and_mask)

lemma mq_index_bound: "mq_shape q \<Longrightarrow> unat (w AND mq_mask q) < length (mq_buffer q)"
proof -
  assume q: "mq_shape q"
  then have "2 \<le> mq_cap q" by (rule mq_capE)
  then show ?thesis using q by (simp add: mq_index) (simp add: mq_shape_def)
qed

lemma mq_cell_nth:
  assumes "mq_shape q"
  shows "mq_cell q (mq_dequeue_pos q + of_nat i) = mq_nth q i"
proof -
  from assms obtain k where k: "k \<le> 63" "mq_cap q = 2 ^ k" by (rule mq_capE)
  then show ?thesis
    using unat_add_of_nat_mod_pow2 [of k "mq_dequeue_pos q" i]
    by (simp add: mq_cell_def mq_index [OF assms] mq_nth_def)
qed

lemma mq_cell_head: "mq_shape q \<Longrightarrow> mq_cell q (mq_dequeue_pos q) = mq_nth q 0"
  using mq_cell_nth [of q 0] by simp

lemma mq_cell_enqueue: "mq_shape q \<Longrightarrow> mq_cell q (mq_enqueue_pos q) = mq_nth q (mq_len q)"
  using mq_cell_nth [of q "mq_len q"] by (simp add: mq_len_def)


lemma mq_len_put:
  assumes "mq_inv q" "mq_len q < mq_cap q"
  shows "mq_len (mq_put x q) = Suc (mq_len q)"
proof -
  have "mq_cap q \<le> 2 ^ 63" using assms(1) unfolding mq_inv_def by (elim conjE) (rule mq_capE)
  then show ?thesis
    using assms(2) unfolding mq_len_def mq_put_def by (simp add: unat_diff_Suc mq_set_cell_def)
qed

lemma mq_put_frame [simp, frame]:
  "mq_capacity (mq_put x q) = mq_capacity q" "mq_mask (mq_put x q) = mq_mask q"
  "mq_dequeue_pos (mq_put x q) = mq_dequeue_pos q" "mq_cap (mq_put x q) = mq_cap q"
  "mq_shape (mq_put x q) = mq_shape q"
  by (simp_all add: mq_put_def mq_set_cell_def mq_cap_def mq_shape_def)

lemma mq_take_frame [simp, frame]:
  "mq_capacity (mq_take q) = mq_capacity q" "mq_mask (mq_take q) = mq_mask q"
  "mq_enqueue_pos (mq_take q) = mq_enqueue_pos q" "mq_cap (mq_take q) = mq_cap q"
  "mq_shape (mq_take q) = mq_shape q" "mq_dequeue_pos (mq_take q) = mq_dequeue_pos q + 1"
  by (simp_all add: mq_take_def mq_set_cell_def mq_cap_def mq_shape_def)

lemma mq_ring_eq:
  assumes "i < c" "j < c" "(t + i) mod c = (t + j) mod (c::nat)"
  shows "i = j"
proof (rule ccontr)
  assume "i \<noteq> j"
  then consider "i < j" | "j < i" by linarith
  then show False
    using ring_index_neq [of i j c t] ring_index_neq [of j i c t] assms by cases auto
qed

lemma mq_nth_put:
  assumes inv: "mq_inv q" and i: "i < mq_cap q" and n: "mq_len q < mq_cap q"
  shows "mq_nth (mq_put x q) i =
         (if i = mq_len q then \<lparr>c_sequence = mq_enqueue_pos q + 1, c_data = x\<rparr> else mq_nth q i)"
proof -
  have sh: "mq_shape q" using inv by (simp add: mq_inv_def)
  obtain k where k: "k \<le> 63" "mq_cap q = 2 ^ k" using sh by (rule mq_capE)
  have e: "unat (mq_enqueue_pos q AND mq_mask q) = (unat (mq_dequeue_pos q) + mq_len q) mod mq_cap q"
    using unat_add_of_nat_mod_pow2 [of k "mq_dequeue_pos q" "mq_len q"] k
    by (simp add: mq_index [OF sh] mq_len_def)
  have "mq_buffer (mq_put x q) = (mq_buffer q)[(unat (mq_dequeue_pos q) + mq_len q) mod mq_cap q :=
      \<lparr>c_sequence = mq_enqueue_pos q + 1, c_data = x\<rparr>]"
    by (simp add: mq_put_def mq_set_cell_def e)
  moreover have "length (mq_buffer q) = mq_cap q" "0 < mq_cap q" using sh i by (simp_all add: mq_shape_def)
  ultimately show ?thesis
    using mq_ring_eq [OF i n, of "unat (mq_dequeue_pos q)"] unfolding mq_nth_def
    by (auto simp: nth_list_update)
qed

lemma mq_inv_put:
  assumes inv: "mq_inv q" and n: "mq_len q < mq_cap q"
  shows "mq_inv (mq_put x q) \<and> mq_contents (mq_put x q) = mq_contents q @ [x]"
proof
  have pos: "mq_enqueue_pos q = mq_dequeue_pos q + of_nat (mq_len q)" by (simp add: mq_len_def)
  have "c_sequence (mq_nth (mq_put x q) i) =
      mq_dequeue_pos q + of_nat i + (if i < Suc (mq_len q) then 1 else 0)" if i: "i < mq_cap q" for i
    using inv i n by (auto simp: mq_nth_put [OF inv i n] mq_inv_def pos)
  then show "mq_inv (mq_put x q)"
    using inv n by (simp add: mq_inv_def mq_len_put [OF inv n])
  show "mq_contents (mq_put x q) = mq_contents q @ [x]"
    using n by (simp add: mq_contents_def mq_len_put [OF inv n] mq_nth_put [OF inv _ n])
qed

lemma mq_nth_take:
  assumes inv: "mq_inv q" and i: "i < mq_cap q"
  shows "mq_nth (mq_take q) i =
         (if Suc i = mq_cap q then (mq_nth q 0)\<lparr>c_sequence := mq_dequeue_pos q + mq_capacity q\<rparr>
          else mq_nth q (Suc i))"
proof -
  have sh: "mq_shape q" using inv by (simp add: mq_inv_def)
  obtain k where k: "k \<le> 63" "mq_cap q = 2 ^ k" using sh by (rule mq_capE)
  have d: "unat (mq_dequeue_pos q AND mq_mask q) = unat (mq_dequeue_pos q) mod mq_cap q"
    by (rule mq_index [OF sh])
  have shift: "(unat (mq_dequeue_pos q + 1) + i) mod mq_cap q = (unat (mq_dequeue_pos q) + Suc i) mod mq_cap q"
    using unat_add_mod_pow2 [of k "mq_dequeue_pos q" i] k by simp
  have len: "length (mq_buffer q) = mq_cap q" "0 < mq_cap q" using sh i by (simp_all add: mq_shape_def)
  have buf: "mq_buffer (mq_take q) = (mq_buffer q)[unat (mq_dequeue_pos q) mod mq_cap q :=
      (mq_nth q 0)\<lparr>c_sequence := mq_dequeue_pos q + mq_capacity q\<rparr>]"
    by (simp add: mq_take_def mq_set_cell_def d mq_cell_head [OF sh])
  show ?thesis
  proof (cases "Suc i = mq_cap q")
    case True
    then have "(unat (mq_dequeue_pos q) + Suc i) mod mq_cap q = unat (mq_dequeue_pos q) mod mq_cap q"
      by simp
    with True show ?thesis
      by (simp add: mq_nth_def [of "mq_take q"] buf shift len del: add_Suc_right)
  next
    case False
    then have "Suc i < mq_cap q" using i by simp
    then have "(unat (mq_dequeue_pos q) + Suc i) mod mq_cap q \<noteq> (unat (mq_dequeue_pos q) + 0) mod mq_cap q"
      using mq_ring_eq [of "Suc i" "mq_cap q" 0] len(2) by blast
    with False show ?thesis
      by (simp add: mq_nth_def [of "mq_take q"] mq_nth_def [of q "Suc i"] buf shift del: add_Suc_right)
  qed
qed

lemma mq_inv_take:
  assumes inv: "mq_inv q" and n: "0 < mq_len q"
  shows "mq_inv (mq_take q) \<and> mq_contents q = c_data (mq_nth q 0) # mq_contents (mq_take q)"
proof
  have sh: "mq_shape q" using inv by (simp add: mq_inv_def)
  have c2: "2 \<le> mq_cap q" using sh by (rule mq_capE)
  have "mq_enqueue_pos q \<noteq> mq_dequeue_pos q" using n by (auto simp: mq_len_def)
  then have len: "mq_len q = Suc (mq_len (mq_take q))"
    using unat_diff_pred by (simp add: mq_len_def)
  have top: "mq_capacity q = of_nat (mq_cap q)" by (simp add: mq_cap_def)
  have le: "mq_len q \<le> mq_cap q" using inv by (simp add: mq_inv_def)
  have "c_sequence (mq_nth (mq_take q) i) =
      mq_dequeue_pos (mq_take q) + of_nat i + (if i < mq_len (mq_take q) then 1 else 0)"
    if i: "i < mq_cap q" for i
  proof (cases "Suc i = mq_cap q")
    case True
    then have "mq_capacity q = 1 + of_nat i" using top by (metis of_nat_Suc)
    moreover have "\<not> i < mq_len (mq_take q)" using True le len by simp
    ultimately show ?thesis using True by (simp add: mq_nth_take [OF inv i])
  next
    case False
    then have "c_sequence (mq_nth q (Suc i)) =
        mq_dequeue_pos q + of_nat (Suc i) + (if Suc i < mq_len q then 1 else 0)"
      using inv i by (simp add: mq_inv_def del: of_nat_Suc)
    with False show ?thesis by (simp add: mq_nth_take [OF inv i] len ac_simps)
  qed
  then show "mq_inv (mq_take q)" using inv len by (simp add: mq_inv_def)
  have upt: "[0 ..< Suc m] = 0 # map Suc [0 ..< m]" for m
    by (simp add: map_Suc_upt upt_conv_Cons del: upt_Suc)
  have "c_data (mq_nth (mq_take q) i) = c_data (mq_nth q (Suc i))" if "i < mq_len (mq_take q)" for i
    using that le len by (subst mq_nth_take [OF inv]) auto
  then show "mq_contents q = c_data (mq_nth q 0) # mq_contents (mq_take q)"
    by (simp add: mq_contents_def len upt comp_def del: upt_Suc)
qed


lemma seq_diff_behind:
  assumes "0 < n" "n < 2 ^ 63"
  shows "seq_diff p (p + of_nat n) < 0"
proof -
  have "(p :: u64) - (p + of_nat n) = word_of_int (- int n)" by simp
  then have "seq_diff p (p + of_nat n) = sint (word_of_int (- int n) :: u64)"
    by (simp only: seq_diff_def)
  also have "\<dots> = - int n"
    using assms signed_take_bit_int_eq_self [of 63 "- int n"]
    by (subst signed_of_int) (simp del: of_int_minus)
  finally show ?thesis using assms by simp
qed

section \<open>The sequential operations refine the bounded queue\<close>

definition mq_try_push :: "'a \<Rightarrow> 'a mpmc \<Rightarrow> bool \<times> 'a mpmc" where
  "mq_try_push x q = (case mq_push x q of None \<Rightarrow> (False, q) | Some r \<Rightarrow> r)"

definition mq_try_pop :: "'a mpmc \<Rightarrow> 'a option \<times> 'a mpmc" where
  "mq_try_pop q = (case mq_pop q of None \<Rightarrow> (None, q) | Some r \<Rightarrow> r)"

lemma length_mq_contents [simp]: "length (mq_contents q) = mq_len q"
  by (simp add: mq_contents_def)

lemma mq_push_spec:
  assumes inv: "mq_inv q"
  shows "mq_push x q = Some (if mq_len q < mq_cap q then (True, mq_put x q) else (False, q))"
proof -
  have sh: "mq_shape q" and le: "mq_len q \<le> mq_cap q" using inv by (simp_all add: mq_inv_def)
  obtain k where k: "mq_cap q = 2 ^ k" "2 \<le> mq_cap q" "mq_cap q \<le> 2 ^ 63" using sh by (rule mq_capE)
  have pos: "mq_enqueue_pos q = mq_dequeue_pos q + of_nat (mq_len q)" by (simp add: mq_len_def)
  show ?thesis
  proof (cases "mq_len q < mq_cap q")
    case True
    then have "c_sequence (mq_nth q (mq_len q)) = mq_enqueue_pos q"
      using inv pos by (simp add: mq_inv_def)
    with mq_push_put [of q x] mq_index_bound [OF sh] True show ?thesis
      by (simp add: mq_cell_enqueue [OF sh])
  next
    case False
    then have full: "mq_len q = mq_cap q" using le by simp
    then have "mq_nth q (mq_len q) = mq_nth q 0" by (simp add: mq_nth_def)
    moreover have "c_sequence (mq_nth q 0) = mq_dequeue_pos q + 1"
    proof -
      have "0 < mq_cap q" "0 < mq_len q" using k full by simp_all
      then show ?thesis using inv unfolding mq_inv_def by (auto dest!: spec [of _ 0])
    qed
    ultimately have "c_sequence (mq_cell q (mq_enqueue_pos q)) = mq_dequeue_pos q + 1"
      by (simp add: mq_cell_enqueue [OF sh])
    moreover have "mq_enqueue_pos q = mq_dequeue_pos q + 1 + of_nat (mq_cap q - 1)"
      using pos full k by (simp add: of_nat_diff)
    moreover have "seq_diff (mq_dequeue_pos q + 1) (mq_dequeue_pos q + 1 + of_nat (mq_cap q - 1)) < 0"
      using k by (intro seq_diff_behind) simp_all
    ultimately have "mq_push x q = Some (False, q)" by (intro mq_push_refused) simp
    with False show ?thesis by simp
  qed
qed

lemma mq_pop_spec:
  assumes inv: "mq_inv q"
  shows "mq_pop q = Some (if mq_len q = 0 then (None, q) else (Some (c_data (mq_nth q 0)), mq_take q))"
proof -
  have sh: "mq_shape q" using inv by (simp add: mq_inv_def)
  obtain k where k: "mq_cap q = 2 ^ k" "2 \<le> mq_cap q" using sh by (rule mq_capE)
  then have "0 < mq_cap q" by simp
  then have seq: "c_sequence (mq_nth q 0) = mq_dequeue_pos q + (if 0 < mq_len q then 1 else 0)"
    using inv unfolding mq_inv_def by (auto dest!: spec [of _ 0])
  show ?thesis
  proof (cases "mq_len q = 0")
    case True
    then have "mq_pop q = Some (None, q)"
      using seq seq_diff_behind [of 1 "mq_dequeue_pos q"]
      by (intro mq_pop_refused) (simp add: mq_cell_head [OF sh])
    with True show ?thesis by simp
  next
    case False
    with seq show ?thesis by (simp add: mq_pop_take mq_cell_head [OF sh])
  qed
qed

lemma mq_inv_new:
  assumes "2 \<le> unat n" "unat n \<le> 2 ^ 63"
  shows "mq_inv (mq_new z n) \<and> mq_contents (mq_new z n) = [] \<and> unat n \<le> mq_cap (mq_new z n)"
proof -
  obtain k where k: "k \<le> 63" "round_up_pow2 n = 2 ^ k" "unat (round_up_pow2 n) = 2 ^ k" "unat n \<le> 2 ^ k"
    using round_up_pow2_spec [OF assms(2)] by blast
  have "k \<noteq> 0" using k(4) assms(1) by (cases k) auto
  then have "\<exists>j. 1 \<le> j \<and> j \<le> 63 \<and> round_up_pow2 n = 2 ^ j"
    using k by (intro exI [of _ k]) auto
  with k show ?thesis
    by (auto simp: mq_inv_def mq_shape_def mq_new_def mq_cap_def mq_contents_def mq_len_def mq_nth_def Let_def)
qed

interpretation mq: bounded_queue mq_try_push mq_try_pop mq_contents mq_cap mq_inv
proof (unfold_locales, goal_cases)
  case (1 q x)
  then show ?case using mq_inv_put by (simp add: mq_try_push_def mq_push_spec)
next
  case (2 q x)
  then show ?case by (simp add: mq_try_push_def mq_push_spec)
next
  case (3 q)
  then have "mq_len q = 0" by (metis length_mq_contents list.size(3))
  with 3 show ?case by (simp add: mq_try_pop_def mq_pop_spec)
next
  case (4 q x xs)
  then have "0 < mq_len q" by (metis length_mq_contents length_greater_0_conv list.distinct(1))
  with 4 mq_inv_take [of q] show ?case by (simp add: mq_try_pop_def mq_pop_spec)
next
  case (5 q)
  then show ?case by (simp add: mq_inv_def)
qed


text \<open>
  On a queue built for at least two elements, a thread running alone finds both
  loops terminating whatever the positions are, wrapped around or not: a batch that fits is
  accepted whole and comes out in the order in which it went in.
\<close>

theorem mpmc_sequential_fifo:
  assumes n: "2 \<le> unat n" "unat n \<le> 2 ^ 63" and fits: "length xs \<le> unat n"
    and pushed: "push_all mq_try_push xs (mq_new z n) = (bs, q)"
  shows "mq_push x q = Some (mq_try_push x q) \<and> mq_pop q = Some (mq_try_pop q) \<and>
         bs = replicate (length xs) True \<and> fst (drain mq_try_pop (length xs) q) = xs"
proof -
  have new: "mq_inv (mq_new z n)" "mq_contents (mq_new z n) = []" "unat n \<le> mq_cap (mq_new z n)"
    using mq_inv_new [OF n, of z] by auto
  have "bs = replicate (length xs) True \<and>
        fst (drain mq_try_pop (length (mq_contents (mq_new z n)) + length xs) q) =
          mq_contents (mq_new z n) @ xs"
    using new fits by (intro mq.fifo [OF _ _ pushed]) (simp_all only: list.size)
  moreover have "mq_inv q" using mq.push_all_spec [OF new(1), of xs] pushed by auto
  ultimately show ?thesis
    using new(2) by (simp add: mq_try_push_def mq_try_pop_def mq_push_spec mq_pop_spec)
qed

theorem mpmc_sequential_fifo_witness:
  "fst (drain mq_try_pop 3 (snd (push_all mq_try_push [7, 8, 9 :: nat] (mq_new 0 3)))) = [7, 8, 9]"
proof -
  obtain bs q where p: "push_all mq_try_push [7, 8, 9 :: nat] (mq_new 0 3) = (bs, q)" by force
  have "fst (drain mq_try_pop (length [7, 8, 9 :: nat]) q) = [7, 8, 9]"
    using mpmc_sequential_fifo [OF _ _ _ p] by simp
  then show ?thesis unfolding p snd_conv by (simp only: list.size numeral_3_eq_3 One_nat_def add_Suc_right add_0_right)
qed

section \<open>A capacity of one\<close>

definition pop_stuck :: "'a mpmc \<Rightarrow> bool" where
  "pop_stuck q \<longleftrightarrow>
     0 < seq_diff (c_sequence (mq_cell q (mq_dequeue_pos q))) (mq_dequeue_pos q + 1)"

lemma pop_stuck_never_returns:
  assumes "pop_stuck q"
  shows "pop_run q Pop_Load = None"
proof -
  have "\<not> (pop_stuck q \<and> (u = Pop_Load \<or> u = Pop_Look (mq_dequeue_pos q)))"
    if r: "pop_run q u = Some r" for q :: "'a mpmc" and u r
  proof (rule pop_run.raw_induct [OF _ r], goal_cases)
    case (1 run q u r)
    show ?case
    proof (rule notI, elim conjE disjE)
      assume st: "pop_stuck q" "u = Pop_Load"
      then have "run q (Pop_Look (mq_dequeue_pos q)) = Some r" using 1(2) by simp
      with 1(1) st show False by blast
    next
      assume st: "pop_stuck q" "u = Pop_Look (mq_dequeue_pos q)"
      then have "run q Pop_Load = Some r"
        using 1(2) by (simp add: pop_stuck_def Let_def del: seq_diff_0)
      with 1(1) st show False by blast
    qed
  qed
  with assms show ?thesis by (metis option.exhaust)
qed

text \<open>
  A queue of capacity one, which the constructor builds for a requested capacity
  of zero or one, is broken: the sequence number that marks its only cell as filled is also
  the one that marks it as writable at the next position. A second push succeeds while the
  first element has not been taken and overwrites it, and every later pop spins for ever.
\<close>

theorem mpmc_capacity_one_overwrites:
  assumes "n = 0 \<or> n = 1"
  shows "\<exists>q1 q2. mq_capacity (mq_new z n) = 1 \<and> mq_push x (mq_new z n) = Some (True, q1) \<and>
           mq_push y q1 = Some (True, q2) \<and> mq_size_approx q1 = 1 \<and> mq_pop q2 = None"
proof -
  let ?q0 = "\<lparr>mq_capacity = 1, mq_mask = 0, mq_buffer = [\<lparr>c_sequence = 0, c_data = z\<rparr>],
    mq_enqueue_pos = 0, mq_dequeue_pos = 0\<rparr>"
  let ?q1 = "mq_put x ?q0"
  let ?q2 = "mq_put y ?q1"
  have q0: "mq_new z n = ?q0" using assms by (auto simp: mq_new_def round_up_pow2_def)
  have p1: "mq_push x ?q0 = Some (True, ?q1)" by (rule mq_push_put) (simp_all add: mq_cell_def)
  have p2: "mq_push y ?q1 = Some (True, ?q2)"
    by (rule mq_push_put) (simp_all add: mq_cell_def mq_put_def mq_set_cell_def)
  have "pop_stuck ?q2"
    by (simp add: pop_stuck_def mq_cell_def mq_put_def mq_set_cell_def seq_diff_def)
  then have "mq_pop ?q2 = None" unfolding mq_pop_def by (rule pop_stuck_never_returns)
  moreover have "mq_size_approx ?q1 = 1" by (simp add: mq_size_approx_def mq_put_def mq_set_cell_def)
  ultimately show ?thesis
    using p1 p2 unfolding q0 by (intro exI [of _ ?q1] exI [of _ ?q2]) simp
qed

theorem mpmc_capacity_one_overwrites_witness:
  "\<exists>q1 q2. mq_push 7 (mq_new 0 1) = Some (True, q1) \<and> mq_push (8 :: nat) q1 = Some (True, q2) \<and>
     mq_pop q2 = None"
  using mpmc_capacity_one_overwrites [of 1 0 7 8] by blast

end
