(* ===== verification/RTES_MPMC_Threads.thy ===== *)
theory RTES_MPMC_Threads
  imports RTES_MPMC
begin

text \<open>
  Any number of threads on one queue of \<^verbatim>\<open>include/rtes/mpmc_queue.hpp\<close>, stepping in any
  order under sequential consistency. Between the claim of a position and the release of
  its cell a thread owns the cell alone, and elements leave in the order of their claims.
\<close>

section \<open>The system\<close>

text \<open>
  \<open>ms_in\<close> records the elements in the order in which their positions were claimed,
  \<open>ms_out\<close> the elements read with the position each was read at. A weak
  compare-and-exchange may fail without reason.
\<close>

record 'a mpmc_sys =
  ms_queue :: "'a mpmc"
  ms_task :: "nat \<Rightarrow> 'a task"
  ms_in :: "'a list"
  ms_out :: "(u64 \<times> 'a) list"

definition mpmc_start :: "'a \<Rightarrow> u64 \<Rightarrow> 'a mpmc_sys" where
  "mpmc_start z n = \<lparr>ms_queue = mq_new z n, ms_task = (\<lambda>_. Idle), ms_in = [], ms_out = []\<rparr>"

fun claims_in :: "'a mpmc \<Rightarrow> 'a task \<Rightarrow> 'a list" where
  "claims_in q (Push_Claim x pos) = (if mq_enqueue_pos q = pos then [x] else [])"
| "claims_in q _ = []"

fun reads_out :: "'a mpmc \<Rightarrow> 'a task \<Rightarrow> (u64 \<times> 'a) list" where
  "reads_out q (Pop_Read pos) = [(pos, c_data (mq_cell q pos))]"
| "reads_out q _ = []"

inductive mpmc_step :: "'a mpmc_sys \<Rightarrow> 'a mpmc_sys \<Rightarrow> bool" where
  call_push: "ms_task s t = Idle \<Longrightarrow> mpmc_step s (s\<lparr>ms_task := (ms_task s)(t := Push_Load x)\<rparr>)"
| call_pop: "ms_task s t = Idle \<Longrightarrow> mpmc_step s (s\<lparr>ms_task := (ms_task s)(t := Pop_Load)\<rparr>)"
| push_access: "push_step (ms_queue s) (ms_task s t) = (q, u) \<Longrightarrow>
     mpmc_step s (s\<lparr>ms_queue := q, ms_task := (ms_task s)(t := u),
       ms_in := ms_in s @ claims_in (ms_queue s) (ms_task s t)\<rparr>)"
| pop_access: "pop_step (ms_queue s) (ms_task s t) = (q, u) \<Longrightarrow>
     mpmc_step s (s\<lparr>ms_queue := q, ms_task := (ms_task s)(t := u),
       ms_out := ms_out s @ reads_out (ms_queue s) (ms_task s t)\<rparr>)"
| push_spurious: "ms_task s t = Push_Claim x pos \<Longrightarrow>
     mpmc_step s (s\<lparr>ms_task := (ms_task s)(t := Push_Look x (mq_enqueue_pos (ms_queue s)))\<rparr>)"
| pop_spurious: "ms_task s t = Pop_Claim pos \<Longrightarrow>
     mpmc_step s (s\<lparr>ms_task := (ms_task s)(t := Pop_Look (mq_dequeue_pos (ms_queue s)))\<rparr>)"
| push_returns: "ms_task s t = Push_Return b \<Longrightarrow> mpmc_step s (s\<lparr>ms_task := (ms_task s)(t := Idle)\<rparr>)"
| pop_returns: "ms_task s t = Pop_Return r \<Longrightarrow> mpmc_step s (s\<lparr>ms_task := (ms_task s)(t := Idle)\<rparr>)"

inductive mpmc_reachable :: "'a \<Rightarrow> u64 \<Rightarrow> 'a mpmc_sys \<Rightarrow> bool" for z n where
  start: "mpmc_reachable z n (mpmc_start z n)"
| step: "mpmc_reachable z n s \<Longrightarrow> mpmc_step s s' \<Longrightarrow> mpmc_reachable z n s'"

section \<open>Phases of the cells\<close>

text \<open>
  A cell is free for a position, claimed by a producer, filled, or taken by a consumer.
  The positions are natural numbers here: fewer than \<open>2^62\<close> pushes keep the words from
  wrapping around, without which a thread could sleep through a whole turn of the counter.
\<close>

datatype phase = Free nat | Claimed nat | Full nat | Taken nat

fun cell_ok :: "nat \<Rightarrow> 'a list \<Rightarrow> nat \<Rightarrow> nat \<Rightarrow> 'a cell \<Rightarrow> phase \<Rightarrow> bool" where
  "cell_ok cap vals d i c (Free p) \<longleftrightarrow>
     p mod cap = i \<and> c_sequence c = of_nat p \<and> length vals \<le> p \<and> p < d + cap"
| "cell_ok cap vals d i c (Claimed p) \<longleftrightarrow>
     p mod cap = i \<and> c_sequence c = of_nat p \<and> d \<le> p \<and> p < length vals"
| "cell_ok cap vals d i c (Full p) \<longleftrightarrow>
     p mod cap = i \<and> c_sequence c = of_nat (Suc p) \<and> d \<le> p \<and> p < length vals \<and> c_data c = vals ! p"
| "cell_ok cap vals d i c (Taken p) \<longleftrightarrow>
     p mod cap = i \<and> c_sequence c = of_nat (Suc p) \<and> p < d \<and> length vals \<le> p + cap \<and> c_data c = vals ! p"

fun task_ok :: "'a mpmc \<Rightarrow> 'a list \<Rightarrow> nat \<Rightarrow> (nat \<Rightarrow> phase) \<Rightarrow> (u64 \<times> 'a) list \<Rightarrow> 'a task \<Rightarrow> bool" where
  "task_ok q vals d ph out (Push_Look x pos) \<longleftrightarrow> unat pos \<le> length vals"
| "task_ok q vals d ph out (Push_Claim x pos) \<longleftrightarrow> unat pos \<le> length vals \<and>
     (unat pos = length vals \<longrightarrow> ph (unat pos mod mq_cap q) = Free (unat pos))"
| "task_ok q vals d ph out (Push_Write x pos) \<longleftrightarrow> unat pos < length vals \<and>
     ph (unat pos mod mq_cap q) = Claimed (unat pos) \<and> vals ! unat pos = x"
| "task_ok q vals d ph out (Push_Publish x pos) \<longleftrightarrow> unat pos < length vals \<and>
     ph (unat pos mod mq_cap q) = Claimed (unat pos) \<and> vals ! unat pos = x \<and> c_data (mq_cell q pos) = x"
| "task_ok q vals d ph out (Pop_Look pos) \<longleftrightarrow> unat pos \<le> d"
| "task_ok q vals d ph out (Pop_Claim pos) \<longleftrightarrow> unat pos \<le> d \<and>
     (unat pos = d \<longrightarrow> ph (unat pos mod mq_cap q) = Full (unat pos))"
| "task_ok q vals d ph out (Pop_Read pos) \<longleftrightarrow> unat pos < d \<and>
     ph (unat pos mod mq_cap q) = Taken (unat pos) \<and> pos \<notin> fst ` set out"
| "task_ok q vals d ph out (Pop_Recycle pos x) \<longleftrightarrow> unat pos < d \<and>
     ph (unat pos mod mq_cap q) = Taken (unat pos) \<and> vals ! unat pos = x"
| "task_ok q vals d ph out _ \<longleftrightarrow> True"

fun owned :: "'a task \<Rightarrow> u64 option" where
  "owned (Push_Write x pos) = Some pos"
| "owned (Push_Publish x pos) = Some pos"
| "owned (Pop_Read pos) = Some pos"
| "owned (Pop_Recycle pos x) = Some pos"
| "owned _ = None"

definition mpmc_inv :: "(nat \<Rightarrow> phase) \<Rightarrow> nat \<Rightarrow> 'a mpmc_sys \<Rightarrow> bool" where
  "mpmc_inv ph d s \<longleftrightarrow>
     (let q = ms_queue s; vals = ms_in s in
      mq_shape q \<and> mq_enqueue_pos q = of_nat (length vals) \<and> mq_dequeue_pos q = of_nat d \<and>
      d \<le> length vals \<and> length vals \<le> d + mq_cap q \<and>
      (\<forall>i<mq_cap q. cell_ok (mq_cap q) vals d i (mq_buffer q ! i) (ph i)) \<and>
      (\<forall>t. task_ok q vals d ph (ms_out s) (ms_task s t)) \<and>
      (\<forall>t u p. owned (ms_task s t) = Some p \<longrightarrow> owned (ms_task s u) = Some p \<longrightarrow> t = u) \<and>
      distinct (map fst (ms_out s)) \<and>
      (\<forall>(p, v) \<in> set (ms_out s). unat p < d \<and> v = vals ! unat p))"


lemma mod_Suc_neq: "2 \<le> c \<Longrightarrow> Suc p mod c \<noteq> p mod (c::nat)"
  using ring_index_neq [of 0 1 c p] by (simp add: eq_commute)

lemma of_nat_u64_eq:
  assumes "m < 2 ^ 64" "n < 2 ^ 64" "(of_nat m :: u64) = of_nat n"
  shows "m = n"
proof -
  have "unat (of_nat m :: u64) = m" "unat (of_nat n :: u64) = n"
    using assms(1,2) by (simp_all add: unat_of_nat)
  then show ?thesis using assms(3) by metis
qed

fun phase_seq :: "phase \<Rightarrow> nat" where
  "phase_seq (Free p) = p"
| "phase_seq (Claimed p) = p"
| "phase_seq (Full p) = Suc p"
| "phase_seq (Taken p) = Suc p"

lemma cell_ok_seq:
  assumes "cell_ok cap vals d i c f" "c_sequence c = of_nat m" "m < 2 ^ 64"
    and "length vals < 2 ^ 62" "cap \<le> 2 ^ 63" "d \<le> length vals"
  shows "phase_seq f = m"
proof (rule of_nat_u64_eq [OF _ assms(3)])
  show "(of_nat (phase_seq f) :: u64) = of_nat m" using assms(1,2) by (cases f) simp_all
  show "phase_seq f < 2 ^ 64" using assms by (cases f) simp_all
qed

text \<open>What a task relies on survives any change that leaves its own cell alone.\<close>

lemma task_ok_stable:
  assumes "task_ok q vals d ph out u" "mq_cap q' = mq_cap q" "d \<le> d'" "d \<le> length vals"
    and "\<And>p. owned u = Some p \<Longrightarrow> ph' (unat p mod mq_cap q) = ph (unat p mod mq_cap q) \<and>
            c_data (mq_cell q' p) = c_data (mq_cell q p) \<and> (p \<notin> fst ` set out \<longrightarrow> p \<notin> fst ` set out')"
    and "ys = [] \<Longrightarrow> ph (length vals mod mq_cap q) = Free (length vals) \<Longrightarrow>
           ph' (length vals mod mq_cap q) = Free (length vals)"
    and "d' = d \<Longrightarrow> ph (d mod mq_cap q) = Full d \<Longrightarrow> ph' (d mod mq_cap q) = Full d"
  shows "task_ok q' (vals @ ys) d' ph' out' u"
  using assms by (cases u) (auto simp: nth_append)

lemma cell_ok_claim_in:
  assumes "cell_ok cap vals d i c f" "i \<noteq> length vals mod cap" "d \<le> length vals"
  shows "cell_ok cap (vals @ [x]) d i c f"
proof -
  have "p \<noteq> length vals" "p + cap \<noteq> length vals" if "p mod cap = i" for p
    using that assms(2) by (metis, metis mod_add_self2)
  with assms show ?thesis by (cases f) (fastforce simp: nth_append le_less)+
qed

lemma cell_ok_claim_out:
  assumes "cell_ok cap vals d i c f" "i \<noteq> d mod cap"
  shows "cell_ok cap vals (Suc d) i c f"
proof -
  have "p \<noteq> d" if "p mod cap = i" for p
    using that assms(2) by auto
  with assms show ?thesis by (cases f) (fastforce simp: le_less)+
qed

section \<open>Each access preserves the invariant\<close>

lemma mpmc_invD:
  assumes "mpmc_inv ph d s"
  shows "mq_shape (ms_queue s)" "mq_enqueue_pos (ms_queue s) = of_nat (length (ms_in s))"
    "mq_dequeue_pos (ms_queue s) = of_nat d" "d \<le> length (ms_in s)"
    "length (ms_in s) \<le> d + mq_cap (ms_queue s)"
    "\<And>i. i < mq_cap (ms_queue s) \<Longrightarrow>
       cell_ok (mq_cap (ms_queue s)) (ms_in s) d i (mq_buffer (ms_queue s) ! i) (ph i)"
    "\<And>t. task_ok (ms_queue s) (ms_in s) d ph (ms_out s) (ms_task s t)"
    "\<And>t u p. owned (ms_task s t) = Some p \<Longrightarrow> owned (ms_task s u) = Some p \<Longrightarrow> t = u"
    "distinct (map fst (ms_out s))"
    "\<And>p v. (p, v) \<in> set (ms_out s) \<Longrightarrow> unat p < d \<and> v = ms_in s ! unat p"
  using assms unfolding mpmc_inv_def Let_def by blast+

lemma mpmc_invI:
  assumes "mq_shape (ms_queue s)" "mq_enqueue_pos (ms_queue s) = of_nat (length (ms_in s))"
    "mq_dequeue_pos (ms_queue s) = of_nat d" "d \<le> length (ms_in s)"
    "length (ms_in s) \<le> d + mq_cap (ms_queue s)"
    "\<And>i. i < mq_cap (ms_queue s) \<Longrightarrow>
       cell_ok (mq_cap (ms_queue s)) (ms_in s) d i (mq_buffer (ms_queue s) ! i) (ph i)"
    "\<And>t. task_ok (ms_queue s) (ms_in s) d ph (ms_out s) (ms_task s t)"
    "\<And>t u p. owned (ms_task s t) = Some p \<Longrightarrow> owned (ms_task s u) = Some p \<Longrightarrow> t = u"
    "distinct (map fst (ms_out s))"
    "\<And>p v. (p, v) \<in> set (ms_out s) \<Longrightarrow> unat p < d \<and> v = ms_in s ! unat p"
  shows "mpmc_inv ph d s"
  unfolding mpmc_inv_def Let_def using assms by blast

lemma mpmc_cell:
  assumes "mpmc_inv ph d s"
  shows "mq_cell (ms_queue s) p = mq_buffer (ms_queue s) ! (unat p mod mq_cap (ms_queue s))"
    "unat p mod mq_cap (ms_queue s) < mq_cap (ms_queue s)" "2 \<le> mq_cap (ms_queue s)"
    "mq_cap (ms_queue s) \<le> 2 ^ 63"
proof -
  have sh: "mq_shape (ms_queue s)" by (rule mpmc_invD [OF assms])
  show "mq_cap (ms_queue s) \<le> 2 ^ 63" using sh by (rule mq_capE)
  show "2 \<le> mq_cap (ms_queue s)" using sh by (rule mq_capE)
  then show "unat p mod mq_cap (ms_queue s) < mq_cap (ms_queue s)" by simp
  show "mq_cell (ms_queue s) p = mq_buffer (ms_queue s) ! (unat p mod mq_cap (ms_queue s))"
    by (simp add: mq_cell_def mq_index [OF sh])
qed

text \<open>Changing the task of one thread keeps the owners apart if it owns what it owned, or nothing.\<close>

lemma owned_upd:
  assumes "mpmc_inv ph d s" "owned v = None \<or> owned v = owned (ms_task s t)"
    and "owned (((ms_task s)(t := v)) t1) = Some p" "owned (((ms_task s)(t := v)) t2) = Some p"
  shows "t1 = t2"
  using assms(2-4) mpmc_invD(8) [OF assms(1), of t1 p t2]
  by (cases "t1 = t"; cases "t2 = t") auto

lemma mpmc_local:
  assumes inv: "mpmc_inv ph d s" and u: "owned u = None"
    and ok: "task_ok (ms_queue s) (ms_in s) d ph (ms_out s) u"
  shows "mpmc_inv ph d (s\<lparr>ms_task := (ms_task s)(t := u)\<rparr>)"
proof (rule mpmc_invI, goal_cases)
  case (7 t')
  then show ?case using ok mpmc_invD(7) [OF inv, of t'] by simp
next
  case (8 t1 t2 p)
  then show ?case using owned_upd [OF inv, of u t t1 p t2] u by simp
qed (use mpmc_invD [OF inv] in simp_all)

lemma mpmc_cell_seq:
  assumes inv: "mpmc_inv ph d s" and E: "length (ms_in s) < 2 ^ 62"
    and seq: "c_sequence (mq_cell (ms_queue s) pos) = of_nat m" and m: "m < 2 ^ 64"
  shows "phase_seq (ph (unat pos mod mq_cap (ms_queue s))) = m"
    "cell_ok (mq_cap (ms_queue s)) (ms_in s) d (unat pos mod mq_cap (ms_queue s))
       (mq_cell (ms_queue s) pos) (ph (unat pos mod mq_cap (ms_queue s)))"
proof -
  show ok: "cell_ok (mq_cap (ms_queue s)) (ms_in s) d (unat pos mod mq_cap (ms_queue s))
       (mq_cell (ms_queue s) pos) (ph (unat pos mod mq_cap (ms_queue s)))"
    using mpmc_cell(2) [OF inv] unfolding mpmc_cell(1) [OF inv] by (rule mpmc_invD(6) [OF inv])
  show "phase_seq (ph (unat pos mod mq_cap (ms_queue s))) = m"
    using ok seq m E mpmc_cell(4) [OF inv] mpmc_invD(4) [OF inv] by (rule cell_ok_seq)
qed

lemma push_look_free:
  assumes inv: "mpmc_inv ph d s" and E: "length (ms_in s) < 2 ^ 62"
    and pos: "unat pos = length (ms_in s)" and seq: "c_sequence (mq_cell (ms_queue s) pos) = pos"
  shows "ph (unat pos mod mq_cap (ms_queue s)) = Free (unat pos)"
proof -
  let ?f = "ph (unat pos mod mq_cap (ms_queue s))"
  have "c_sequence (mq_cell (ms_queue s) pos) = of_nat (unat pos)" using seq by simp
  moreover have "unat pos < 2 ^ 64" using pos E by simp
  ultimately have ok: "phase_seq ?f = unat pos" "cell_ok (mq_cap (ms_queue s)) (ms_in s) d
      (unat pos mod mq_cap (ms_queue s)) (mq_cell (ms_queue s) pos) ?f"
    using mpmc_cell_seq [OF inv E, of pos "unat pos"] by blast+
  note c2 = mpmc_cell(3) [OF inv]
  show ?thesis
  proof (cases ?f)
    case (Full p)
    then have "Suc p mod mq_cap (ms_queue s) = p mod mq_cap (ms_queue s)" using ok by simp
    with mod_Suc_neq [OF c2] show ?thesis by blast
  next
    case (Taken p)
    then have "Suc p mod mq_cap (ms_queue s) = p mod mq_cap (ms_queue s)" using ok by simp
    with mod_Suc_neq [OF c2] show ?thesis by blast
  qed (use ok pos in simp_all)
qed

lemma pop_look_full:
  assumes inv: "mpmc_inv ph d s" and E: "length (ms_in s) < 2 ^ 62"
    and pos: "unat pos = d" and seq: "c_sequence (mq_cell (ms_queue s) pos) = pos + 1"
  shows "ph (unat pos mod mq_cap (ms_queue s)) = Full (unat pos)"
proof -
  let ?f = "ph (unat pos mod mq_cap (ms_queue s))"
  have "c_sequence (mq_cell (ms_queue s) pos) = of_nat (Suc (unat pos))" using seq by simp
  moreover have "Suc (unat pos) < 2 ^ 64" using pos E mpmc_invD(4) [OF inv] by simp
  ultimately have ok: "phase_seq ?f = Suc (unat pos)" "cell_ok (mq_cap (ms_queue s)) (ms_in s) d
      (unat pos mod mq_cap (ms_queue s)) (mq_cell (ms_queue s) pos) ?f"
    using mpmc_cell_seq [OF inv E, of pos "Suc (unat pos)"] by blast+
  note c2 = mpmc_cell(3) [OF inv]
  show ?thesis
    using ok mod_Suc_neq [OF c2, of "unat pos"] pos by (cases ?f) fastforce+
qed


text \<open>The owner of a position has its cell claimed or taken, so other threads are elsewhere.\<close>

lemma owned_phase:
  assumes "task_ok q vals d ph out u" "owned u = Some p"
  shows "ph (unat p mod mq_cap q) = Claimed (unat p) \<or> ph (unat p mod mq_cap q) = Taken (unat p)"
  using assms by (cases u) auto

lemma owned_apart:
  assumes inv: "mpmc_inv ph d s" and t: "owned (ms_task s t) = Some p" "owned (ms_task s t') = Some p'" "t \<noteq> t'"
  shows "unat p mod mq_cap (ms_queue s) \<noteq> unat p' mod mq_cap (ms_queue s)"
proof
  assume eq: "unat p mod mq_cap (ms_queue s) = unat p' mod mq_cap (ms_queue s)"
  have "unat p = unat p'"
    using owned_phase [OF mpmc_invD(7) [OF inv] t(1)] owned_phase [OF mpmc_invD(7) [OF inv] t(2)]
    unfolding eq by (elim disjE) simp_all
  then have "p = p'" by (rule word_unat_eq_iff [THEN iffD2])
  with mpmc_invD(8) [OF inv t(1), of t'] t show False by simp
qed

lemma mq_set_cell_frame [simp, frame]:
  "mq_capacity (mq_set_cell p c q) = mq_capacity q" "mq_mask (mq_set_cell p c q) = mq_mask q"
  "mq_enqueue_pos (mq_set_cell p c q) = mq_enqueue_pos q"
  "mq_dequeue_pos (mq_set_cell p c q) = mq_dequeue_pos q"
  "mq_cap (mq_set_cell p c q) = mq_cap q" "mq_shape (mq_set_cell p c q) = mq_shape q"
  by (simp_all add: mq_set_cell_def mq_cap_def mq_shape_def)

text \<open>An owner stores into its cell: the write, the publication and the recycling.\<close>

lemma mpmc_store:
  assumes inv: "mpmc_inv ph d s" and own: "owned (ms_task s t) = Some p"
    and u: "owned u = None \<or> owned u = Some p"
    and i: "i = unat p mod mq_cap (ms_queue s)"
    and cell: "cell_ok (mq_cap (ms_queue s)) (ms_in s) d i c f"
    and ok: "task_ok (mq_set_cell p c (ms_queue s)) (ms_in s) d (ph(i := f)) (ms_out s) u"
  shows "mpmc_inv (ph(i := f)) d
           (s\<lparr>ms_queue := mq_set_cell p c (ms_queue s), ms_task := (ms_task s)(t := u)\<rparr>)"
proof -
  let ?q = "ms_queue s" let ?q' = "mq_set_cell p c ?q"
  have sh: "mq_shape ?q" by (rule mpmc_invD [OF inv])
  have len: "length (mq_buffer ?q) = mq_cap ?q" using sh by (simp add: mq_shape_def)
  have buf: "mq_buffer ?q' = (mq_buffer ?q)[i := c]"
    by (simp add: mq_set_cell_def mq_index [OF sh] i)
  have other: "mq_cell ?q' p' = mq_cell ?q p'" if "unat p' mod mq_cap ?q \<noteq> i" for p'
    using that by (simp add: mq_cell_def mq_index [OF sh] buf)
  have phase: "ph i = Claimed (unat p) \<or> ph i = Taken (unat p)"
    using owned_phase [OF mpmc_invD(7) [OF inv] own] i by simp
  show ?thesis
  proof (rule mpmc_invI, goal_cases)
    case (6 j)
    then show ?case using cell mpmc_invD(6) [OF inv, of j] i by (auto simp: buf len)
  next
    case (7 t')
    show ?case
    proof (cases "t' = t")
      case False
      have "task_ok ?q' (ms_in s @ []) d (ph(i := f)) (ms_out s) (ms_task s t')"
      proof (rule task_ok_stable [OF mpmc_invD(7) [OF inv, of t']], goal_cases)
        case (4 p')
        then have "unat p' mod mq_cap ?q \<noteq> i" using owned_apart [OF inv own, of t' p'] False i by auto
        then show ?case using other by simp
      qed (use phase mpmc_invD(4) [OF inv] in auto)
      with False show ?thesis by simp
    qed (use ok in simp)
  next
    case (8 t1 t2 p')
    then show ?case using owned_upd [OF inv, of u t t1 p' t2] u own by simp
  qed (use mpmc_invD [OF inv] in simp_all)
qed


lemma mpmc_claim_in:
  assumes inv: "mpmc_inv ph d s" and E: "length (ms_in s) < 2 ^ 62"
    and t: "ms_task s t = Push_Claim x pos" and e: "mq_enqueue_pos (ms_queue s) = pos"
  shows "mpmc_inv (ph(length (ms_in s) mod mq_cap (ms_queue s) := Claimed (length (ms_in s)))) d
           (s\<lparr>ms_queue := (ms_queue s)\<lparr>mq_enqueue_pos := pos + 1\<rparr>,
              ms_task := (ms_task s)(t := Push_Write x pos), ms_in := ms_in s @ [x]\<rparr>)"
proof -
  let ?q = "ms_queue s" let ?q' = "?q\<lparr>mq_enqueue_pos := pos + 1\<rparr>"
  let ?E = "length (ms_in s)" let ?i = "?E mod mq_cap ?q"
  have pos: "pos = of_nat ?E" using mpmc_invD(2) [OF inv] e by simp
  then have up: "unat pos = ?E" using E by (simp add: unat_of_nat)
  have cap: "mq_cap ?q' = mq_cap ?q" "\<And>p. mq_cell ?q' p = mq_cell ?q p"
    by (simp_all add: mq_cap_def mq_cell_def)
  have free: "ph ?i = Free ?E" using mpmc_invD(7) [OF inv, of t] by (simp add: t up)
  have i: "?i < mq_cap ?q" using mpmc_cell(2) [OF inv, of pos] up by simp
  then have fr: "cell_ok (mq_cap ?q) (ms_in s) d ?i (mq_buffer ?q ! ?i) (Free ?E)"
    using mpmc_invD(6) [OF inv i] free by simp
  have away: "unat p mod mq_cap ?q \<noteq> ?i" if "owned (ms_task s t') = Some p" for t' p
    using owned_phase [OF mpmc_invD(7) [OF inv] that] free by auto
  show ?thesis
  proof (rule mpmc_invI, goal_cases)
    case 1
    then show ?case using mpmc_invD(1) [OF inv] by (simp add: mq_shape_def cap)
  next
    case 5
    then show ?case using fr by (simp add: cap)
  next
    case (6 j)
    then show ?case
      using mpmc_invD(6) [OF inv, of j] cell_ok_claim_in [OF _ _ mpmc_invD(4) [OF inv], of _ j _ "ph j" x] fr
        mpmc_invD(4) [OF inv] by (simp add: cap)
  next
    case (7 t')
    have "task_ok ?q' (ms_in s @ [x]) d (ph(?i := Claimed ?E)) (ms_out s) (ms_task s t')"
      by (rule task_ok_stable [OF mpmc_invD(7) [OF inv, of t']])
        (use away [of t'] free mpmc_invD(4) [OF inv] in \<open>auto simp: cap\<close>)
    then show ?case by (simp add: up cap)
  next
    case (8 t1 t2 p)
    have "p' \<noteq> pos" if "owned (ms_task s t') = Some p'" for t' p'
      using away [OF that] up by auto
    with 8 show ?case using mpmc_invD(8) [OF inv, of t1 p t2] by (auto split: if_splits)
  next
    case (10 p v)
    then show ?case using mpmc_invD(10) [OF inv, of p v] mpmc_invD(4) [OF inv] by (simp add: nth_append)
  qed (use mpmc_invD [OF inv] pos in simp_all)
qed


lemma mpmc_claim_out:
  assumes inv: "mpmc_inv ph d s" and E: "length (ms_in s) < 2 ^ 62"
    and t: "ms_task s t = Pop_Claim pos" and e: "mq_dequeue_pos (ms_queue s) = pos"
  shows "mpmc_inv (ph(d mod mq_cap (ms_queue s) := Taken d)) (Suc d)
           (s\<lparr>ms_queue := (ms_queue s)\<lparr>mq_dequeue_pos := pos + 1\<rparr>,
              ms_task := (ms_task s)(t := Pop_Read pos)\<rparr>)"
proof -
  let ?q = "ms_queue s" let ?q' = "?q\<lparr>mq_dequeue_pos := pos + 1\<rparr>" let ?i = "d mod mq_cap ?q"
  have pos: "pos = of_nat d" using mpmc_invD(3) [OF inv] e by simp
  then have up: "unat pos = d" using E mpmc_invD(4) [OF inv] by (simp add: unat_of_nat)
  have cap: "mq_cap ?q' = mq_cap ?q" "\<And>p. mq_cell ?q' p = mq_cell ?q p"
    by (simp_all add: mq_cap_def mq_cell_def)
  have full: "ph ?i = Full d" using mpmc_invD(7) [OF inv, of t] by (simp add: t up)
  have i: "?i < mq_cap ?q" using mpmc_cell(2) [OF inv, of pos] up by simp
  then have fu: "cell_ok (mq_cap ?q) (ms_in s) d ?i (mq_buffer ?q ! ?i) (Full d)"
    using mpmc_invD(6) [OF inv i] full by simp
  have away: "unat p mod mq_cap ?q \<noteq> ?i" if "owned (ms_task s t') = Some p" for t' p
    using owned_phase [OF mpmc_invD(7) [OF inv] that] full by auto
  have fresh: "pos \<notin> fst ` set (ms_out s)" using mpmc_invD(10) [OF inv, of pos] up by auto
  show ?thesis
  proof (rule mpmc_invI, goal_cases)
    case 1
    then show ?case using mpmc_invD(1) [OF inv] by (simp add: mq_shape_def cap)
  next
    case (6 j)
    then show ?case
      using mpmc_invD(6) [OF inv, of j] fu
        cell_ok_claim_out [of "mq_cap ?q" "ms_in s" d j "mq_buffer ?q ! j" "ph j"]
        mpmc_invD(5) [OF inv] by (simp add: cap)
  next
    case (7 t')
    have "task_ok ?q' (ms_in s @ []) (Suc d) (ph(?i := Taken d)) (ms_out s) (ms_task s t')"
      by (rule task_ok_stable [OF mpmc_invD(7) [OF inv, of t']])
        (use away [of t'] full mpmc_invD(4) [OF inv] in \<open>auto simp: cap\<close>)
    then show ?case using fresh by (simp add: up cap)
  next
    case (8 t1 t2 p)
    have "p' \<noteq> pos" if "owned (ms_task s t') = Some p'" for t' p'
      using away [OF that] up by auto
    with 8 show ?case using mpmc_invD(8) [OF inv, of t1 p t2] by (auto split: if_splits)
  next
    case (10 p v)
    then show ?case using mpmc_invD(10) [OF inv, of p v] by simp
  next
    case 3
    then show ?case by (simp add: pos)
  qed (use mpmc_invD [OF inv] fu in \<open>simp_all add: cap\<close>)
qed

lemma mpmc_read:
  assumes inv: "mpmc_inv ph d s" and t: "ms_task s t = Pop_Read pos"
  shows "mpmc_inv ph d
           (s\<lparr>ms_task := (ms_task s)(t := Pop_Recycle pos (c_data (mq_cell (ms_queue s) pos))),
              ms_out := ms_out s @ [(pos, c_data (mq_cell (ms_queue s) pos))]\<rparr>)"
proof -
  let ?q = "ms_queue s" let ?i = "unat pos mod mq_cap ?q" let ?x = "c_data (mq_cell ?q pos)"
  have tk: "unat pos < d" "ph ?i = Taken (unat pos)" "pos \<notin> fst ` set (ms_out s)"
    using mpmc_invD(7) [OF inv, of t] by (simp_all add: t)
  have val: "?x = ms_in s ! unat pos"
    using mpmc_invD(6) [OF inv mpmc_cell(2) [OF inv, of pos]] tk(2) unfolding mpmc_cell(1) [OF inv] by simp
  show ?thesis
  proof (rule mpmc_invI, goal_cases)
    case (7 t')
    show ?case
    proof (cases "t' = t")
      case False
      then have "p \<noteq> pos" if "owned (ms_task s t') = Some p" for p
        using owned_apart [OF inv, of t' p t pos] that t by auto
      then have "task_ok ?q (ms_in s @ []) d ph (ms_out s @ [(pos, ?x)]) (ms_task s t')"
        by (intro task_ok_stable [OF mpmc_invD(7) [OF inv, of t']])
          (use mpmc_invD(4) [OF inv] in auto)
      with False show ?thesis by simp
    qed (use tk val in simp)
  next
    case (8 t1 t2 p)
    then show ?case using owned_upd [OF inv, of "Pop_Recycle pos ?x" t t1 p t2] t by simp
  next
    case (10 p v)
    then show ?case using mpmc_invD(10) [OF inv, of p v] tk val by auto
  qed (use mpmc_invD [OF inv] tk in simp_all)
qed

lemma mpmc_write:
  assumes inv: "mpmc_inv ph d s" and t: "ms_task s t = Push_Write x pos"
  shows "mpmc_inv ph d
     (s\<lparr>ms_queue := mq_set_cell pos ((mq_cell (ms_queue s) pos)\<lparr>c_data := x\<rparr>) (ms_queue s),
        ms_task := (ms_task s)(t := Push_Publish x pos)\<rparr>)"
proof -
  let ?q = "ms_queue s" let ?i = "unat pos mod mq_cap ?q" let ?c = "(mq_cell ?q pos)\<lparr>c_data := x\<rparr>"
  have tk: "unat pos < length (ms_in s)" "ph ?i = Claimed (unat pos)" "ms_in s ! unat pos = x"
    using mpmc_invD(7) [OF inv, of t] by (simp_all add: t)
  have ok: "cell_ok (mq_cap ?q) (ms_in s) d ?i (mq_cell ?q pos) (ph ?i)"
    using mpmc_invD(6) [OF inv mpmc_cell(2) [OF inv, of pos]] by (simp add: mpmc_cell(1) [OF inv])
  have sh: "mq_shape ?q" by (rule mpmc_invD [OF inv])
  have "c_data (mq_cell (mq_set_cell pos ?c ?q) pos) = x"
    using mq_index_bound [OF sh, of pos] by (simp add: mq_cell_def mq_set_cell_def)
  then have "mpmc_inv (ph(?i := Claimed (unat pos))) d
     (s\<lparr>ms_queue := mq_set_cell pos ?c ?q, ms_task := (ms_task s)(t := Push_Publish x pos)\<rparr>)"
    using ok tk t by (intro mpmc_store [OF inv]) simp_all
  then show ?thesis by (simp only: fun_upd_idem [of ph ?i, OF tk(2)])
qed

lemma mpmc_publish:
  assumes inv: "mpmc_inv ph d s" and t: "ms_task s t = Push_Publish x pos"
  shows "mpmc_inv (ph(unat pos mod mq_cap (ms_queue s) := Full (unat pos))) d
     (s\<lparr>ms_queue := mq_set_cell pos ((mq_cell (ms_queue s) pos)\<lparr>c_sequence := pos + 1\<rparr>) (ms_queue s),
        ms_task := (ms_task s)(t := Push_Return True)\<rparr>)"
proof -
  let ?q = "ms_queue s" let ?i = "unat pos mod mq_cap ?q"
  have tk: "ph ?i = Claimed (unat pos)" "ms_in s ! unat pos = x" "c_data (mq_cell ?q pos) = x"
    using mpmc_invD(7) [OF inv, of t] by (simp_all add: t)
  have ok: "cell_ok (mq_cap ?q) (ms_in s) d ?i (mq_cell ?q pos) (ph ?i)"
    using mpmc_invD(6) [OF inv mpmc_cell(2) [OF inv, of pos]] by (simp add: mpmc_cell(1) [OF inv])
  show ?thesis using ok tk t by (intro mpmc_store [OF inv]) simp_all
qed

lemma mpmc_recycle:
  assumes inv: "mpmc_inv ph d s" and t: "ms_task s t = Pop_Recycle pos x"
  shows "mpmc_inv (ph(unat pos mod mq_cap (ms_queue s) := Free (unat pos + mq_cap (ms_queue s)))) d
     (s\<lparr>ms_queue := mq_set_cell pos
          ((mq_cell (ms_queue s) pos)\<lparr>c_sequence := pos + mq_capacity (ms_queue s)\<rparr>) (ms_queue s),
        ms_task := (ms_task s)(t := Pop_Return (Some x))\<rparr>)"
proof -
  let ?q = "ms_queue s" let ?i = "unat pos mod mq_cap ?q"
  have tk: "ph ?i = Taken (unat pos)" "unat pos < d"
    using mpmc_invD(7) [OF inv, of t] by (simp_all add: t)
  have ok: "cell_ok (mq_cap ?q) (ms_in s) d ?i (mq_cell ?q pos) (ph ?i)"
    using mpmc_invD(6) [OF inv mpmc_cell(2) [OF inv, of pos]] by (simp add: mpmc_cell(1) [OF inv])
  have "pos + mq_capacity ?q = of_nat (unat pos + mq_cap ?q)" by (simp add: mq_cap_def)
  with ok tk t show ?thesis by (intro mpmc_store [OF inv]) simp_all
qed


section \<open>Every reachable state\<close>

fun pushing :: "'a task \<Rightarrow> bool" where
  "pushing (Push_Load x) = True"
| "pushing (Push_Look x pos) = True"
| "pushing (Push_Claim x pos) = True"
| "pushing (Push_Write x pos) = True"
| "pushing (Push_Publish x pos) = True"
| "pushing _ = False"

fun popping :: "'a task \<Rightarrow> bool" where
  "popping Pop_Load = True"
| "popping (Pop_Look pos) = True"
| "popping (Pop_Claim pos) = True"
| "popping (Pop_Read pos) = True"
| "popping (Pop_Recycle pos x) = True"
| "popping _ = False"

lemma step_other:
  "\<not> pushing v \<Longrightarrow> push_step q v = (q, v) \<and> claims_in q v = []"
  "\<not> popping v \<Longrightarrow> pop_step q v = (q, v) \<and> reads_out q v = []"
  by (cases v; simp)+

lemma mpmc_push_access:
  assumes inv: "mpmc_inv ph d s" and E: "length (ms_in s) < 2 ^ 62"
    and st: "push_step (ms_queue s) (ms_task s t) = (q, u)"
  shows "\<exists>ph. mpmc_inv ph d (s\<lparr>ms_queue := q, ms_task := (ms_task s)(t := u),
            ms_in := ms_in s @ claims_in (ms_queue s) (ms_task s t)\<rparr>)"
proof -
  have here: "unat (mq_enqueue_pos (ms_queue s)) = length (ms_in s)"
    using mpmc_invD(2) [OF inv] E by (simp add: unat_of_nat)
  have same: "\<exists>ph. mpmc_inv ph d (s\<lparr>ms_task := (ms_task s)(t := u)\<rparr>)"
    if "owned u = None" "task_ok (ms_queue s) (ms_in s) d ph (ms_out s) u" for u
    using mpmc_local [OF inv that] by blast
  have idle: ?thesis if "\<not> pushing (ms_task s t)"
    using inv st step_other(1) [OF that, of "ms_queue s"] by (intro exI [of _ ph]) auto
  show ?thesis
  proof (cases "ms_task s t")
    case (Push_Load x)
    then show ?thesis using st same [of u] here by auto
  next
    case (Push_Look x pos)
    then show ?thesis
      using st same [of u] push_look_free [OF inv E, of pos] mpmc_invD(7) [OF inv, of t]
      by (auto simp: Let_def split: if_splits)
  next
    case (Push_Claim x pos)
    show ?thesis
    proof (cases "mq_enqueue_pos (ms_queue s) = pos")
      case True
      then show ?thesis using st Push_Claim mpmc_claim_in [OF inv E Push_Claim True] by auto
    next
      case False
      then show ?thesis using st Push_Claim same [of u] here by auto
    qed
  next
    case (Push_Write x pos)
    then show ?thesis using st mpmc_write [OF inv Push_Write] by auto
  next
    case (Push_Publish x pos)
    then show ?thesis using st mpmc_publish [OF inv Push_Publish] by auto
  qed (rule idle, simp)+
qed

lemma mpmc_pop_access:
  assumes inv: "mpmc_inv ph d s" and E: "length (ms_in s) < 2 ^ 62"
    and st: "pop_step (ms_queue s) (ms_task s t) = (q, u)"
  shows "\<exists>ph d. mpmc_inv ph d (s\<lparr>ms_queue := q, ms_task := (ms_task s)(t := u),
            ms_out := ms_out s @ reads_out (ms_queue s) (ms_task s t)\<rparr>)"
proof -
  have here: "unat (mq_dequeue_pos (ms_queue s)) = d"
    using mpmc_invD(3,4) [OF inv] E by (simp add: unat_of_nat)
  have same: "\<exists>ph d. mpmc_inv ph d (s\<lparr>ms_task := (ms_task s)(t := u)\<rparr>)"
    if "owned u = None" "task_ok (ms_queue s) (ms_in s) d ph (ms_out s) u" for u
    using mpmc_local [OF inv that] by blast
  have idle: ?thesis if "\<not> popping (ms_task s t)"
    using inv st step_other(2) [OF that, of "ms_queue s"] by (intro exI [of _ ph] exI [of _ d]) auto
  show ?thesis
  proof (cases "ms_task s t")
    case Pop_Load
    then show ?thesis using st same [of u] here by auto
  next
    case (Pop_Look pos)
    then show ?thesis
      using st same [of u] pop_look_full [OF inv E, of pos] mpmc_invD(7) [OF inv, of t]
      by (auto simp: Let_def split: if_splits) blast
  next
    case (Pop_Claim pos)
    show ?thesis
    proof (cases "mq_dequeue_pos (ms_queue s) = pos")
      case True
      then show ?thesis using st Pop_Claim mpmc_claim_out [OF inv E Pop_Claim True] by auto
    next
      case False
      then show ?thesis using st Pop_Claim same [of u] here by auto
    qed
  next
    case (Pop_Read pos)
    then show ?thesis using st mpmc_read [OF inv Pop_Read] by auto blast
  next
    case (Pop_Recycle pos x)
    then show ?thesis using st mpmc_recycle [OF inv Pop_Recycle] by auto
  qed (rule idle, simp)+
qed

lemma mpmc_step_inv:
  assumes st: "mpmc_step s s'" and inv: "mpmc_inv ph d s" and E: "length (ms_in s) < 2 ^ 62"
  shows "\<exists>ph d. mpmc_inv ph d s'"
proof -
  have here: "unat (mq_enqueue_pos (ms_queue s)) = length (ms_in s)" "unat (mq_dequeue_pos (ms_queue s)) = d"
    using mpmc_invD(2,3,4) [OF inv] E by (simp_all add: unat_of_nat)
  have same: "\<exists>ph d. mpmc_inv ph d (s\<lparr>ms_task := (ms_task s)(t := u)\<rparr>)"
    if "owned u = None" "task_ok (ms_queue s) (ms_in s) d ph (ms_out s) u" for t u
    using mpmc_local [OF inv that] by blast
  from st show ?thesis
    using mpmc_push_access [OF inv E] mpmc_pop_access [OF inv E] same here
    by cases (blast | simp)+
qed

lemma mpmc_step_grows: "mpmc_step s s' \<Longrightarrow> length (ms_in s) \<le> length (ms_in s')"
  by (induction rule: mpmc_step.induct) simp_all

lemma mpmc_start_inv:
  assumes "2 \<le> unat n" "unat n \<le> 2 ^ 63"
  shows "mpmc_inv Free 0 (mpmc_start z n)"
proof -
  have q: "mq_inv (mq_new z n)" using mq_inv_new [OF assms, of z] by simp
  then have sh: "mq_shape (mq_new z n)" by (simp add: mq_inv_def)
  have "mq_buffer (mq_new z n) ! i = \<lparr>c_sequence = of_nat i, c_data = z\<rparr>" if "i < mq_cap (mq_new z n)" for i
    using that by (simp add: mq_new_def mq_cap_def Let_def)
  moreover have "mq_enqueue_pos (mq_new z n) = 0" "mq_dequeue_pos (mq_new z n) = 0"
    by (simp_all add: mq_new_def Let_def)
  ultimately show ?thesis using sh by (intro mpmc_invI) (simp_all add: mpmc_start_def)
qed

lemma mpmc_reachable_inv:
  assumes "mpmc_reachable z n s" "2 \<le> unat n" "unat n \<le> 2 ^ 63" "length (ms_in s) < 2 ^ 62"
  shows "\<exists>ph d. mpmc_inv ph d s"
  using assms(1,4)
proof (induction rule: mpmc_reachable.induct)
  case start
  then show ?case using mpmc_start_inv [OF assms(2,3), of z] by blast
next
  case (step s s')
  have "length (ms_in s) < 2 ^ 62" using mpmc_step_grows [OF step.hyps(2)] step.prems by simp
  with step show ?case using mpmc_step_inv [OF step.hyps(2)] by blast
qed


text \<open>
  Claim C16. Whatever the interleaving of any number of producers and consumers on a queue
  built for at least two elements, as long as fewer than \<open>2^62\<close> elements were pushed: two
  threads that are between the claim of a position and the release of its cell work on
  different cells, so no cell is written or read by two threads at once.
\<close>

theorem mpmc_cells_owned_exclusively:
  assumes r: "mpmc_reachable z n s" and n: "2 \<le> unat n" "unat n \<le> 2 ^ 63"
    and E: "length (ms_in s) < 2 ^ 62"
    and t: "owned (ms_task s t) = Some p" "owned (ms_task s t') = Some p'" "t \<noteq> t'"
  shows "unat (p AND mq_mask (ms_queue s)) \<noteq> unat (p' AND mq_mask (ms_queue s))"
proof -
  obtain ph d where inv: "mpmc_inv ph d s" using mpmc_reachable_inv [OF r n E] by blast
  have sh: "mq_shape (ms_queue s)" by (rule mpmc_invD [OF inv])
  show ?thesis unfolding mq_index [OF sh] by (rule owned_apart [OF inv t])
qed


subsection \<open>Two producers at work\<close>

definition push_by :: "nat \<Rightarrow> 'a mpmc_sys \<Rightarrow> 'a mpmc_sys" where
  "push_by t s = (case push_step (ms_queue s) (ms_task s t) of (q, u) \<Rightarrow>
     s\<lparr>ms_queue := q, ms_task := (ms_task s)(t := u),
       ms_in := ms_in s @ claims_in (ms_queue s) (ms_task s t)\<rparr>)"

definition call_by :: "nat \<Rightarrow> 'a \<Rightarrow> 'a mpmc_sys \<Rightarrow> 'a mpmc_sys" where
  "call_by t x s = s\<lparr>ms_task := (ms_task s)(t := Push_Load x)\<rparr>"

definition pop_by :: "nat \<Rightarrow> 'a mpmc_sys \<Rightarrow> 'a mpmc_sys" where
  "pop_by t s = (case pop_step (ms_queue s) (ms_task s t) of (q, u) \<Rightarrow>
     s\<lparr>ms_queue := q, ms_task := (ms_task s)(t := u),
       ms_out := ms_out s @ reads_out (ms_queue s) (ms_task s t)\<rparr>)"

lemma push_by_reachable: "mpmc_reachable z n s \<Longrightarrow> mpmc_reachable z n (push_by t s)"
  unfolding push_by_def by (auto split: prod.split intro: mpmc_reachable.step mpmc_step.push_access)

lemma pop_by_reachable: "mpmc_reachable z n s \<Longrightarrow> mpmc_reachable z n (pop_by t s)"
  unfolding pop_by_def by (auto split: prod.split intro: mpmc_reachable.step mpmc_step.pop_access)

lemma call_by_reachable:
  "mpmc_reachable z n s \<Longrightarrow> ms_task s t = Idle \<Longrightarrow> mpmc_reachable z n (call_by t x s)"
  unfolding call_by_def by (auto intro: mpmc_reachable.step mpmc_step.call_push)

lemma call_pop_reachable:
  "mpmc_reachable z n s \<Longrightarrow> ms_task s t = Idle \<Longrightarrow>
     mpmc_reachable z n (s\<lparr>ms_task := (ms_task s)(t := Pop_Load)\<rparr>)"
  by (auto intro: mpmc_reachable.step mpmc_step.call_pop)

text \<open>Thread 1 overtakes thread 0 at the claim; then thread 2 reads what thread 1 published.\<close>

definition ex_sys :: "nat mpmc_sys" where
  "ex_sys = fold push_by [0, 1, 1, 0, 1, 0, 0, 0] (call_by 1 8 (call_by 0 7 (mpmc_start 0 2)))"

definition ex_sys2 :: "nat mpmc_sys" where
  "ex_sys2 = fold pop_by [2, 2, 2, 2]
     ((fold push_by [1, 1] ex_sys)\<lparr>ms_task := (ms_task (fold push_by [1, 1] ex_sys))(2 := Pop_Load)\<rparr>)"

lemmas ex_sys_eval = push_by_def pop_by_def call_by_def mpmc_start_def mq_new_def round_up_pow2_def
  smear_def mq_cell_def mq_set_cell_def

lemma ex_sys_reachable: "mpmc_reachable 0 2 ex_sys"
  unfolding ex_sys_def fold_simps comp_def id_def
  by (intro push_by_reachable call_by_reachable mpmc_reachable.start)
    (simp_all add: mpmc_start_def call_by_def)

lemma ex_sys_facts:
  "ms_in ex_sys = [8, 7]" "ms_task ex_sys (Suc 0) = Push_Write 8 0" "ms_task ex_sys 0 = Push_Write 7 1"
  "ms_task ex_sys 2 = Idle"
  by (simp_all add: ex_sys_def ex_sys_eval)

lemma ex_sys2_facts: "ms_in ex_sys2 = [8, 7]" "ms_out ex_sys2 = [(0, 8)]"
  by (simp_all add: ex_sys2_def ex_sys_def ex_sys_eval)

lemma ex_sys2_reachable: "mpmc_reachable 0 2 ex_sys2"
  unfolding ex_sys2_def fold_simps
  by (intro pop_by_reachable call_pop_reachable push_by_reachable ex_sys_reachable)
    (simp add: push_by_def ex_sys_facts split: prod.split)

theorem mpmc_cells_owned_exclusively_witness:
  "unat (0 AND mq_mask (ms_queue ex_sys)) \<noteq> unat (1 AND mq_mask (ms_queue ex_sys))"
  by (rule mpmc_cells_owned_exclusively [OF ex_sys_reachable, of 1 _ 0]) (simp_all add: ex_sys_facts)


end
