(* ===== verification/RTES_SPSC.thy ===== *)
theory RTES_SPSC
  imports RTES_Queue_Spec
begin

text \<open>
  The single-producer single-consumer ring of \<^verbatim>\<open>include/rtes/spsc_queue.hpp\<close>: the
  operations as one thread runs them, their refinement of the bounded queue interface, and
  a step relation in which producer and consumer interleave between memory accesses.
\<close>

section \<open>State and operations\<close>

record 'a spsc =
  sq_capacity :: u64
  sq_mask :: u64
  sq_buffer :: "'a list"
  sq_head :: u64
  sq_cached_tail :: u64
  sq_tail :: u64
  sq_cached_head :: u64

definition sq_new :: "'a \<Rightarrow> u64 \<Rightarrow> 'a spsc" where
  "sq_new zero min_capacity =
     (let capacity = round_up_pow2 min_capacity in
      \<lparr>sq_capacity = capacity, sq_mask = capacity - 1,
       sq_buffer = replicate (unat capacity) zero,
       sq_head = 0, sq_cached_tail = 0, sq_tail = 0, sq_cached_head = 0\<rparr>)"

definition sq_write :: "'a \<Rightarrow> 'a spsc \<Rightarrow> 'a spsc" where
  "sq_write item q =
     q\<lparr>sq_buffer := (sq_buffer q)[unat (sq_head q AND sq_mask q) := item]\<rparr>"

definition sq_push :: "'a \<Rightarrow> 'a spsc \<Rightarrow> bool \<times> 'a spsc" where
  "sq_push item q =
     (let head = sq_head q;
          publish = (\<lambda>q. (True, (sq_write item q)\<lparr>sq_head := head + 1\<rparr>))
      in if sq_capacity q \<le> head - sq_cached_tail q
         then let q = q\<lparr>sq_cached_tail := sq_tail q\<rparr>
              in if sq_capacity q \<le> head - sq_cached_tail q then (False, q) else publish q
         else publish q)"

definition sq_pop :: "'a spsc \<Rightarrow> 'a option \<times> 'a spsc" where
  "sq_pop q =
     (let tail = sq_tail q;
          take_out = (\<lambda>q. (Some (sq_buffer q ! unat (tail AND sq_mask q)), q\<lparr>sq_tail := tail + 1\<rparr>))
      in if tail = sq_cached_head q
         then let q = q\<lparr>sq_cached_head := sq_head q\<rparr>
              in if tail = sq_cached_head q then (None, q) else take_out q
         else take_out q)"

definition sq_consumer_empty :: "'a spsc \<Rightarrow> bool \<times> 'a spsc" where
  "sq_consumer_empty q =
     (if sq_tail q \<noteq> sq_cached_head q then (False, q)
      else let q = q\<lparr>sq_cached_head := sq_head q\<rparr> in (sq_tail q = sq_cached_head q, q))"

definition sq_empty :: "'a spsc \<Rightarrow> bool" where
  "sq_empty q = (sq_head q = sq_tail q)"

definition sq_size :: "'a spsc \<Rightarrow> u64" where
  "sq_size q = sq_head q - sq_tail q"

section \<open>Abstraction and invariant\<close>

definition sq_cap :: "'a spsc \<Rightarrow> nat" where
  "sq_cap q = unat (sq_capacity q)"

definition sq_contents :: "'a spsc \<Rightarrow> 'a list" where
  "sq_contents q =
     map (\<lambda>i. sq_buffer q ! ((unat (sq_tail q) + i) mod sq_cap q)) [0 ..< unat (sq_head q - sq_tail q)]"

text \<open>
  The cached tail lags behind the tail and the cached head behind the head, all within one
  capacity; positions may wrap around.
\<close>

definition sq_inv :: "'a spsc \<Rightarrow> bool" where
  "sq_inv q \<longleftrightarrow>
     (\<exists>k\<le>63. sq_capacity q = 2 ^ k) \<and> sq_mask q = sq_capacity q - 1 \<and>
     length (sq_buffer q) = sq_cap q \<and>
     unat (sq_head q - sq_tail q) \<le> unat (sq_head q - sq_cached_tail q) \<and>
     unat (sq_head q - sq_cached_tail q) \<le> sq_cap q \<and>
     unat (sq_cached_head q - sq_tail q) \<le> unat (sq_head q - sq_tail q)"

lemma sq_cap_frame [simp, frame]:
  "sq_cap (q\<lparr>sq_head := h\<rparr>) = sq_cap q" "sq_cap (q\<lparr>sq_tail := t\<rparr>) = sq_cap q"
  "sq_cap (q\<lparr>sq_cached_head := ch\<rparr>) = sq_cap q" "sq_cap (q\<lparr>sq_cached_tail := ct\<rparr>) = sq_cap q"
  "sq_cap (sq_write x q) = sq_cap q"
  by (simp_all add: sq_cap_def sq_write_def)

lemma length_sq_contents [simp]: "length (sq_contents q) = unat (sq_head q - sq_tail q)"
  by (simp add: sq_contents_def)

lemma sq_contents_cong:
  "sq_buffer q' = sq_buffer q \<Longrightarrow> sq_tail q' = sq_tail q \<Longrightarrow> sq_head q' = sq_head q \<Longrightarrow>
     sq_capacity q' = sq_capacity q \<Longrightarrow> sq_contents q' = sq_contents q"
  by (simp add: sq_contents_def sq_cap_def)

lemma sq_capE:
  assumes "sq_inv q"
  obtains k where "k \<le> 63" "sq_capacity q = 2 ^ k" "sq_cap q = 2 ^ k" "sq_cap q \<le> 2 ^ 63"
    "sq_mask q = mask k"
proof -
  from assms obtain k where k: "k \<le> 63" "sq_capacity q = 2 ^ k" "sq_mask q = sq_capacity q - 1"
    by (auto simp: sq_inv_def)
  have c: "sq_cap q = 2 ^ k"
    using k unat_exp [of k, where 'a = 64] by (simp add: sq_cap_def)
  moreover have "(2::nat) ^ k \<le> 2 ^ 63"
    using k(1) by (intro power_increasing) auto
  ultimately show ?thesis
    using that [OF k(1,2) c] k by (simp add: mask_eq_exp_minus_1)
qed

lemma sq_index: "sq_inv q \<Longrightarrow> unat (w AND sq_mask q) = unat w mod sq_cap q"
  by (erule sq_capE) (simp add: unat_and_mask)

lemma sq_head_index:
  assumes "sq_inv q"
  shows "unat (sq_head q) mod sq_cap q = (unat (sq_tail q) + unat (sq_head q - sq_tail q)) mod sq_cap q"
proof -
  from assms obtain k where k: "k \<le> 63" "sq_cap q = 2 ^ k" by (rule sq_capE)
  have "sq_head q = sq_tail q + of_nat (unat (sq_head q - sq_tail q))" by simp
  then have "unat (sq_head q) mod 2 ^ k =
      unat (sq_tail q + of_nat (unat (sq_head q - sq_tail q))) mod 2 ^ k"
    by (rule arg_cong [of _ _ "\<lambda>w. unat w mod 2 ^ k"])
  also have "\<dots> = (unat (sq_tail q) + unat (sq_head q - sq_tail q)) mod 2 ^ k"
    using k by (intro unat_add_of_nat_mod_pow2) simp
  finally show ?thesis by (simp only: k)
qed

text \<open>Writing the slot at the head leaves the published elements alone.\<close>

lemma sq_write_slot:
  assumes inv: "sq_inv q" and room: "unat (sq_head q - sq_tail q) < sq_cap q"
    and i: "i < unat (sq_head q - sq_tail q)"
  shows "(sq_buffer q)[unat (sq_head q AND sq_mask q) := x] ! ((unat (sq_tail q) + i) mod sq_cap q) =
         sq_buffer q ! ((unat (sq_tail q) + i) mod sq_cap q)"
proof -
  have "(unat (sq_tail q) + i) mod sq_cap q \<noteq> unat (sq_head q AND sq_mask q)"
    using i room by (simp add: sq_index [OF inv] sq_head_index [OF inv] ring_index_neq)
  then show ?thesis by simp
qed

lemma sq_write_contents:
  assumes "sq_inv q" "unat (sq_head q - sq_tail q) < sq_cap q"
  shows "sq_contents (sq_write x q) = sq_contents q"
  using sq_write_slot [OF assms] by (simp add: sq_contents_def) (simp add: sq_write_def)

lemma sq_publish_contents:
  assumes inv: "sq_inv q" and room: "unat (sq_head q - sq_tail q) < sq_cap q"
  shows "sq_contents (q\<lparr>sq_head := sq_head q + 1\<rparr>) =
         sq_contents q @ [sq_buffer q ! unat (sq_head q AND sq_mask q)]"
proof -
  from inv have "sq_cap q \<le> 2 ^ 63" by (rule sq_capE)
  with room have "unat (sq_head q + 1 - sq_tail q) = Suc (unat (sq_head q - sq_tail q))"
    by (intro unat_diff_Suc) simp
  then show ?thesis
    by (simp add: sq_contents_def sq_index [OF inv] sq_head_index [OF inv])
qed

lemma sq_take_contents:
  assumes inv: "sq_inv q" and ne: "sq_head q \<noteq> sq_tail q"
  shows "sq_contents q = sq_buffer q ! unat (sq_tail q AND sq_mask q) #
                         sq_contents (q\<lparr>sq_tail := sq_tail q + 1\<rparr>)"
proof -
  obtain k where k: "k \<le> 63" "sq_cap q = 2 ^ k" using inv by (rule sq_capE)
  have n: "unat (sq_head q - sq_tail q) = Suc (unat (sq_head q - (sq_tail q + 1)))"
    using unat_diff_pred [OF ne] by simp
  have shift: "(unat (sq_tail q + 1) + i) mod sq_cap q = (unat (sq_tail q) + Suc i) mod sq_cap q" for i
    using unat_add_mod_pow2 [of k "sq_tail q" i] k by simp
  have upt: "[0 ..< Suc m] = 0 # map Suc [0 ..< m]" for m
    by (simp add: map_Suc_upt upt_conv_Cons del: upt_Suc)
  show ?thesis
    by (simp add: sq_contents_def n upt sq_index [OF inv] shift comp_def del: upt_Suc)
qed

section \<open>The operations refine the bounded queue\<close>

lemma sq_inv_new:
  assumes "unat n \<le> 2 ^ 63"
  shows "sq_inv (sq_new z n) \<and> sq_contents (sq_new z n) = [] \<and> unat n \<le> sq_cap (sq_new z n)"
  using round_up_pow2_spec [OF assms]
  by (auto simp: sq_inv_def sq_new_def sq_cap_def sq_contents_def Let_def)

lemma sq_inv_advance_head:
  assumes inv: "sq_inv q" and room: "unat (sq_head q - sq_cached_tail q) < sq_cap q"
  shows "sq_inv ((sq_write x q)\<lparr>sq_head := sq_head q + 1\<rparr>)"
proof -
  have c: "sq_cap q \<le> 2 ^ 63" using inv by (rule sq_capE)
  have n: "unat (sq_head q - sq_tail q) \<le> unat (sq_head q - sq_cached_tail q)"
    using inv by (simp add: sq_inv_def)
  have "unat (sq_head q + 1 - sq_tail q) = Suc (unat (sq_head q - sq_tail q))"
       "unat (sq_head q + 1 - sq_cached_tail q) = Suc (unat (sq_head q - sq_cached_tail q))"
    using room n c by (simp_all add: unat_diff_Suc)
  then show ?thesis
    using inv room by (simp add: sq_inv_def) (simp add: sq_write_def)
qed

lemma sq_inv_reload_tail: "sq_inv q \<Longrightarrow> sq_inv (q\<lparr>sq_cached_tail := sq_tail q\<rparr>)"
  by (auto simp: sq_inv_def)

lemma sq_inv_reload_head: "sq_inv q \<Longrightarrow> sq_inv (q\<lparr>sq_cached_head := sq_head q\<rparr>)"
  by (auto simp: sq_inv_def)

lemma sq_inv_advance_tail:
  assumes inv: "sq_inv q" and ne: "sq_tail q \<noteq> sq_cached_head q"
  shows "sq_inv (q\<lparr>sq_tail := sq_tail q + 1\<rparr>)"
proof -
  have "0 < unat (sq_cached_head q - sq_tail q)" using ne by (auto simp: unat_gt_0)
  then have "0 < unat (sq_head q - sq_tail q)" using inv by (simp add: sq_inv_def)
  then have hne: "sq_head q \<noteq> sq_tail q" by auto
  show ?thesis
    using inv unat_diff_pred [OF hne] unat_diff_pred [of "sq_cached_head q" "sq_tail q"] ne
    by (auto simp: sq_inv_def)
qed

lemma sq_nonempty: "sq_inv q \<Longrightarrow> sq_tail q \<noteq> sq_cached_head q \<Longrightarrow> sq_head q \<noteq> sq_tail q"
  by (auto simp: sq_inv_def unat_eq_zero)

lemmas sq_inv_rules [inv_intros] =
  sq_inv_advance_head sq_inv_reload_tail sq_inv_reload_head sq_inv_advance_tail

lemma sq_publish:
  assumes inv: "sq_inv q" and room: "unat (sq_head q - sq_cached_tail q) < sq_cap q"
  shows "sq_contents ((sq_write x q)\<lparr>sq_head := sq_head q + 1\<rparr>) = sq_contents q @ [x]"
proof -
  have r: "unat (sq_head q - sq_tail q) < sq_cap q" using inv room by (simp add: sq_inv_def)
  have same: "sq_head (sq_write x q) = sq_head q" "sq_mask (sq_write x q) = sq_mask q"
    "sq_tail (sq_write x q) = sq_tail q" by (simp_all add: sq_write_def)
  have wi: "sq_inv (sq_write x q)" using inv by (simp add: sq_inv_def) (simp add: sq_write_def)
  have "length (sq_buffer q) = sq_cap q" using inv by (simp add: sq_inv_def)
  then have "unat (sq_head q AND sq_mask q) < length (sq_buffer q)"
    using r by (simp add: sq_index [OF inv])
  then have "sq_buffer (sq_write x q) ! unat (sq_head q AND sq_mask q) = x"
    by (simp add: sq_write_def)
  with sq_publish_contents [OF wi] sq_write_contents [OF inv r, of x] r show ?thesis
    by (simp add: same)
qed

lemma sq_push_room:
  assumes inv: "sq_inv q" and room: "length (sq_contents q) < sq_cap q"
  shows "\<exists>q'. sq_push x q = (True, q') \<and> sq_inv q' \<and> sq_contents q' = sq_contents q @ [x] \<and>
              sq_cap q' = sq_cap q"
proof (cases "sq_capacity q \<le> sq_head q - sq_cached_tail q")
  case True
  let ?q = "q\<lparr>sq_cached_tail := sq_tail q\<rparr>"
  have "\<not> sq_capacity q \<le> sq_head q - sq_tail q"
    using room by (simp add: word_le_nat_alt sq_cap_def)
  then have "sq_push x q = (True, (sq_write x ?q)\<lparr>sq_head := sq_head q + 1\<rparr>)"
    using True by (simp add: sq_push_def Let_def)
  moreover have "sq_contents ?q = sq_contents q" by (rule sq_contents_cong) simp_all
  moreover have "unat (sq_head ?q - sq_cached_tail ?q) < sq_cap ?q" using room by simp
  ultimately show ?thesis
    using sq_inv_advance_head [OF sq_inv_reload_tail [OF inv], of x]
      sq_publish [OF sq_inv_reload_tail [OF inv], of x] by simp
next
  case False
  then have "sq_push x q = (True, (sq_write x q)\<lparr>sq_head := sq_head q + 1\<rparr>)"
    by (simp add: sq_push_def Let_def)
  moreover have "unat (sq_head q - sq_cached_tail q) < sq_cap q"
    using False by (simp add: word_le_nat_alt sq_cap_def)
  ultimately show ?thesis
    using sq_inv_advance_head [OF inv, of x] sq_publish [OF inv, of x] by simp
qed

lemma sq_push_full:
  assumes inv: "sq_inv q" and full: "length (sq_contents q) = sq_cap q"
  shows "\<exists>q'. sq_push x q = (False, q') \<and> sq_inv q' \<and> sq_contents q' = sq_contents q \<and>
              sq_cap q' = sq_cap q"
proof -
  have "sq_capacity q \<le> sq_head q - sq_tail q"
       "sq_capacity q \<le> sq_head q - sq_cached_tail q"
    using full inv by (simp_all add: word_le_nat_alt sq_cap_def sq_inv_def)
  then have "sq_push x q = (False, q\<lparr>sq_cached_tail := sq_tail q\<rparr>)"
    by (simp add: sq_push_def Let_def)
  with sq_inv_reload_tail [OF inv] show ?thesis
    by (simp add: sq_contents_def)
qed

lemma sq_pop_nil:
  assumes inv: "sq_inv q" and nil: "sq_contents q = []"
  shows "\<exists>q'. sq_pop q = (None, q') \<and> sq_inv q' \<and> sq_contents q' = [] \<and> sq_cap q' = sq_cap q"
proof -
  have "length (sq_contents q) = 0" using nil by simp
  then have ht: "sq_head q = sq_tail q" by (simp add: unat_eq_zero)
  then have "sq_tail q = sq_cached_head q" using sq_nonempty [OF inv] by auto
  then have "sq_pop q = (None, q\<lparr>sq_cached_head := sq_head q\<rparr>)"
    using ht by (simp add: sq_pop_def Let_def)
  with sq_inv_reload_head [OF inv] nil show ?thesis by (simp add: sq_contents_def)
qed

lemma sq_pop_cons:
  assumes inv: "sq_inv q" and cons: "sq_contents q = x # xs"
  shows "\<exists>q'. sq_pop q = (Some x, q') \<and> sq_inv q' \<and> sq_contents q' = xs \<and> sq_cap q' = sq_cap q"
proof -
  have ne: "sq_head q \<noteq> sq_tail q"
  proof
    assume "sq_head q = sq_tail q"
    then have "length (sq_contents q) = 0" by simp
    with cons show False by simp
  qed
  note tk = sq_take_contents [OF inv ne]
  show ?thesis
  proof (cases "sq_tail q = sq_cached_head q")
    case True
    let ?q = "q\<lparr>sq_cached_head := sq_head q\<rparr>"
    have i: "sq_inv ?q" by (rule sq_inv_reload_head [OF inv])
    have "sq_pop q = (Some x, ?q\<lparr>sq_tail := sq_tail q + 1\<rparr>)"
      using True ne cons tk by (simp add: sq_pop_def Let_def)
    moreover have "sq_inv (?q\<lparr>sq_tail := sq_tail ?q + 1\<rparr>)"
      using ne by (intro sq_inv_advance_tail [OF i]) simp
    moreover have "sq_contents (?q\<lparr>sq_tail := sq_tail q + 1\<rparr>) = xs"
      using cons tk by (simp add: sq_contents_def)
    ultimately show ?thesis by simp
  next
    case False
    have "sq_pop q = (Some x, q\<lparr>sq_tail := sq_tail q + 1\<rparr>)"
      using False cons tk by (simp add: sq_pop_def Let_def)
    with sq_inv_advance_tail [OF inv False] cons tk show ?thesis by simp
  qed
qed

lemma sq_within_cap: "sq_inv q \<Longrightarrow> length (sq_contents q) \<le> sq_cap q"
  by (simp add: sq_inv_def)

interpretation sq: bounded_queue sq_push sq_pop sq_contents sq_cap sq_inv
  by unfold_locales (fact sq_push_room sq_push_full sq_pop_nil sq_pop_cons sq_within_cap)+

text \<open>
  A queue built for \<open>n\<close> elements has a power of two as its capacity, the least
  one that is not below \<open>n\<close>; a batch that fits is accepted whole and comes out in the
  order in which it went in.
\<close>

theorem spsc_fifo:
  assumes n: "unat n \<le> 2 ^ 63" and fits: "length xs \<le> unat n"
    and pushed: "push_all sq_push xs (sq_new z n) = (bs, q)"
  shows "(\<exists>k\<le>63. sq_capacity (sq_new z n) = 2 ^ k \<and> unat n \<le> 2 ^ k \<and>
             (\<forall>m. unat n \<le> 2 ^ m \<longrightarrow> k \<le> m)) \<and>
         bs = replicate (length xs) True \<and> fst (drain sq_pop (length xs) q) = xs"
proof -
  have new: "sq_inv (sq_new z n)" "sq_contents (sq_new z n) = []" "unat n \<le> sq_cap (sq_new z n)"
    using sq_inv_new [OF n, of z] by auto
  have cap: "\<exists>k\<le>63. sq_capacity (sq_new z n) = 2 ^ k \<and> unat n \<le> 2 ^ k \<and>
             (\<forall>m. unat n \<le> 2 ^ m \<longrightarrow> k \<le> m)"
    using round_up_pow2_spec [OF n] by (auto simp: sq_new_def Let_def)
  have "bs = replicate (length xs) True \<and>
        fst (drain sq_pop (length (sq_contents (sq_new z n)) + length xs) q) =
          sq_contents (sq_new z n) @ xs"
    using new fits by (intro sq.fifo [OF _ _ pushed]) (simp_all only: list.size)
  with cap new(2) show ?thesis by (simp only: list.size append.simps add_0)
qed

theorem spsc_fifo_witness:
  "fst (drain sq_pop 3 (snd (push_all sq_push [7, 8, 9 :: nat] (sq_new 0 3)))) = [7, 8, 9]"
proof -
  obtain bs q where p: "push_all sq_push [7, 8, 9 :: nat] (sq_new 0 3) = (bs, q)" by force
  have "fst (drain sq_pop (length [7, 8, 9 :: nat]) q) = [7, 8, 9]"
    using spsc_fifo [OF _ _ p] by simp
  then show ?thesis unfolding p snd_conv by (simp only: list.size numeral_3_eq_3 One_nat_def add_Suc_right add_0_right)
qed

section \<open>Producer and consumer interleaved\<close>

text \<open>
  Each rule is one access to shared memory by one of the two threads, under sequential
  consistency; \<open>P_Ready\<close> and \<open>C_Ready\<close> are the points after the room and data
  checks. \<open>ss_pushed\<close> and \<open>ss_popped\<close> record what was published and taken.
\<close>

datatype 'a producer = P_Idle | P_Ready 'a | P_Written 'a

datatype 'a consumer = C_Idle | C_Ready | C_Read 'a

record 'a spsc_sys =
  ss_queue :: "'a spsc"
  ss_producer :: "'a producer"
  ss_consumer :: "'a consumer"
  ss_pushed :: "'a list"
  ss_popped :: "'a list"

definition spsc_start :: "'a \<Rightarrow> u64 \<Rightarrow> 'a spsc_sys" where
  "spsc_start z n =
     \<lparr>ss_queue = sq_new z n, ss_producer = P_Idle, ss_consumer = C_Idle,
      ss_pushed = [], ss_popped = []\<rparr>"

inductive spsc_step :: "'a spsc_sys \<Rightarrow> 'a spsc_sys \<Rightarrow> bool" where
  push_fast: "ss_producer s = P_Idle \<Longrightarrow> q = ss_queue s \<Longrightarrow>
     \<not> sq_capacity q \<le> sq_head q - sq_cached_tail q \<Longrightarrow>
     spsc_step s (s\<lparr>ss_producer := P_Ready x\<rparr>)"
| push_reload: "ss_producer s = P_Idle \<Longrightarrow> q = ss_queue s \<Longrightarrow>
     sq_capacity q \<le> sq_head q - sq_cached_tail q \<Longrightarrow>
     spsc_step s (s\<lparr>ss_queue := q\<lparr>sq_cached_tail := sq_tail q\<rparr>,
       ss_producer := (if sq_capacity q \<le> sq_head q - sq_tail q then P_Idle else P_Ready x)\<rparr>)"
| push_write: "ss_producer s = P_Ready x \<Longrightarrow>
     spsc_step s (s\<lparr>ss_queue := sq_write x (ss_queue s), ss_producer := P_Written x\<rparr>)"
| push_publish: "ss_producer s = P_Written x \<Longrightarrow> q = ss_queue s \<Longrightarrow>
     spsc_step s (s\<lparr>ss_queue := q\<lparr>sq_head := sq_head q + 1\<rparr>, ss_producer := P_Idle,
       ss_pushed := ss_pushed s @ [x]\<rparr>)"
| pop_fast: "ss_consumer s = C_Idle \<Longrightarrow> q = ss_queue s \<Longrightarrow> sq_tail q \<noteq> sq_cached_head q \<Longrightarrow>
     spsc_step s (s\<lparr>ss_consumer := C_Ready\<rparr>)"
| pop_reload: "ss_consumer s = C_Idle \<Longrightarrow> q = ss_queue s \<Longrightarrow> sq_tail q = sq_cached_head q \<Longrightarrow>
     spsc_step s (s\<lparr>ss_queue := q\<lparr>sq_cached_head := sq_head q\<rparr>,
       ss_consumer := (if sq_tail q = sq_head q then C_Idle else C_Ready)\<rparr>)"
| pop_read: "ss_consumer s = C_Ready \<Longrightarrow> q = ss_queue s \<Longrightarrow>
     spsc_step s (s\<lparr>ss_consumer := C_Read (sq_buffer q ! unat (sq_tail q AND sq_mask q))\<rparr>)"
| pop_publish: "ss_consumer s = C_Read v \<Longrightarrow> q = ss_queue s \<Longrightarrow>
     spsc_step s (s\<lparr>ss_queue := q\<lparr>sq_tail := sq_tail q + 1\<rparr>, ss_consumer := C_Idle,
       ss_popped := ss_popped s @ [v]\<rparr>)"

inductive spsc_reachable :: "'a \<Rightarrow> u64 \<Rightarrow> 'a spsc_sys \<Rightarrow> bool" for z n where
  start: "spsc_reachable z n (spsc_start z n)"
| step: "spsc_reachable z n s \<Longrightarrow> spsc_step s t \<Longrightarrow> spsc_reachable z n t"

definition spsc_sys_inv :: "'a spsc_sys \<Rightarrow> bool" where
  "spsc_sys_inv s \<longleftrightarrow>
     (let q = ss_queue s in
      sq_inv q \<and> ss_pushed s = ss_popped s @ sq_contents q \<and>
      (ss_producer s \<noteq> P_Idle \<longrightarrow> unat (sq_head q - sq_cached_tail q) < sq_cap q) \<and>
      (\<forall>x. ss_producer s = P_Written x \<longrightarrow> sq_buffer q ! unat (sq_head q AND sq_mask q) = x) \<and>
      (ss_consumer s \<noteq> C_Idle \<longrightarrow> sq_tail q \<noteq> sq_cached_head q) \<and>
      (\<forall>v. ss_consumer s = C_Read v \<longrightarrow> sq_buffer q ! unat (sq_tail q AND sq_mask q) = v))"

lemma spsc_sys_inv_step:
  assumes "spsc_step s t" and "spsc_sys_inv s"
  shows "spsc_sys_inv t"
  using assms
proof (induction rule: spsc_step.induct)
  case (push_fast s q x)
  then show ?case by (auto simp: spsc_sys_inv_def Let_def word_le_nat_alt sq_cap_def)
next
  case (push_reload s q x)
  have "sq_contents (q\<lparr>sq_cached_tail := sq_tail q\<rparr>) = sq_contents q" by (simp add: sq_contents_def)
  with push_reload sq_inv_reload_tail [of q] show ?case
    by (auto simp: spsc_sys_inv_def Let_def word_le_nat_alt sq_cap_def)
next
  case (push_write s x)
  let ?q = "ss_queue s"
  have inv: "sq_inv ?q" and room: "unat (sq_head ?q - sq_cached_tail ?q) < sq_cap ?q"
    using push_write by (auto simp: spsc_sys_inv_def Let_def)
  then have r: "unat (sq_head ?q - sq_tail ?q) < sq_cap ?q"
    by (simp add: sq_inv_def)
  have len: "unat (sq_head ?q AND sq_mask ?q) < length (sq_buffer ?q)"
    using inv r sq_index [OF inv] by (simp add: sq_inv_def)
  have keep: "sq_buffer (sq_write x ?q) ! unat (sq_tail ?q AND sq_mask ?q) =
              sq_buffer ?q ! unat (sq_tail ?q AND sq_mask ?q)"
    if "sq_tail ?q \<noteq> sq_cached_head ?q"
  proof -
    have "0 < unat (sq_head ?q - sq_tail ?q)"
      using sq_nonempty [OF inv that] by (auto simp: unat_gt_0)
    from sq_write_slot [OF inv r this, of x] show ?thesis
      by (simp add: sq_index [OF inv]) (simp add: sq_write_def sq_index [OF inv])
  qed
  have wi: "sq_inv (sq_write x ?q)" using inv by (simp add: sq_inv_def) (simp add: sq_write_def)
  show ?case
    using push_write inv room len keep wi sq_write_contents [OF inv r, of x]
    by (auto simp: spsc_sys_inv_def Let_def sq_write_def sq_cap_def)
next
  case (push_publish s x q)
  have inv: "sq_inv q" and room: "unat (sq_head q - sq_cached_tail q) < sq_cap q"
    and x: "sq_buffer q ! unat (sq_head q AND sq_mask q) = x"
    using push_publish by (auto simp: spsc_sys_inv_def Let_def)
  then have r: "unat (sq_head q - sq_tail q) < sq_cap q" by (simp add: sq_inv_def)
  have "sq_write x q = q" using x by (simp add: sq_write_def flip: x)
  with sq_inv_advance_head [OF inv room, of x] have "sq_inv (q\<lparr>sq_head := sq_head q + 1\<rparr>)" by simp
  with push_publish sq_publish_contents [OF inv r] x show ?case
    by (auto simp: spsc_sys_inv_def Let_def)
next
  case (pop_fast s q)
  then show ?case by (auto simp: spsc_sys_inv_def Let_def)
next
  case (pop_reload s q)
  have "sq_contents (q\<lparr>sq_cached_head := sq_head q\<rparr>) = sq_contents q" by (simp add: sq_contents_def)
  with pop_reload sq_inv_reload_head [of q] show ?case
    by (auto simp: spsc_sys_inv_def Let_def)
next
  case (pop_read s q)
  then show ?case by (auto simp: spsc_sys_inv_def Let_def)
next
  case (pop_publish s v q)
  have inv: "sq_inv q" and ne: "sq_tail q \<noteq> sq_cached_head q"
    and v: "sq_buffer q ! unat (sq_tail q AND sq_mask q) = v"
    using pop_publish by (auto simp: spsc_sys_inv_def Let_def)
  show ?case
    using pop_publish sq_inv_advance_tail [OF inv ne] sq_take_contents [OF inv sq_nonempty [OF inv ne]] v
    by (auto simp: spsc_sys_inv_def Let_def)
qed



end
