(* ===== verification/RTES_Pool.thy ===== *)
theory RTES_Pool
  imports RTES_Types
begin

text \<open>
  The order memory pool of \<^verbatim>\<open>include/rtes/memory_pool.hpp\<close>, as one thread runs it
  in a release build (\<open>NDEBUG\<close>: assertions and the ownership array are compiled out).
  The free list is the stack of slot indices that \<open>next_\<close> links from the tagged head.
  A pointer into the pool is the index of its slot; the null pointer is \<open>None\<close>.
\<close>

section \<open>The tagged head\<close>

definition POOL_EMPTY :: u32 where
  "POOL_EMPTY = 4294967295"

definition pack :: "u32 \<Rightarrow> u32 \<Rightarrow> u64" where
  "pack index gen = push_bit 32 (ucast gen) OR ucast index"

definition unpack :: "u64 \<Rightarrow> u32 \<times> u32" where
  "unpack packed = (ucast packed, ucast (drop_bit 32 packed))"

definition aligned_bytes :: "u64 \<Rightarrow> u64" where
  "aligned_bytes bytes = (bytes + 64 - 1) AND NOT (64 - 1)"

section \<open>State and operations\<close>

record 'a mpool =
  mp_capacity :: u64
  mp_pool :: "'a list"
  mp_next :: "u32 list"
  mp_head :: u64
  mp_allocated :: u64
  mp_high_water :: u64

datatype pool_error = Invalid_capacity_zero | Invalid_capacity_large

definition validate_capacity :: "u64 \<Rightarrow> pool_error + u64" where
  "validate_capacity cap =
     (if cap = 0 then Inl Invalid_capacity_zero
      else if ucast POOL_EMPTY \<le> cap then Inl Invalid_capacity_large
      else Inr cap)"

definition mp_new :: "'a \<Rightarrow> u64 \<Rightarrow> pool_error + 'a mpool" where
  "mp_new dflt capacity =
     (case validate_capacity capacity of
        Inl e \<Rightarrow> Inl e
      | Inr cap \<Rightarrow> Inr
          \<lparr>mp_capacity = cap,
           mp_pool = replicate (unat cap) dflt,
           mp_next = map (\<lambda>i. of_nat (i + 1)) [0 ..< unat cap - 1] @ [POOL_EMPTY],
           mp_head = pack 0 0,
           mp_allocated = 0,
           mp_high_water = 0\<rparr>)"

definition update_stats_allocate :: "'a mpool \<Rightarrow> 'a mpool" where
  "update_stats_allocate P =
     (let current = mp_allocated P + 1
      in P\<lparr>mp_allocated := current,
           mp_high_water := (if mp_high_water P < current then current else mp_high_water P)\<rparr>)"

definition update_stats_deallocate :: "'a mpool \<Rightarrow> 'a mpool" where
  "update_stats_deallocate P = P\<lparr>mp_allocated := mp_allocated P - 1\<rparr>"

definition mp_allocate :: "'a mpool \<Rightarrow> nat option \<times> 'a mpool" where
  "mp_allocate P =
     (let (index, gen) = unpack (mp_head P) in
      if index = POOL_EMPTY then (None, P)
      else
        let next_index = mp_next P ! unat index;
            new_head = pack next_index (gen + 1)
        in (Some (unat index), update_stats_allocate (P\<lparr>mp_head := new_head\<rparr>)))"

definition mp_deallocate :: "nat option \<Rightarrow> 'a mpool \<Rightarrow> 'a mpool" where
  "mp_deallocate ptr P =
     (case ptr of
        None \<Rightarrow> P
      | Some index \<Rightarrow>
          if unat (mp_capacity P) \<le> index then P
          else
            let (head_index, gen) = unpack (mp_head P);
                new_head = pack (of_nat index) (gen + 1)
            in update_stats_deallocate
                 (P\<lparr>mp_next := (mp_next P)[index := head_index], mp_head := new_head\<rparr>))"

record pool_stats =
  ps_capacity :: u64
  ps_allocated :: u64
  ps_available :: u64
  ps_high_water_mark :: u64

definition mp_get_stats :: "'a mpool \<Rightarrow> pool_stats" where
  "mp_get_stats P =
     \<lparr>ps_capacity = mp_capacity P, ps_allocated = mp_allocated P,
      ps_available = mp_capacity P - mp_allocated P,
      ps_high_water_mark = mp_high_water P\<rparr>"

definition mp_available :: "'a mpool \<Rightarrow> u64" where
  "mp_available P = mp_capacity P - mp_allocated P"

definition mp_owns :: "nat \<Rightarrow> 'a mpool \<Rightarrow> bool" where
  "mp_owns ptr P = (ptr < unat (mp_capacity P))"

section \<open>The free list\<close>

text \<open>
  \<open>chain nx i xs\<close>: following the links \<open>nx\<close> from index \<open>i\<close> visits \<open>xs\<close> and
  ends at the empty mark. \<open>walk\<close> computes that list.
\<close>

fun chain :: "u32 list \<Rightarrow> u32 \<Rightarrow> nat list \<Rightarrow> bool" where
  "chain nx i [] = (i = POOL_EMPTY)"
| "chain nx i (x # xs) = (i = of_nat x \<and> x < length nx \<and> chain nx (nx ! x) xs)"

fun walk :: "nat \<Rightarrow> u32 list \<Rightarrow> u32 \<Rightarrow> nat list" where
  "walk 0 nx i = []"
| "walk (Suc n) nx i =
     (if i = POOL_EMPTY \<or> length nx \<le> unat i then []
      else unat i # walk n nx (nx ! unat i))"

definition mp_head_index :: "'a mpool \<Rightarrow> u32" where
  "mp_head_index P = fst (unpack (mp_head P))"

definition mp_free :: "'a mpool \<Rightarrow> nat list" where
  "mp_free P = walk (length (mp_next P)) (mp_next P) (mp_head_index P)"

definition mp_slots :: "'a mpool \<Rightarrow> nat" where
  "mp_slots P = unat (mp_capacity P)"

definition mp_inv :: "'a mpool \<Rightarrow> bool" where
  "mp_inv P \<longleftrightarrow>
     length (mp_pool P) = mp_slots P \<and> length (mp_next P) = mp_slots P \<and>
     0 < mp_slots P \<and> mp_slots P < 2 ^ 32 - 1 \<and>
     chain (mp_next P) (mp_head_index P) (mp_free P) \<and> distinct (mp_free P) \<and>
     unat (mp_allocated P) + length (mp_free P) = mp_slots P \<and>
     mp_allocated P \<le> mp_high_water P \<and> unat (mp_high_water P) \<le> mp_slots P"

section \<open>Facts on the free list\<close>

lemma unpack_pack [simp]: "unpack (pack i g) = (i, g)"
proof -
  have "ucast (push_bit 32 (ucast g :: u64) OR ucast i) = i"
    by (rule bit_word_eqI) (auto simp: bit_simps)
  moreover have "ucast (drop_bit 32 (push_bit 32 (ucast g :: u64) OR ucast i)) = g"
    by (rule bit_word_eqI) (auto simp: bit_simps dest: bit_imp_le_length)
  ultimately show ?thesis
    by (simp only: unpack_def pack_def prod.inject)
qed
lemma pack_unpack: "pack (fst (unpack w)) (snd (unpack w)) = w"
  unfolding unpack_def pack_def
  by (rule bit_word_eqI) (auto simp: bit_simps)

lemma chain_walk:
  "chain nx i xs \<Longrightarrow> length nx < 2 ^ 32 - 1 \<Longrightarrow> length xs \<le> n \<Longrightarrow> walk n nx i = xs"
proof (induction xs arbitrary: i n)
  case Nil
  then show ?case by (cases n) auto
next
  case (Cons x xs)
  then obtain m where n: "n = Suc m" by (cases n) auto
  have ux: "unat (of_nat x :: u32) = x"
    using Cons.prems by (simp add: unat_of_nat)
  have ne: "(of_nat x :: u32) \<noteq> POOL_EMPTY"
  proof
    assume "(of_nat x :: u32) = POOL_EMPTY"
    then have "unat (of_nat x :: u32) = unat POOL_EMPTY" by (rule arg_cong)
    with ux Cons.prems show False by (simp add: POOL_EMPTY_def)
  qed
  have "walk m nx (nx ! x) = xs"
    using Cons n by auto
  with Cons.prems ne ux n show ?case by simp
qed

lemma chain_update [simp]: "p \<notin> set xs \<Longrightarrow> chain (nx[p := v]) i xs \<longleftrightarrow> chain nx i xs"
  by (induction xs arbitrary: i) auto

lemma chain_bound: "chain nx i xs \<Longrightarrow> set xs \<subseteq> {..<length nx}"
  by (induction xs arbitrary: i) auto

lemma distinct_bound_length: "distinct xs \<Longrightarrow> set xs \<subseteq> {..<n} \<Longrightarrow> length xs \<le> (n::nat)"
  by (metis card_lessThan card_mono distinct_card finite_lessThan)

lemma mp_free_eqI:
  assumes "chain (mp_next P) (mp_head_index P) xs" "distinct xs" "length (mp_next P) < 2 ^ 32 - 1"
  shows "mp_free P = xs"
  using assms chain_bound [OF assms(1)] by (simp add: mp_free_def chain_walk distinct_bound_length)

lemma mp_inv_free_bound: "mp_inv P \<Longrightarrow> set (mp_free P) \<subseteq> {..<mp_slots P}"
  using chain_bound by (fastforce simp: mp_inv_def)

lemma chain_upt:
  assumes "i < n" "n < 2 ^ 32 - 1"
  shows "chain (map (\<lambda>i. of_nat (i + 1)) [0 ..< n - 1] @ [POOL_EMPTY]) (of_nat i) [i ..< n]"
  using assms(1)
proof (induction "n - i" arbitrary: i)
  case 0
  then show ?case by simp
next
  case (Suc k)
  then have split: "[i ..< n] = i # [Suc i ..< n]" by (simp add: upt_conv_Cons)
  show ?case
  proof (cases "Suc i < n")
    case True
    then have "k = n - Suc i" using Suc by simp
    moreover have "i < n - 1" using True by simp
    ultimately show ?thesis
      using Suc.hyps(1) [of "Suc i"] True by (simp add: split nth_append)
  next
    case False
    with Suc.prems have "n = Suc i" by simp
    then show ?thesis by (simp add: split nth_append)
  qed
qed

lemma mp_new_inv:
  assumes "mp_new d cap = Inr P"
  shows "mp_inv P \<and> mp_free P = [0 ..< unat cap] \<and> mp_slots P = unat cap \<and>
         mp_pool P = replicate (unat cap) d"
proof -
  from assms have cap: "cap \<noteq> 0" "cap < ucast POOL_EMPTY"
    and P: "P = \<lparr>mp_capacity = cap, mp_pool = replicate (unat cap) d,
           mp_next = map (\<lambda>i. of_nat (i + 1)) [0 ..< unat cap - 1] @ [POOL_EMPTY],
           mp_head = pack 0 0, mp_allocated = 0, mp_high_water = 0\<rparr>"
    by (auto simp: mp_new_def validate_capacity_def split: sum.splits if_splits)
  have pos: "0 < unat cap" using cap by (simp add: unat_gt_0)
  have lt: "unat cap < 2 ^ 32 - 1"
    using cap by (simp add: word_less_nat_alt POOL_EMPTY_def)
  have len: "length (mp_next P) = unat cap" using pos by (simp add: P)
  have ch: "chain (mp_next P) (mp_head_index P) [0 ..< unat cap]"
    using chain_upt [of 0 "unat cap"] pos lt by (simp add: P mp_head_index_def)
  then have "mp_free P = [0 ..< unat cap]"
    using lt len by (intro mp_free_eqI) auto
  then show ?thesis
    using ch len pos lt by (simp add: mp_inv_def mp_slots_def P)
qed

lemma unat_aligned_bytes:
  assumes "unat b + 63 < 2 ^ 64"
  shows "unat (aligned_bytes b) = (unat b + 63) div 64 * 64"
proof -
  have m: "NOT (64 - 1 :: u64) = NOT (mask 6)" by (simp add: mask_eq_exp_minus_1)
  have "b + 64 - 1 = b + 63" by simp
  moreover have "x AND NOT (mask 6) = push_bit 6 (drop_bit 6 x)" for x :: u64
    by (rule bit_word_eqI) (auto simp: bit_simps)
  ultimately have eq: "aligned_bytes b = push_bit 6 (drop_bit 6 (b + 63))"
    unfolding aligned_bytes_def m by (simp add: add.commute)
  have s: "unat (b + 63) = unat b + 63"
    using assms by (simp add: unat_word_ariths)
  have "unat (drop_bit 6 (b + 63)) = (unat b + 63) div 64"
    by (simp add: drop_bit_eq_div unat_div s)
  then have "unat (push_bit 6 (drop_bit 6 (b + 63)) :: u64) = ((unat b + 63) div 64 * 64) mod 2 ^ 64"
    by (simp add: push_bit_eq_mult unat_word_ariths(2))
  moreover have "(unat b + 63) div 64 * 64 < 2 ^ 64"
    using assms by (meson div_times_less_eq_dividend le_less_trans)
  ultimately show ?thesis by (simp add: eq)
qed

lemma mp_allocate_none: "mp_inv P \<Longrightarrow> mp_free P = [] \<Longrightarrow> mp_allocate P = (None, P)"
  by (auto simp: mp_inv_def mp_allocate_def mp_head_index_def split: prod.splits)

lemma mp_head_index_Cons:
  assumes "mp_inv P" "mp_free P = x # xs"
  shows "mp_head_index P = of_nat x" "mp_head_index P \<noteq> POOL_EMPTY" "unat (mp_head_index P) = x"
    "x < mp_slots P"
proof -
  show h: "mp_head_index P = of_nat x" and b: "x < mp_slots P"
    using assms by (auto simp: mp_inv_def)
  have "mp_slots P < 2 ^ 32 - 1" using assms by (simp add: mp_inv_def)
  then show u: "unat (mp_head_index P) = x" using h b by (simp add: unat_of_nat)
  then show "mp_head_index P \<noteq> POOL_EMPTY"
    using b \<open>mp_slots P < 2 ^ 32 - 1\<close> by (auto simp: POOL_EMPTY_def)
qed

lemma mp_allocate_some:
  assumes inv: "mp_inv P" and fr: "mp_free P = x # xs"
  shows "\<exists>P'. mp_allocate P = (Some x, P') \<and> mp_inv P' \<and> mp_free P' = xs \<and>
              mp_slots P' = mp_slots P \<and> mp_pool P' = mp_pool P"
proof -
  note hd = mp_head_index_Cons [OF inv fr]
  obtain g where un: "unpack (mp_head P) = (mp_head_index P, g)"
    by (metis mp_head_index_def prod.collapse)
  define P' where "P' = update_stats_allocate (P\<lparr>mp_head := pack (mp_next P ! x) (g + 1)\<rparr>)"
  have al: "mp_allocate P = (Some x, P')"
    using hd by (simp add: mp_allocate_def un P'_def)
  have same: "mp_pool P' = mp_pool P" "mp_next P' = mp_next P" "mp_capacity P' = mp_capacity P"
    "mp_head_index P' = mp_next P ! x" "mp_slots P' = mp_slots P"
    "mp_allocated P' = mp_allocated P + 1"
    "mp_high_water P' = max (mp_high_water P) (mp_allocated P + 1)"
    by (auto simp: P'_def update_stats_allocate_def Let_def mp_head_index_def mp_slots_def max_def)
  have ch: "chain (mp_next P') (mp_head_index P') xs"
    using inv fr by (simp add: mp_inv_def same)
  have free: "mp_free P' = xs"
    using ch inv fr by (intro mp_free_eqI) (auto simp: mp_inv_def same)
  have cnt: "Suc (unat (mp_allocated P)) + length xs = mp_slots P"
    using inv fr by (simp add: mp_inv_def)
  have "mp_slots P < 2 ^ 64" using inv by (simp add: mp_inv_def)
  then have ua: "unat (mp_allocated P + 1) = Suc (unat (mp_allocated P))"
    using cnt by (intro unat_Suc_lt [of _ "mp_slots P"]) auto
  have "mp_inv P'"
    using inv fr ch cnt ua
    by (auto simp: mp_inv_def same free max_def)
  with al free same show ?thesis by blast
qed

lemma mp_deallocate_ok:
  assumes inv: "mp_inv P" and p: "p < mp_slots P" "p \<notin> set (mp_free P)"
  shows "mp_inv (mp_deallocate (Some p) P) \<and> mp_free (mp_deallocate (Some p) P) = p # mp_free P \<and>
         mp_slots (mp_deallocate (Some p) P) = mp_slots P \<and>
         mp_pool (mp_deallocate (Some p) P) = mp_pool P"
proof -
  obtain g where un: "unpack (mp_head P) = (mp_head_index P, g)"
    by (metis mp_head_index_def prod.collapse)
  define P' where "P' = mp_deallocate (Some p) P"
  have P': "P' = update_stats_deallocate (P\<lparr>mp_next := (mp_next P)[p := mp_head_index P],
                   mp_head := pack (of_nat p) (g + 1)\<rparr>)"
    using p by (simp add: P'_def mp_deallocate_def un mp_slots_def not_le)
  have same: "mp_pool P' = mp_pool P" "mp_next P' = (mp_next P)[p := mp_head_index P]"
    "mp_head_index P' = of_nat p" "mp_slots P' = mp_slots P"
    "mp_allocated P' = mp_allocated P - 1" "mp_high_water P' = mp_high_water P"
    by (simp_all add: P' update_stats_deallocate_def mp_head_index_def mp_slots_def)
  have ch: "chain (mp_next P') (mp_head_index P') (p # mp_free P)"
    using inv p by (simp add: mp_inv_def same)
  have free: "mp_free P' = p # mp_free P"
    using ch inv p by (intro mp_free_eqI) (auto simp: mp_inv_def same)
  have "length (p # mp_free P) \<le> mp_slots P"
    using inv p mp_inv_free_bound [OF inv] by (intro distinct_bound_length) (auto simp: mp_inv_def)
  then have pos: "1 \<le> unat (mp_allocated P)"
    using inv by (simp add: mp_inv_def)
  then have ua: "unat (mp_allocated P - 1) = unat (mp_allocated P) - 1"
    by (metis unat_1 unat_sub word_le_nat_alt)
  then have "mp_allocated P - 1 \<le> mp_allocated P"
    by (simp add: word_le_nat_alt)
  then have "mp_inv P'"
    using inv p ch ua pos
    by (auto simp: mp_inv_def same free)
  then show ?thesis using free same by (simp add: P'_def)
qed

section \<open>The slot allocator as an interface\<close>

text \<open>
  What clients of a pool rely on: slots are handed out from the free list, and a slot that
  is given back joins it. The lemmas in the locale are proved once from these laws.
\<close>

fun alloc_many :: "('p \<Rightarrow> nat option \<times> 'p) \<Rightarrow> nat \<Rightarrow> 'p \<Rightarrow> nat option list \<times> 'p" where
  "alloc_many alloc 0 P = ([], P)"
| "alloc_many alloc (Suc n) P =
     (let (r, P') = alloc P; (rs, P'') = alloc_many alloc n P' in (r # rs, P''))"

locale slot_allocator =
  fixes alloc :: "'p \<Rightarrow> nat option \<times> 'p"
    and dealloc :: "nat option \<Rightarrow> 'p \<Rightarrow> 'p"
    and free :: "'p \<Rightarrow> nat list"
    and slots :: "'p \<Rightarrow> nat"
    and invar :: "'p \<Rightarrow> bool"
  assumes alloc_none: "invar P \<Longrightarrow> free P = [] \<Longrightarrow> alloc P = (None, P)"
    and alloc_some: "invar P \<Longrightarrow> free P = x # xs \<Longrightarrow>
          \<exists>P'. alloc P = (Some x, P') \<and> invar P' \<and> free P' = xs \<and> slots P' = slots P"
    and dealloc_some: "invar P \<Longrightarrow> p < slots P \<Longrightarrow> p \<notin> set (free P) \<Longrightarrow>
          invar (dealloc (Some p) P) \<and> free (dealloc (Some p) P) = p # free P \<and>
          slots (dealloc (Some p) P) = slots P"
    and dealloc_null: "dealloc None P = P"
    and free_distinct: "invar P \<Longrightarrow> distinct (free P)"
    and free_bound: "invar P \<Longrightarrow> set (free P) \<subseteq> {..<slots P}"
begin

lemma alloc_spec:
  assumes "invar P" and "alloc P = (r, P')"
  shows "invar P' \<and> slots P' = slots P \<and>
         (case r of None \<Rightarrow> free P = [] \<and> P' = P
                  | Some p \<Rightarrow> p < slots P \<and> free P = p # free P' \<and> p \<notin> set (free P'))"
proof (cases "free P")
  case Nil
  with assms alloc_none show ?thesis by auto
next
  case (Cons x xs)
  from alloc_some [OF assms(1) Cons] assms(2)
  have "r = Some x \<and> invar P' \<and> free P' = xs \<and> slots P' = slots P" by auto
  with Cons free_distinct [OF assms(1)] free_bound [OF assms(1)] show ?thesis by auto
qed

lemma alloc_reuses_last_freed:
  assumes "invar P" "p < slots P" "p \<notin> set (free P)"
  shows "fst (alloc (dealloc (Some p) P)) = Some p"
  using dealloc_some [OF assms] alloc_some by fastforce

lemma alloc_many_take:
  "invar P \<Longrightarrow> n \<le> length (free P) \<Longrightarrow>
     \<exists>P'. alloc_many alloc n P = (map Some (take n (free P)), P') \<and> invar P' \<and>
          free P' = drop n (free P) \<and> slots P' = slots P"
proof (induction n arbitrary: P)
  case (Suc n)
  then obtain x xs where fr: "free P = x # xs" by (cases "free P") auto
  from alloc_some [OF Suc.prems(1) fr] obtain P1 where
    P1: "alloc P = (Some x, P1)" "invar P1" "free P1 = xs" "slots P1 = slots P" by blast
  with Suc.IH [of P1] Suc.prems fr obtain P2 where
    "alloc_many alloc n P1 = (map Some (take n xs), P2)" "invar P2" "free P2 = drop n xs"
    "slots P2 = slots P1" by auto
  with P1 fr show ?case by auto
qed simp

end

interpretation mp: slot_allocator mp_allocate mp_deallocate mp_free mp_slots mp_inv
proof
  fix P :: "'a mpool" and x p xs
  show "mp_inv P \<Longrightarrow> mp_free P = [] \<Longrightarrow> mp_allocate P = (None, P)"
    by (rule mp_allocate_none)
  show "mp_inv P \<Longrightarrow> mp_free P = x # xs \<Longrightarrow>
          \<exists>P'. mp_allocate P = (Some x, P') \<and> mp_inv P' \<and> mp_free P' = xs \<and> mp_slots P' = mp_slots P"
    using mp_allocate_some by blast
  show "mp_inv P \<Longrightarrow> p < mp_slots P \<Longrightarrow> p \<notin> set (mp_free P) \<Longrightarrow>
          mp_inv (mp_deallocate (Some p) P) \<and> mp_free (mp_deallocate (Some p) P) = p # mp_free P \<and>
          mp_slots (mp_deallocate (Some p) P) = mp_slots P"
    using mp_deallocate_ok by blast
  show "mp_deallocate None P = P" by (simp add: mp_deallocate_def)
  show "mp_inv P \<Longrightarrow> distinct (mp_free P)" by (simp add: mp_inv_def)
  show "mp_inv P \<Longrightarrow> set (mp_free P) \<subseteq> {..<mp_slots P}" by (rule mp_inv_free_bound)
qed

lemma mp_pool_allocate [simp]: "mp_pool (snd (mp_allocate P)) = mp_pool P"
  by (simp add: mp_allocate_def update_stats_allocate_def Let_def split: prod.splits)

lemma mp_pool_deallocate [simp]: "mp_pool (mp_deallocate p P) = mp_pool P"
  by (simp add: mp_deallocate_def update_stats_deallocate_def Let_def
      split: prod.splits option.splits)

lemma mp_inv_pool_update [simp]:
  "length xs = length (mp_pool P) \<Longrightarrow> mp_inv (P\<lparr>mp_pool := xs\<rparr>) \<longleftrightarrow> mp_inv P"
  "mp_free (P\<lparr>mp_pool := xs\<rparr>) = mp_free P"
  "mp_slots (P\<lparr>mp_pool := xs\<rparr>) = mp_slots P"
  by (auto simp: mp_inv_def mp_free_def mp_slots_def mp_head_index_def)

section \<open>Properties\<close>

text \<open>
  A pool of admissible capacity starts with every slot free, in the order 0, 1, 2,
  and so on; asking for as many slots as the capacity hands each of them out exactly once,
  and the next request fails.
\<close>

theorem mp_new_hands_out_every_slot_once:
  assumes "mp_new d cap = Inr P"
  shows "mp_inv P \<and> mp_free P = [0 ..< unat cap] \<and>
         (\<exists>P'. alloc_many mp_allocate (unat cap) P = (map Some [0 ..< unat cap], P') \<and>
               mp_inv P' \<and> mp_allocate P' = (None, P'))"
proof -
  have P: "mp_inv P" "mp_free P = [0 ..< unat cap]"
    using mp_new_inv [OF assms] by auto
  then obtain P' where "alloc_many mp_allocate (unat cap) P = (map Some [0 ..< unat cap], P')"
    "mp_inv P'" "mp_free P' = []"
    using mp.alloc_many_take [of P "unat cap"] by auto
  with P show ?thesis using mp_allocate_none by blast
qed

theorem mp_new_hands_out_every_slot_once_witness:
  "\<exists>P. mp_new (0 :: nat) 3 = Inr P \<and> mp_inv P \<and> mp_free P = [0, 1, 2]"
proof -
  obtain P where P: "mp_new (0 :: nat) 3 = Inr P"
    by (simp add: mp_new_def validate_capacity_def POOL_EMPTY_def)
  moreover have "[0 ..< unat (3 :: u64)] = [0, 1, 2]" by (simp add: upt_rec)
  ultimately show ?thesis
    using mp_new_hands_out_every_slot_once [OF P] by auto
qed



text \<open>
  The release build has no guard against giving a slot back twice: after the
  second call the slot links to itself, and every later request is answered with that same
  slot, so two owners share it.
\<close>

theorem mp_double_free_aliases:
  assumes inv: "mp_inv P" and p: "p < mp_slots P" "p \<notin> set (mp_free P)"
    and Q: "Q = mp_deallocate (Some p) (mp_deallocate (Some p) P)"
  shows "fst (mp_allocate Q) = Some p \<and> fst (mp_allocate (snd (mp_allocate Q))) = Some p \<and>
         \<not> mp_inv Q"
proof -
  define P1 where "P1 = mp_deallocate (Some p) P"
  have P1: "mp_inv P1" "mp_free P1 = p # mp_free P" "mp_slots P1 = mp_slots P"
    using mp_deallocate_ok [OF inv p] by (auto simp: P1_def)
  note hd = mp_head_index_Cons [OF P1(1,2)]
  have len: "length (mp_next P1) = mp_slots P1" "mp_slots P1 = unat (mp_capacity P1)"
    using P1(1) by (auto simp: mp_inv_def mp_slots_def)
  obtain g where un: "unpack (mp_head P1) = (of_nat p, g)"
    using hd(1) by (metis mp_head_index_def prod.collapse)
  have "Q = mp_deallocate (Some p) P1" by (simp add: Q P1_def)
  then have Q': "Q = update_stats_deallocate (P1\<lparr>mp_next := (mp_next P1)[p := of_nat p],
                  mp_head := pack (of_nat p) (g + 1)\<rparr>)"
    using p P1(3) len by (simp add: mp_deallocate_def un not_le)
  have ne: "(of_nat p :: u32) \<noteq> POOL_EMPTY" "unat (of_nat p :: u32) = p" using hd by auto
  have nx: "mp_next Q ! p = of_nat p"
    using p P1(3) len by (simp add: Q' update_stats_deallocate_def)
  have uQ: "unpack (mp_head Q) = (of_nat p, g + 1)"
    by (simp add: Q' update_stats_deallocate_def)
  define R where "R = update_stats_allocate (Q\<lparr>mp_head := pack (of_nat p) (g + 1 + 1)\<rparr>)"
  have a1: "mp_allocate Q = (Some p, R)"
    using ne nx by (simp add: mp_allocate_def uQ R_def)
  have nR: "mp_next R ! p = of_nat p" "unpack (mp_head R) = (of_nat p, g + 1 + 1)"
    using nx by (simp_all add: R_def update_stats_allocate_def Let_def)
  define S where "S = update_stats_allocate (R\<lparr>mp_head := pack (of_nat p) (g + 1 + 1 + 1)\<rparr>)"
  have a2: "mp_allocate R = (Some p, S)"
    using ne nR(1) by (simp add: mp_allocate_def nR(2) S_def)
  have "\<not> mp_inv Q"
  proof
    assume Qi: "mp_inv Q"
    from mp.alloc_spec [OF Qi a1] have R: "mp_inv R" "p \<notin> set (mp_free R)" by simp_all
    from mp.alloc_spec [OF R(1) a2] have "mp_free R = p # mp_free S" by simp
    with R(2) show False by simp
  qed
  with a1 a2 show ?thesis by simp
qed

theorem mp_double_free_aliases_witness:
  "\<exists>P P'. mp_new (0 :: nat) 2 = Inr P \<and> mp_allocate P = (Some 0, P') \<and>
     fst (mp_allocate (mp_deallocate (Some 0) (mp_deallocate (Some 0) P'))) = Some 0"
proof -
  obtain P where P: "mp_new (0 :: nat) 2 = Inr P"
    by (simp add: mp_new_def validate_capacity_def POOL_EMPTY_def)
  have l: "[0 ..< unat (2 :: u64)] = [0, 1]" by (simp add: upt_rec)
  have inv: "mp_inv P" and fr: "mp_free P = [0, 1]" and sl: "mp_slots P = 2"
    using mp_new_inv [OF P] l by auto
  obtain P' where al: "mp_allocate P = (Some 0, P')" "mp_inv P'" "mp_free P' = [1]" "mp_slots P' = 2"
    using mp_allocate_some [OF inv fr] sl by auto
  show ?thesis
    using mp_double_free_aliases [OF al(2), of 0, OF _ _ refl] P al by auto
qed

end
