(* ===== verification/RTES_Ladder.thy ===== *)
theory RTES_Ladder
  imports RTES_Types
begin

text \<open>
  The price levels of one side of a book (\<open>FlatLevel\<close> and \<open>FlatPriceBook\<close> of
  \<^verbatim>\<open>include/rtes/order_book.hpp\<close>). A level is a FIFO of order pointers with a cursor;
  a ladder is a vector of levels sorted by price and searched by bisection. The template
  parameter \<open>Descending\<close> is the argument \<open>desc\<close>: true for bids, false for asks.
\<close>

section \<open>FlatLevel\<close>

record flat_level =
  l_price :: Price
  l_total :: Quantity
  l_head :: u32
  l_orders :: "nat list"

definition COMPACT_THRESHOLD :: u32 where
  "COMPACT_THRESHOLD = 64"

definition fl_new :: "Price \<Rightarrow> flat_level" where
  "fl_new p = \<lparr>l_price = p, l_total = 0, l_head = 0, l_orders = []\<rparr>"

text \<open>\<open>qty\<close> is the \<open>remaining_quantity\<close> read through the pointer.\<close>

definition fl_push_back :: "nat \<Rightarrow> Quantity \<Rightarrow> flat_level \<Rightarrow> flat_level" where
  "fl_push_back ptr qty l = l\<lparr>l_orders := l_orders l @ [ptr], l_total := l_total l + qty\<rparr>"

definition fl_front :: "flat_level \<Rightarrow> nat" where
  "fl_front l = l_orders l ! unat (l_head l)"

definition fl_pop_front :: "Quantity \<Rightarrow> flat_level \<Rightarrow> flat_level" where
  "fl_pop_front filled_qty l = l\<lparr>l_total := l_total l - filled_qty, l_head := l_head l + 1\<rparr>"

definition fl_reduce_quantity :: "Quantity \<Rightarrow> flat_level \<Rightarrow> flat_level" where
  "fl_reduce_quantity qty l = l\<lparr>l_total := l_total l - qty\<rparr>"

definition fl_empty :: "flat_level \<Rightarrow> bool" where
  "fl_empty l = (length (l_orders l) \<le> unat (l_head l))"

definition fl_size :: "flat_level \<Rightarrow> u64" where
  "fl_size l = of_nat (length (l_orders l)) - ucast (l_head l)"

definition fl_needs_compaction :: "flat_level \<Rightarrow> bool" where
  "fl_needs_compaction l = (COMPACT_THRESHOLD < l_head l)"

definition fl_compact :: "flat_level \<Rightarrow> flat_level" where
  "fl_compact l =
     (if l_head l = 0 then l
      else l\<lparr>l_orders := drop (unat (l_head l)) (l_orders l), l_head := 0\<rparr>)"

section \<open>FlatPriceBook\<close>

type_synonym ladder = "flat_level list"

text \<open>The comparison that the template selects, and the bisection of \<open>std::lower_bound\<close>.\<close>

definition before :: "bool \<Rightarrow> Price \<Rightarrow> Price \<Rightarrow> bool" where
  "before desc p q = (if desc then q < p else p < q)"

fun lower_bound :: "('a \<Rightarrow> bool) \<Rightarrow> 'a list \<Rightarrow> nat \<Rightarrow> nat \<Rightarrow> nat" where
  "lower_bound P xs first len =
     (if len = 0 then first
      else
        let half = len div 2; mid = first + half
        in if P (xs ! mid) then lower_bound P xs (mid + 1) (len - half - 1)
           else lower_bound P xs first half)"

declare lower_bound.simps [simp del]

definition lower_bound_for :: "bool \<Rightarrow> Price \<Rightarrow> ladder \<Rightarrow> nat" where
  "lower_bound_for desc p ls = lower_bound (\<lambda>l. before desc (l_price l) p) ls 0 (length ls)"

definition fb_best_price :: "ladder \<Rightarrow> Price" where
  "fb_best_price ls = (if ls = [] then 0 else l_price (ls ! 0))"

definition fb_best_quantity :: "ladder \<Rightarrow> Quantity" where
  "fb_best_quantity ls = (if ls = [] then 0 else l_total (ls ! 0))"

text \<open>\<open>find\<close> returns a pointer to a level; here it is the index of that level.\<close>

definition fb_find :: "bool \<Rightarrow> Price \<Rightarrow> ladder \<Rightarrow> nat option" where
  "fb_find desc p ls =
     (let it = lower_bound_for desc p ls
      in if it \<noteq> length ls \<and> l_price (ls ! it) = p then Some it else None)"

definition emplace :: "nat \<Rightarrow> 'a \<Rightarrow> 'a list \<Rightarrow> 'a list" where
  "emplace i x xs = take i xs @ x # drop i xs"

definition erase :: "nat \<Rightarrow> 'a list \<Rightarrow> 'a list" where
  "erase i xs = take i xs @ drop (Suc i) xs"

definition fb_insert :: "bool \<Rightarrow> Price \<Rightarrow> ladder \<Rightarrow> nat \<times> ladder" where
  "fb_insert desc p ls = (let it = lower_bound_for desc p ls in (it, emplace it (fl_new p) ls))"

definition fb_find_or_insert :: "bool \<Rightarrow> Price \<Rightarrow> ladder \<Rightarrow> nat \<times> ladder" where
  "fb_find_or_insert desc p ls =
     (let it = lower_bound_for desc p ls
      in if it \<noteq> length ls \<and> l_price (ls ! it) = p then (it, ls)
         else (it, emplace it (fl_new p) ls))"

definition fb_remove :: "bool \<Rightarrow> Price \<Rightarrow> ladder \<Rightarrow> ladder" where
  "fb_remove desc p ls =
     (let it = lower_bound_for desc p ls
      in if it \<noteq> length ls \<and> l_price (ls ! it) = p then erase it ls else ls)"

definition fb_remove_best :: "ladder \<Rightarrow> ladder" where
  "fb_remove_best ls = erase 0 ls"

definition fb_compact_all :: "ladder \<Rightarrow> ladder" where
  "fb_compact_all ls = map (\<lambda>l. if fl_needs_compaction l then fl_compact l else l) ls"

definition fb_prune_empty :: "ladder \<Rightarrow> ladder" where
  "fb_prune_empty ls = filter (\<lambda>l. \<not> fl_empty l) ls"

section \<open>The live orders\<close>

definition fl_live :: "flat_level \<Rightarrow> nat list" where
  "fl_live l = drop (unat (l_head l)) (l_orders l)"

definition fb_live :: "ladder \<Rightarrow> nat list" where
  "fb_live ls = concat (map fl_live ls)"

abbreviation ladder_sorted :: "bool \<Rightarrow> ladder \<Rightarrow> bool" where
  "ladder_sorted desc ls \<equiv> sorted_wrt (before desc) (map l_price ls)"

lemma fl_empty_live: "fl_empty l \<longleftrightarrow> fl_live l = []"
  by (simp add: fl_empty_def fl_live_def)

lemma fl_live_front: "\<not> fl_empty l \<Longrightarrow> fl_live l = fl_front l # tl (fl_live l)"
  by (simp add: fl_empty_def fl_live_def fl_front_def drop_eq_Cons)

lemma fl_size_live:
  assumes "length (l_orders l) < 2 ^ 32" "\<not> fl_empty l"
  shows "fl_size l = of_nat (length (fl_live l))"
proof -
  have "(of_nat (unat (l_head l)) :: u64) = ucast (l_head l)" by simp
  moreover have "unat (l_head l) \<le> length (l_orders l)" using assms(2) by (simp add: fl_empty_def)
  ultimately show ?thesis
    by (simp add: fl_size_def fl_live_def of_nat_diff)
qed

lemma fl_live_push_back:
  "unat (l_head l) \<le> length (l_orders l) \<Longrightarrow> fl_live (fl_push_back p q l) = fl_live l @ [p]"
  by (simp add: fl_live_def fl_push_back_def)

lemma fl_live_new [simp]: "fl_live (fl_new p) = []"
  by (simp add: fl_live_def fl_new_def)

lemma fl_live_pop_front:
  assumes "\<not> fl_empty l" "length (l_orders l) < 2 ^ 32"
  shows "fl_live (fl_pop_front q l) = tl (fl_live l)"
proof -
  have "unat (l_head l + 1) = Suc (unat (l_head l))"
    using assms by (intro unat_Suc_lt [of _ "length (l_orders l)"]) (auto simp: fl_empty_def)
  then show ?thesis by (simp add: fl_live_def fl_pop_front_def tl_drop drop_Suc)
qed

lemma fl_live_reduce_quantity [simp]: "fl_live (fl_reduce_quantity q l) = fl_live l"
  by (simp add: fl_live_def fl_reduce_quantity_def)

lemma fl_compact_live [simp]: "fl_live (fl_compact l) = fl_live l"
  by (simp add: fl_live_def fl_compact_def)

lemma fl_frame [simp, frame]:
  "l_price (fl_push_back p q l) = l_price l" "l_price (fl_pop_front q l) = l_price l"
  "l_price (fl_reduce_quantity q l) = l_price l" "l_price (fl_compact l) = l_price l"
  "l_price (fl_new pr) = pr" "l_total (fl_new pr) = 0" "l_total (fl_compact l) = l_total l"
  "l_orders (fl_pop_front q l) = l_orders l" "l_orders (fl_reduce_quantity q l) = l_orders l"
  "l_head (fl_reduce_quantity q l) = l_head l" "l_head (fl_push_back p q l) = l_head l"
  "l_total (fl_push_back p q l) = l_total l + q" "l_total (fl_pop_front q l) = l_total l - q"
  "l_total (fl_reduce_quantity q l) = l_total l - q"
  by (auto simp: fl_push_back_def fl_pop_front_def fl_reduce_quantity_def fl_compact_def fl_new_def)

lemma fb_live_simps [simp]:
  "fb_live [] = []" "fb_live (l # ls) = fl_live l @ fb_live ls"
  "fb_live (xs @ ys) = fb_live xs @ fb_live ys"
  by (simp_all add: fb_live_def)

section \<open>Bisection\<close>

text \<open>
  On a list where the predicate holds on a prefix only, the bisection returns the length of
  that prefix, as the linear scan \<^term>\<open>takeWhile\<close> does.
\<close>

lemma lower_bound_prefix:
  "first \<le> length xs \<Longrightarrow> length xs \<le> first + len \<Longrightarrow> first + len \<le> length (xs @ ys) \<Longrightarrow>
   (\<And>x. x \<in> set xs \<Longrightarrow> P x) \<Longrightarrow> (\<And>y. y \<in> set ys \<Longrightarrow> \<not> P y) \<Longrightarrow>
   lower_bound P (xs @ ys) first len = length xs"
proof (induction len arbitrary: first rule: less_induct)
  case (less len)
  show ?case
  proof (cases "len = 0")
    case True
    with less.prems show ?thesis by (simp add: lower_bound.simps)
  next
    case False
    define mid where "mid = first + len div 2"
    have mid: "mid < length (xs @ ys)" using False less.prems(3) by (simp add: mid_def)
    have at: "P ((xs @ ys) ! mid) \<longleftrightarrow> mid < length xs"
      using less.prems(4,5) mid by (auto simp: nth_append)
    show ?thesis
    proof (cases "mid < length xs")
      case True
      then have "lower_bound P (xs @ ys) first len =
                 lower_bound P (xs @ ys) (mid + 1) (len - len div 2 - 1)"
        using False at by (subst lower_bound.simps) (simp add: mid_def Let_def)
      also have "\<dots> = length xs"
        using less.prems False True by (intro less.IH) (auto simp: mid_def)
      finally show ?thesis .
    next
      case low: False
      then have "lower_bound P (xs @ ys) first len = lower_bound P (xs @ ys) first (len div 2)"
        using False at by (subst lower_bound.simps) (simp add: mid_def Let_def)
      also have "\<dots> = length xs"
        using less.prems False low by (intro less.IH) (auto simp: mid_def)
      finally show ?thesis .
    qed
  qed
qed

locale priority_order =
  fixes better :: "'k \<Rightarrow> 'k \<Rightarrow> bool"
  assumes better_irrefl: "\<not> better k k"
    and better_trans: "better i j \<Longrightarrow> better j k \<Longrightarrow> better i k"
    and better_total: "i = j \<or> better i j \<or> better j i"
begin

lemma split_sorted:
  assumes "sorted_wrt better (map key xs)"
  obtains ys zs where "xs = ys @ zs" "\<And>y. y \<in> set ys \<Longrightarrow> better (key y) k"
    "\<And>z. z \<in> set zs \<Longrightarrow> \<not> better (key z) k"
    "lower_bound (\<lambda>x. better (key x) k) xs 0 (length xs) = length ys"
proof -
  define ys zs where "ys = takeWhile (\<lambda>x. better (key x) k) xs"
    and "zs = dropWhile (\<lambda>x. better (key x) k) xs"
  have xs: "xs = ys @ zs" by (simp add: ys_def zs_def)
  have y: "better (key y) k" if "y \<in> set ys" for y
    using that by (auto simp: ys_def dest: set_takeWhileD)
  have z: "\<not> better (key z) k" if "z \<in> set zs" for z
  proof (cases zs)
    case (Cons w ws)
    then have "\<not> better (key w) k"
      by (metis dropWhile_eq_Cons_conv zs_def)
    moreover have "z = w \<or> better (key w) (key z)"
      using assms that by (auto simp: xs Cons sorted_wrt_append)
    ultimately show ?thesis using better_trans by blast
  qed (use that in simp)
  have "lower_bound (\<lambda>x. better (key x) k) (ys @ zs) 0 (length (ys @ zs)) = length ys"
    using y z by (intro lower_bound_prefix) auto
  with xs y z that show thesis by blast
qed

lemma split_at_member:
  assumes "sorted_wrt better (map key (ys @ x # zs))"
  shows "lower_bound (\<lambda>y. better (key y) (key x)) (ys @ x # zs) 0 (length (ys @ x # zs)) = length ys"
proof -
  have "\<not> better (key z) (key x)" if "better (key x) (key z)" for z
    using that better_trans better_irrefl by blast
  then show ?thesis
    using assms better_irrefl by (intro lower_bound_prefix) (auto simp: sorted_wrt_append)
qed

lemma head_not_better:
  assumes "\<not> better (key z) k" "key z \<noteq> k" "sorted_wrt better (map key (z # zs))"
    "w \<in> set (z # zs)"
  shows "better k (key w)"
  using assms better_total [of k "key z"] better_trans by auto

end

interpretation px: priority_order "before desc" for desc
  by unfold_locales (auto simp: before_def)

section \<open>Ladder operations on sorted levels\<close>

lemma fb_find_member:
  "ladder_sorted desc (xs @ l # ys) \<Longrightarrow> fb_find desc (l_price l) (xs @ l # ys) = Some (length xs)"
  using px.split_at_member [of desc l_price xs l ys]
  by (simp add: fb_find_def lower_bound_for_def)

lemma fb_remove_member:
  "ladder_sorted desc (xs @ l # ys) \<Longrightarrow> fb_remove desc (l_price l) (xs @ l # ys) = xs @ ys"
  using px.split_at_member [of desc l_price xs l ys]
  by (simp add: fb_remove_def lower_bound_for_def erase_def)

lemma fb_remove_head: "ladder_sorted desc (l # ls) \<Longrightarrow> fb_remove desc (l_price l) (l # ls) = ls"
  using fb_remove_member [of desc "[]" l ls] by simp

lemma fb_find_none:
  assumes "ladder_sorted desc ls" "p \<notin> l_price ` set ls"
  shows "fb_find desc p ls = None"
proof -
  obtain ys zs where "ls = ys @ zs" "lower_bound_for desc p ls = length ys"
    using px.split_sorted [OF assms(1), of p] unfolding lower_bound_for_def by blast
  then show ?thesis using assms(2) by (cases zs) (auto simp: fb_find_def Let_def)
qed

lemma fb_find_or_insert_split:
  assumes "ladder_sorted desc ls"
  obtains xs l ys where "fb_find_or_insert desc p ls = (length xs, xs @ l # ys)"
    "l_price l = p" "ls = xs @ l # ys \<or> ls = xs @ ys \<and> l = fl_new p"
    "ladder_sorted desc (xs @ l # ys)"
proof -
  obtain ys zs where ls: "ls = ys @ zs" and y: "\<And>l. l \<in> set ys \<Longrightarrow> before desc (l_price l) p"
    and z: "\<And>l. l \<in> set zs \<Longrightarrow> \<not> before desc (l_price l) p"
    and lb: "lower_bound_for desc p ls = length ys"
    using px.split_sorted [OF assms, of p] unfolding lower_bound_for_def by blast
  show thesis
  proof (cases "zs \<noteq> [] \<and> l_price (hd zs) = p")
    case True
    then obtain l zs' where "zs = l # zs'" "l_price l = p" by (cases zs) auto
    then show thesis
      using that [of ys l zs'] assms ls lb by (simp add: fb_find_or_insert_def)
  next
    case False
    have after: "before desc p (l_price l)" if "l \<in> set zs" for l
    proof (cases zs)
      case (Cons w ws)
      then have "sorted_wrt (before desc) (map l_price (w # ws))"
        using assms ls by (simp add: sorted_wrt_append)
      then show ?thesis
        using px.head_not_better [of desc l_price w p ws l] z False that Cons by auto
    qed (use that in simp)
    have "ladder_sorted desc (ys @ fl_new p # zs)"
      using assms y after by (auto simp: ls sorted_wrt_append)
    moreover have "fb_find_or_insert desc p ls = (length ys, ys @ fl_new p # zs)"
      using False lb ls by (cases zs) (auto simp: fb_find_or_insert_def emplace_def Let_def)
    ultimately show thesis using that [of ys "fl_new p" zs] ls by simp
  qed
qed

lemma fb_compact_all_live [simp]: "fb_live (fb_compact_all ls) = fb_live ls"
  by (induction ls) (auto simp: fb_compact_all_def)

lemma fb_prune_empty_live [simp]: "fb_live (fb_prune_empty ls) = fb_live ls"
  by (induction ls) (auto simp: fb_prune_empty_def fl_empty_live)

end
