(* ===== verification/RTES_Order_Book.thy ===== *)
theory RTES_Order_Book
  imports RTES_Pool RTES_Ladder RTES_Errors
begin

text \<open>
  The per-symbol order book (\<open>OrderBook\<close> of \<^verbatim>\<open>include/rtes/order_book.hpp\<close> and
  \<^verbatim>\<open>src/order_book.cpp\<close>), as its single writer runs it. An \<open>Order*\<close> is the index of a
  slot of the shared pool, and reads and writes through it go to that slot, so that two
  pointers to one order see each other's writes.

  Latency and throughput tracking, prefetching and logging have no effect on the state and
  are left out. The standard containers are taken not to run out of memory, so the
  \<open>catch\<close> branches do not occur.
\<close>

section \<open>State\<close>

record bbo_snapshot =
  bbo_bid_price :: Price
  bbo_bid_quantity :: Quantity
  bbo_ask_price :: Price
  bbo_ask_quantity :: Quantity
  bbo_sequence :: u64

record depth_level =
  d_price :: Price
  d_quantity :: Quantity
  d_order_count :: u32

record depth_snapshot =
  ds_bids :: "depth_level list"
  ds_asks :: "depth_level list"
  ds_bid_levels :: u64
  ds_ask_levels :: u64

definition MAX_DEPTH_LEVELS :: u64 where
  "MAX_DEPTH_LEVELS = 20"

text \<open>
  \<open>bk_callback\<close> and \<open>bk_ctx\<close> are the trade callback and what it changes behind its
  context pointer; \<open>bk_clock\<close> is the wall clock, read once per trade, and
  \<open>bk_ticks\<close> counts its reads. \<open>bk_trades\<close> records the trades executed so far.
\<close>

record 'c book =
  bk_bids :: ladder
  bk_asks :: ladder
  bk_lookup :: "(OrderID \<times> nat) list"
  bk_next_trade_id :: TradeID
  bk_shutdown :: bool
  bk_pool :: "order mpool"
  bk_callback :: "(trade \<Rightarrow> 'c \<Rightarrow> 'c) option"
  bk_ctx :: 'c
  bk_bbo :: bbo_snapshot
  bk_symbol :: "byte list"
  bk_clock :: "nat \<Rightarrow> Timestamp"
  bk_ticks :: nat
  bk_trades :: "trade list"

definition ob_new ::
  "byte list \<Rightarrow> order mpool \<Rightarrow> (trade \<Rightarrow> 'c \<Rightarrow> 'c) option \<Rightarrow> 'c \<Rightarrow> (nat \<Rightarrow> Timestamp) \<Rightarrow> 'c book" where
  "ob_new symb pool callback ctx clk =
     \<lparr>bk_bids = [], bk_asks = [], bk_lookup = [], bk_next_trade_id = 1, bk_shutdown = False,
      bk_pool = pool, bk_callback = callback, bk_ctx = ctx,
      bk_bbo = \<lparr>bbo_bid_price = 0, bbo_bid_quantity = 0, bbo_ask_price = 0,
                bbo_ask_quantity = 0, bbo_sequence = 0\<rparr>,
      bk_symbol = symb, bk_clock = clk, bk_ticks = 0, bk_trades = []\<rparr>"

text \<open>Access through an order pointer, and to the side that a template argument selects.\<close>

definition ord :: "'c book \<Rightarrow> nat \<Rightarrow> order" where
  "ord B p = mp_pool (bk_pool B) ! p"

definition upd_ord :: "nat \<Rightarrow> (order \<Rightarrow> order) \<Rightarrow> 'c book \<Rightarrow> 'c book" where
  "upd_ord p f B =
     B\<lparr>bk_pool := (bk_pool B)\<lparr>mp_pool := (mp_pool (bk_pool B))[p := f (ord B p)]\<rparr>\<rparr>"

definition free_ord :: "nat \<Rightarrow> 'c book \<Rightarrow> 'c book" where
  "free_ord p B = B\<lparr>bk_pool := mp_deallocate (Some p) (bk_pool B)\<rparr>"

definition lad :: "bool \<Rightarrow> 'c book \<Rightarrow> ladder" where
  "lad desc B = (if desc then bk_bids B else bk_asks B)"

definition set_lad :: "bool \<Rightarrow> ladder \<Rightarrow> 'c book \<Rightarrow> 'c book" where
  "set_lad desc ls B = (if desc then B\<lparr>bk_bids := ls\<rparr> else B\<lparr>bk_asks := ls\<rparr>)"

definition best_bid :: "'c book \<Rightarrow> Price" where
  "best_bid B = fb_best_price (bk_bids B)"

definition best_ask :: "'c book \<Rightarrow> Price" where
  "best_ask B = fb_best_price (bk_asks B)"

definition bid_quantity :: "'c book \<Rightarrow> Quantity" where
  "bid_quantity B = fb_best_quantity (bk_bids B)"

definition ask_quantity :: "'c book \<Rightarrow> Quantity" where
  "ask_quantity B = fb_best_quantity (bk_asks B)"

definition order_count :: "'c book \<Rightarrow> nat" where
  "order_count B = length (bk_lookup B)"

section \<open>Matching\<close>

definition execute_trade :: "nat \<Rightarrow> nat \<Rightarrow> Quantity \<Rightarrow> Price \<Rightarrow> 'c book \<Rightarrow> 'c book" where
  "execute_trade aggressive passive quantity price B =
     (let take_qty = (\<lambda>x. x\<lparr>o_remaining := o_remaining x - quantity\<rparr>);
          set_status = (\<lambda>x. x\<lparr>o_status := (if o_remaining x = 0 then FILLED else PARTIALLY_FILLED)\<rparr>);
          B1 = upd_ord passive set_status (upd_ord aggressive set_status
                 (upd_ord passive take_qty (upd_ord aggressive take_qty B)));
          agg = ord B1 aggressive;
          trade = make_trade (bk_clock B1 (bk_ticks B1)) (bk_next_trade_id B1)
                    (if o_side agg = BUY then o_id agg else o_id (ord B1 passive))
                    (if o_side agg = SELL then o_id agg else o_id (ord B1 passive))
                    (Some (bk_symbol B1)) quantity price;
          B2 = B1\<lparr>bk_next_trade_id := bk_next_trade_id B1 + 1, bk_ticks := Suc (bk_ticks B1),
                 bk_trades := bk_trades B1 @ [trade]\<rparr>
      in case bk_callback B2 of None \<Rightarrow> B2 | Some cb \<Rightarrow> B2\<lparr>bk_ctx := cb trade (bk_ctx B2)\<rparr>)"

text \<open>
  One iteration of the sweep on the side \<open>desc\<close>, once the loop conditions hold; the
  lambdas of the market and the limit sweep share this body.
\<close>

definition fill_best :: "bool \<Rightarrow> nat \<Rightarrow> 'c book \<Rightarrow> 'c book" where
  "fill_best desc order B =
     (let level = lad desc B ! 0 in
      if fl_empty level then set_lad desc (fb_remove desc (l_price level) (lad desc B)) B
      else
        let passive = fl_front level;
            qty = min (o_remaining (ord B order)) (o_remaining (ord B passive));
            B1 = execute_trade order passive qty (l_price level) B;
            B2 = (if o_remaining (ord B1 passive) = 0
                  then
                    let C1 = set_lad desc ((lad desc B1)[0 := fl_pop_front qty (lad desc B1 ! 0)]) B1;
                        C2 = C1\<lparr>bk_lookup := AList.delete (o_id (ord C1 passive)) (bk_lookup C1)\<rparr>;
                        C3 = upd_ord passive (\<lambda>x. x\<lparr>o_status := FILLED\<rparr>) C2
                    in free_ord passive C3
                  else
                    set_lad desc ((lad desc B1)[0 := fl_reduce_quantity qty (lad desc B1 ! 0)]) B1);
            level' = lad desc B2 ! 0
        in if fl_empty level' then set_lad desc (fb_remove desc (l_price level') (lad desc B2)) B2
           else B2)"

text \<open>
  The sweep loop. \<open>crosses\<close> is the break test: constantly true for a market order.
  A loop that does not end is \<open>None\<close>.
\<close>

partial_function (option) sweep ::
  "('c book \<Rightarrow> flat_level \<Rightarrow> bool) \<Rightarrow> bool \<Rightarrow> nat \<Rightarrow> 'c book \<Rightarrow> 'c book option" where
  "sweep crosses desc order B =
     (if 0 < o_remaining (ord B order) \<and> lad desc B \<noteq> [] \<and> crosses B (lad desc B ! 0)
      then sweep crosses desc order (fill_best desc order B)
      else Some B)"

definition limit_crosses :: "nat \<Rightarrow> 'c book \<Rightarrow> flat_level \<Rightarrow> bool" where
  "limit_crosses order B level =
     (if o_side (ord B order) = BUY then l_price level \<le> o_price (ord B order)
      else o_price (ord B order) \<le> l_price level)"

definition match_market_order :: "nat \<Rightarrow> 'c book \<Rightarrow> (unit result \<times> 'c book) option" where
  "match_market_order order B =
     map_option (\<lambda>B'. (Inr (), B'))
       (sweep (\<lambda>_ _. True) (o_side (ord B order) \<noteq> BUY) order B)"

definition match_limit_order :: "nat \<Rightarrow> 'c book \<Rightarrow> (unit result \<times> 'c book) option" where
  "match_limit_order order B =
     map_option (\<lambda>B'. (Inr (), B'))
       (sweep (limit_crosses order) (o_side (ord B order) \<noteq> BUY) order B)"

definition match_order :: "nat option \<Rightarrow> 'c book \<Rightarrow> (unit result \<times> 'c book) option" where
  "match_order optr B =
     (if bk_shutdown B then Some (Inl SYSTEM_SHUTDOWN, B)
      else
        case optr of
          None \<Rightarrow> Some (Inl ORDER_INVALID, B)
        | Some order \<Rightarrow>
            if o_type (ord B order) = MARKET then match_market_order order B
            else match_limit_order order B)"

section \<open>Book management\<close>

definition add_to_book :: "nat option \<Rightarrow> 'c book \<Rightarrow> unit result \<times> 'c book" where
  "add_to_book optr B =
     (case optr of
        None \<Rightarrow> (Inl ORDER_INVALID, B)
      | Some order \<Rightarrow>
          let desc = (o_side (ord B order) = BUY);
              (i, ls) = fb_find_or_insert desc (o_price (ord B order)) (lad desc B);
              B1 = set_lad desc (ls[i := fl_push_back order (o_remaining (ord B order)) (ls ! i)]) B
          in (Inr (), upd_ord order (\<lambda>x. x\<lparr>o_status := ACCEPTED\<rparr>) B1))"

function index_from :: "'a \<Rightarrow> nat \<Rightarrow> 'a list \<Rightarrow> nat option" where
  "index_from x i v =
     (if i < length v then if v ! i = x then Some i else index_from x (Suc i) v else None)"
  by pat_completeness auto

termination index_from
  by (relation "measure (\<lambda>(x, i, v). length v - i)") auto

declare index_from.simps [simp del]

definition remove_from_book :: "nat \<Rightarrow> 'c book \<Rightarrow> 'c book" where
  "remove_from_book order B =
     (let desc = (o_side (ord B order) = BUY) in
      case fb_find desc (o_price (ord B order)) (lad desc B) of
        None \<Rightarrow> B
      | Some k \<Rightarrow>
          let level = lad desc B ! k in
          case index_from order (unat (l_head level)) (l_orders level) of
            None \<Rightarrow> B
          | Some i \<Rightarrow>
              let level1 = level\<lparr>l_orders := erase i (l_orders level)\<rparr>;
                  level2 = (if i < unat (l_head level1)
                            then level1\<lparr>l_head := l_head level1 - 1\<rparr> else level1);
                  level3 = level2\<lparr>l_total := l_total level2 - o_remaining (ord B order)\<rparr>;
                  ls = (lad desc B)[k := level3]
              in if fl_empty level3
                 then set_lad desc (fb_remove desc (o_price (ord B order)) ls) B
                 else set_lad desc ls B)"

definition update_bbo_snapshot :: "'c book \<Rightarrow> 'c book" where
  "update_bbo_snapshot B =
     (let s = bbo_sequence (bk_bbo B) + 1
      in B\<lparr>bk_bbo :=
             \<lparr>bbo_bid_price = fb_best_price (bk_bids B),
              bbo_bid_quantity = fb_best_quantity (bk_bids B),
              bbo_ask_price = fb_best_price (bk_asks B),
              bbo_ask_quantity = fb_best_quantity (bk_asks B),
              bbo_sequence = s + 1\<rparr>\<rparr>)"

section \<open>Public operations\<close>

definition add_order :: "nat option \<Rightarrow> 'c book \<Rightarrow> (unit result \<times> 'c book) option" where
  "add_order optr B =
     (if bk_shutdown B then Some (Inl SYSTEM_SHUTDOWN, B)
      else
        case optr of
          None \<Rightarrow> Some (Inl ORDER_INVALID, B)
        | Some order \<Rightarrow>
            if o_remaining (ord B order) = 0 then Some (Inl ORDER_INVALID, B)
            else if map_of (bk_lookup B) (o_id (ord B order)) \<noteq> None
            then Some (Inl ORDER_DUPLICATE, B)
            else
              case match_order (Some order)
                     (B\<lparr>bk_lookup := AList.update (o_id (ord B order)) order (bk_lookup B)\<rparr>) of
                None \<Rightarrow> None
              | Some (Inl e, B1) \<Rightarrow>
                  Some (Inl e, B1\<lparr>bk_lookup := AList.delete (o_id (ord B1 order)) (bk_lookup B1)\<rparr>)
              | Some (Inr _, B1) \<Rightarrow>
                  if 0 < o_remaining (ord B1 order) then
                    (case add_to_book (Some order) B1 of
                       (Inl e, B2) \<Rightarrow>
                         Some (Inl e, B2\<lparr>bk_lookup := AList.delete (o_id (ord B2 order)) (bk_lookup B2)\<rparr>)
                     | (Inr _, B2) \<Rightarrow> Some (Inr (), update_bbo_snapshot B2))
                  else
                    Some (Inr (), update_bbo_snapshot
                      (B1\<lparr>bk_lookup := AList.delete (o_id (ord B1 order)) (bk_lookup B1)\<rparr>)))"

definition cancel_order :: "OrderID \<Rightarrow> 'c book \<Rightarrow> unit result \<times> 'c book" where
  "cancel_order order_id B =
     (if bk_shutdown B then (Inl SYSTEM_SHUTDOWN, B)
      else
        case map_of (bk_lookup B) order_id of
          None \<Rightarrow> (Inl ORDER_NOT_FOUND, B)
        | Some order \<Rightarrow>
            let B1 = remove_from_book order B;
                B2 = B1\<lparr>bk_lookup := AList.delete order_id (bk_lookup B1)\<rparr>;
                B3 = upd_ord order (\<lambda>x. x\<lparr>o_status := CANCELLED\<rparr>) B2;
                B4 = free_ord order B3
            in (Inr (), update_bbo_snapshot B4))"

fun depth_loop :: "u64 \<Rightarrow> ladder \<Rightarrow> depth_level list \<Rightarrow> u64 \<Rightarrow> depth_level list \<times> u64" where
  "depth_loop max_levels [] out n = (out, n)"
| "depth_loop max_levels (l # ls) out n =
     (if n < max_levels \<and> n < MAX_DEPTH_LEVELS then
        if \<not> fl_empty l then
          depth_loop max_levels ls
            (out[unat n := \<lparr>d_price = l_price l, d_quantity = l_total l, d_order_count = ucast (fl_size l)\<rparr>])
            (n + 1)
        else depth_loop max_levels ls out n
      else (out, n))"

definition get_depth :: "u64 \<Rightarrow> 'c book \<Rightarrow> depth_snapshot \<Rightarrow> depth_snapshot" where
  "get_depth max_levels B out =
     (let (bs, nb) = depth_loop max_levels (bk_bids B) (ds_bids out) 0;
          (as, na) = depth_loop max_levels (bk_asks B) (ds_asks out) 0
      in \<lparr>ds_bids = bs, ds_asks = as, ds_bid_levels = nb, ds_ask_levels = na\<rparr>)"

text \<open>With no writer in between, the two reads of the sequence see the same value.\<close>

definition read_bbo :: "'c book \<Rightarrow> bbo_snapshot \<Rightarrow> bool \<times> bbo_snapshot" where
  "read_bbo B out =
     (let seq1 = bbo_sequence (bk_bbo B) in
      if seq1 AND 1 \<noteq> 0 then (False, out)
      else let out' = bk_bbo B; seq2 = bbo_sequence (bk_bbo B) in (seq1 = seq2, out'))"

definition ob_compact :: "'c book \<Rightarrow> 'c book" where
  "ob_compact B = B\<lparr>bk_bids := fb_compact_all (bk_bids B), bk_asks := fb_compact_all (bk_asks B)\<rparr>"

definition ob_prune :: "'c book \<Rightarrow> 'c book" where
  "ob_prune B = B\<lparr>bk_bids := fb_prune_empty (bk_bids B), bk_asks := fb_prune_empty (bk_asks B)\<rparr>"

definition ob_shutdown :: "'c book \<Rightarrow> 'c book" where
  "ob_shutdown B =
     (let B1 = B\<lparr>bk_shutdown := True\<rparr>;
          B2 = fold (\<lambda>(order_id, order) C.
                 free_ord order (upd_ord order (\<lambda>x. x\<lparr>o_status := CANCELLED\<rparr>) C))
                 (bk_lookup B1) B1
      in B2\<lparr>bk_lookup := [], bk_bids := [], bk_asks := []\<rparr>)"

end
