(* ===== verification/RTES_Engine.thy ===== *)
theory RTES_Engine
  imports RTES_SPSC RTES_MPMC RTES_Order_Book
begin

text \<open>
  The matching engine of one symbol (\<^verbatim>\<open>include/rtes/matching_engine.hpp\<close>,
  \<^verbatim>\<open>src/matching_engine.cpp\<close>): the requests it takes from its input ring, the order book
  it owns, the market data it publishes, and the worker loop. Logging and the waiting of an
  idle worker change nothing and are left out.
\<close>

section \<open>Messages\<close>

datatype order_request =
    NEW_ORDER "nat option"
  | CANCEL_ORDER OrderID fixed_string

definition make_new_order :: "nat option \<Rightarrow> order_request" where
  "make_new_order order = NEW_ORDER order"

definition make_cancel :: "OrderID \<Rightarrow> fixed_string \<Rightarrow> order_request" where
  "make_cancel order_id client = CANCEL_ORDER order_id client"

record bbo_data =
  bd_bid_price :: Price
  bd_bid_quantity :: Quantity
  bd_ask_price :: Price
  bd_ask_quantity :: Quantity

datatype md_event =
    MD_TRADE "byte list" trade
  | MD_BBO "byte list" bbo_data

definition md_make_trade :: "byte list \<Rightarrow> trade \<Rightarrow> md_event" where
  "md_make_trade symb t = MD_TRADE (take 16 symb) t"

definition md_make_bbo ::
  "byte list \<Rightarrow> Price \<Rightarrow> Quantity \<Rightarrow> Price \<Rightarrow> Quantity \<Rightarrow> md_event" where
  "md_make_bbo symb bid_px bid_qty ask_px ask_qty =
     MD_BBO (take 16 symb)
       \<lparr>bd_bid_price = bid_px, bd_bid_quantity = bid_qty, bd_ask_price = ask_px, bd_ask_quantity = ask_qty\<rparr>"

section \<open>State\<close>

definition BATCH_SIZE :: nat where "BATCH_SIZE = 256"
definition STATS_FLUSH_INTERVAL :: u64 where "STATS_FLUSH_INTERVAL = 4096"
definition COMPACT_INTERVAL :: u64 where "COMPACT_INTERVAL = 8192"
definition QUEUE_CAPACITY :: u64 where "QUEUE_CAPACITY = 65536"

record local_stats =
  ls_total_processed :: u64
  ls_orders_accepted :: u64
  ls_orders_rejected :: u64
  ls_cancels_accepted :: u64
  ls_cancels_rejected :: u64
  ls_trades_executed :: u64
  ls_md_drops :: u64
  ls_queue_full_count :: u64

definition local_stats_zero :: local_stats where
  "local_stats_zero =
     \<lparr>ls_total_processed = 0, ls_orders_accepted = 0, ls_orders_rejected = 0,
      ls_cancels_accepted = 0, ls_cancels_rejected = 0, ls_trades_executed = 0,
      ls_md_drops = 0, ls_queue_full_count = 0\<rparr>"

text \<open>
  The part of the engine that the trade callback reaches through its context pointer is the
  context of the book: the counters, the market data queue and the cached symbol. The pool
  that the engine and the book share is the pool of the book.
\<close>

record engine_ctx =
  ec_stats :: local_stats
  ec_md :: "md_event mpmc option"
  ec_symbol :: "byte list"

record engine =
  en_input :: "order_request spsc"
  en_book :: "engine_ctx book"
  en_orders_processed :: u64
  en_trades_executed :: u64
  en_orders_rejected :: u64
  en_md_drops :: u64
  en_running :: bool

abbreviation en_ctx :: "engine \<Rightarrow> engine_ctx" where
  "en_ctx E \<equiv> bk_ctx (en_book E)"

abbreviation en_stats :: "engine \<Rightarrow> local_stats" where
  "en_stats E \<equiv> ec_stats (en_ctx E)"

definition set_ctx :: "engine_ctx \<Rightarrow> engine \<Rightarrow> engine" where
  "set_ctx c E = E\<lparr>en_book := (en_book E)\<lparr>bk_ctx := c\<rparr>\<rparr>"

definition upd_stats :: "(local_stats \<Rightarrow> local_stats) \<Rightarrow> engine_ctx \<Rightarrow> engine_ctx" where
  "upd_stats f c = c\<lparr>ec_stats := f (ec_stats c)\<rparr>"

definition count_stats :: "(local_stats \<Rightarrow> local_stats) \<Rightarrow> engine \<Rightarrow> engine" where
  "count_stats f E = set_ctx (upd_stats f (en_ctx E)) E"

section \<open>Market data\<close>

definition push_event :: "md_event \<Rightarrow> md_event mpmc \<Rightarrow> engine_ctx \<Rightarrow> engine_ctx" where
  "push_event event q c =
     (let (pushed, q') = mq_try_push event q;
          c' = c\<lparr>ec_md := Some q'\<rparr>
      in if pushed then c' else upd_stats (\<lambda>s. s\<lparr>ls_md_drops := ls_md_drops s + 1\<rparr>) c')"

definition publish_trade :: "trade \<Rightarrow> engine_ctx \<Rightarrow> engine_ctx" where
  "publish_trade trade c =
     (case ec_md c of None \<Rightarrow> c | Some q \<Rightarrow> push_event (MD_TRADE (ec_symbol c) trade) q c)"

definition on_trade_internal :: "trade \<Rightarrow> engine_ctx \<Rightarrow> engine_ctx" where
  "on_trade_internal trade c =
     publish_trade trade (upd_stats (\<lambda>s. s\<lparr>ls_trades_executed := ls_trades_executed s + 1\<rparr>) c)"

definition publish_bbo_update :: "engine \<Rightarrow> engine" where
  "publish_bbo_update E =
     (case ec_md (en_ctx E) of
        None \<Rightarrow> E
      | Some q \<Rightarrow>
          let event = MD_BBO (ec_symbol (en_ctx E))
                \<lparr>bd_bid_price = best_bid (en_book E), bd_bid_quantity = bid_quantity (en_book E),
                 bd_ask_price = best_ask (en_book E), bd_ask_quantity = ask_quantity (en_book E)\<rparr>
          in set_ctx (push_event event q (en_ctx E)) E)"

section \<open>Construction and submission\<close>

definition symbol_cache :: "byte list \<Rightarrow> byte list" where
  "symbol_cache symb = take 15 symb @ replicate (16 - min 15 (length symb)) 0"

definition en_new :: "byte list \<Rightarrow> order mpool \<Rightarrow> (nat \<Rightarrow> Timestamp) \<Rightarrow> engine" where
  "en_new symb pool clk =
     \<lparr>en_input = sq_new (NEW_ORDER None) QUEUE_CAPACITY,
      en_book = ob_new symb pool (Some on_trade_internal)
        \<lparr>ec_stats = local_stats_zero, ec_md = None, ec_symbol = symbol_cache symb\<rparr> clk,
      en_orders_processed = 0, en_trades_executed = 0, en_orders_rejected = 0, en_md_drops = 0,
      en_running = False\<rparr>"

definition set_market_data_queue :: "md_event mpmc option \<Rightarrow> engine \<Rightarrow> engine" where
  "set_market_data_queue q E = set_ctx ((en_ctx E)\<lparr>ec_md := q\<rparr>) E"

definition submit_request :: "order_request \<Rightarrow> engine \<Rightarrow> bool \<times> engine" where
  "submit_request request E =
     (let (pushed, q) = sq_push request (en_input E);
          E' = E\<lparr>en_input := q\<rparr>
      in if pushed then (True, E')
         else (False, count_stats (\<lambda>s. s\<lparr>ls_queue_full_count := ls_queue_full_count s + 1\<rparr>) E'))"

definition en_submit_order :: "nat option \<Rightarrow> engine \<Rightarrow> bool \<times> engine" where
  "en_submit_order order E =
     (if order = None then (False, E) else submit_request (make_new_order order) E)"

definition en_cancel_order :: "OrderID \<Rightarrow> fixed_string \<Rightarrow> engine \<Rightarrow> bool \<times> engine" where
  "en_cancel_order order_id client_id E = submit_request (make_cancel order_id client_id) E"

section \<open>Processing\<close>

definition bbo_changed :: "Price \<Rightarrow> Price \<Rightarrow> engine \<Rightarrow> bool" where
  "bbo_changed old_bid old_ask E \<longleftrightarrow>
     best_bid (en_book E) \<noteq> old_bid \<or> best_ask (en_book E) \<noteq> old_ask"

definition process_new_order :: "nat option \<Rightarrow> engine \<Rightarrow> engine option" where
  "process_new_order optr E =
     (case optr of
        None \<Rightarrow> Some E
      | Some order \<Rightarrow>
          let old_bid = best_bid (en_book E); old_ask = best_ask (en_book E) in
          case add_order (Some order) (en_book E) of
            None \<Rightarrow> None
          | Some (Inr _, B) \<Rightarrow>
              let E1 = count_stats (\<lambda>s. s\<lparr>ls_orders_accepted := ls_orders_accepted s + 1\<rparr>)
                         (E\<lparr>en_book := B\<rparr>)
              in Some (if bbo_changed old_bid old_ask E1 then publish_bbo_update E1 else E1)
          | Some (Inl e, B) \<Rightarrow>
              let E1 = count_stats (\<lambda>s. s\<lparr>ls_orders_rejected := ls_orders_rejected s + 1\<rparr>)
                         (E\<lparr>en_book := B\<rparr>)
              in Some (E1\<lparr>en_book :=
                   free_ord order (upd_ord order (\<lambda>x. x\<lparr>o_status := REJECTED\<rparr>) (en_book E1))\<rparr>))"

definition process_cancel :: "OrderID \<Rightarrow> fixed_string \<Rightarrow> engine \<Rightarrow> engine" where
  "process_cancel order_id client_id E =
     (let old_bid = best_bid (en_book E); old_ask = best_ask (en_book E) in
      case cancel_order order_id (en_book E) of
        (Inr _, B) \<Rightarrow>
          let E1 = count_stats (\<lambda>s. s\<lparr>ls_cancels_accepted := ls_cancels_accepted s + 1\<rparr>)
                     (E\<lparr>en_book := B\<rparr>)
          in if bbo_changed old_bid old_ask E1 then publish_bbo_update E1 else E1
      | (Inl e, B) \<Rightarrow>
          count_stats (\<lambda>s. s\<lparr>ls_cancels_rejected := ls_cancels_rejected s + 1\<rparr>) (E\<lparr>en_book := B\<rparr>))"

definition handle_request :: "order_request \<Rightarrow> engine \<Rightarrow> engine option" where
  "handle_request request E =
     (case request of
        NEW_ORDER order \<Rightarrow> process_new_order order E
      | CANCEL_ORDER order_id client_id \<Rightarrow> Some (process_cancel order_id client_id E))"

text \<open>The first argument is how many requests the batch may still take.\<close>

fun drain_loop :: "nat \<Rightarrow> engine \<Rightarrow> (nat \<times> engine) option" where
  "drain_loop 0 E = Some (0, E)"
| "drain_loop (Suc n) E =
     (case sq_pop (en_input E) of
        (None, q) \<Rightarrow> Some (0, E\<lparr>en_input := q\<rparr>)
      | (Some request, q) \<Rightarrow>
          (case handle_request request (E\<lparr>en_input := q\<rparr>) of
             None \<Rightarrow> None
           | Some E1 \<Rightarrow> map_option (\<lambda>(count, E2). (Suc count, E2)) (drain_loop n E1)))"

definition drain_batch :: "engine \<Rightarrow> (nat \<times> engine) option" where
  "drain_batch E =
     map_option (\<lambda>(count, E1).
         (count, count_stats (\<lambda>s. s\<lparr>ls_total_processed := ls_total_processed s + of_nat count\<rparr>) E1))
       (drain_loop BATCH_SIZE E)"

section \<open>The worker loop\<close>

definition maybe_compact :: "engine \<Rightarrow> engine" where
  "maybe_compact E =
     (if ls_total_processed (en_stats E) mod COMPACT_INTERVAL = 0
      then E\<lparr>en_book := ob_prune (ob_compact (en_book E))\<rparr> else E)"

definition flush_stats :: "engine \<Rightarrow> engine" where
  "flush_stats E =
     E\<lparr>en_orders_processed := ls_orders_accepted (en_stats E),
       en_trades_executed := ls_trades_executed (en_stats E),
       en_orders_rejected := ls_orders_rejected (en_stats E),
       en_md_drops := ls_md_drops (en_stats E)\<rparr>"

definition maybe_flush_stats :: "engine \<Rightarrow> engine" where
  "maybe_flush_stats E =
     (if ls_total_processed (en_stats E) mod STATS_FLUSH_INTERVAL = 0 then flush_stats E else E)"

text \<open>One iteration of the hot loop, and what the worker does once it is told to stop.\<close>

definition run_iteration :: "engine \<Rightarrow> engine option" where
  "run_iteration E =
     map_option (\<lambda>(processed, E1). if 0 < processed then maybe_flush_stats (maybe_compact E1) else E1)
       (drain_batch E)"

partial_function (option) drain_rest :: "engine \<Rightarrow> engine option" where
  "drain_rest E =
     (case drain_batch E of
        None \<Rightarrow> None
      | Some (batch, E1) \<Rightarrow> if batch = 0 then Some E1 else drain_rest E1)"

definition run_exit :: "engine \<Rightarrow> engine option" where
  "run_exit E = map_option flush_stats (drain_rest E)"

definition en_start :: "engine \<Rightarrow> engine" where
  "en_start E = (if en_running E then E else E\<lparr>en_running := True\<rparr>)"

text \<open>\<open>stop\<close> joins the worker, so it returns once the worker has drained the ring.\<close>

definition en_stop :: "engine \<Rightarrow> engine option" where
  "en_stop E = (if \<not> en_running E then Some E else run_exit (E\<lparr>en_running := False\<rparr>))"

record engine_stats =
  es_orders_accepted :: u64
  es_orders_rejected :: u64
  es_trades_executed :: u64
  es_cancels_accepted :: u64
  es_cancels_rejected :: u64
  es_md_drops :: u64
  es_queue_full_count :: u64

definition get_stats :: "engine \<Rightarrow> engine_stats" where
  "get_stats E =
     \<lparr>es_orders_accepted = en_orders_processed E, es_orders_rejected = en_orders_rejected E,
      es_trades_executed = en_trades_executed E, es_cancels_accepted = 0, es_cancels_rejected = 0,
      es_md_drops = en_md_drops E, es_queue_full_count = 0\<rparr>"

end
