(* ===== verification/RTES_Risk.thy ===== *)
theory RTES_Risk
  imports Complex_Main RTES_Engine
begin

text \<open>
  The pre-trade risk manager (\<^verbatim>\<open>include/rtes/risk_manager.hpp\<close>,
  \<^verbatim>\<open>src/risk_manager.cpp\<close>): validation of new orders, ownership of cancels, routing to
  the matching engines, and the worker loop. Logging and the idle wait are left out.

  A finite \<open>double\<close> of the configuration is its rational value. Maps keyed by
  \<open>Symbol\<close> and \<open>ClientID\<close> are association lists keyed by the C string of the key,
  which is what the equality of \<open>FixedString\<close> compares.
\<close>

section \<open>Configuration and state\<close>

record symbol_config =
  sc_symbol :: "byte list"
  sc_tick_size :: rat
  sc_lot_size :: u64
  sc_price_collar_pct :: rat

record risk_config =
  rc_max_order_size :: u64
  rc_max_notional_per_client :: rat
  rc_max_orders_per_second :: u32
  rc_price_collar_enabled :: bool

definition double_to_u64 :: "rat \<Rightarrow> u64" where
  "double_to_u64 x = of_int \<lfloor>x\<rfloor>"

datatype risk_result =
    APPROVED | REJECTED_SIZE | REJECTED_PRICE | REJECTED_CREDIT | REJECTED_RATE_LIMIT
  | REJECTED_DUPLICATE | REJECTED_SYMBOL | REJECTED_OWNERSHIP | REJECTED_QUEUE_FULL

datatype risk_request =
    RISK_NEW "nat option"
  | RISK_CANCEL OrderID fixed_string

record client_risk_state =
  cr_active_orders :: "OrderID set"
  cr_notional :: u64
  cr_orders_in_window :: u32
  cr_window_start :: Timestamp

record risk_stats =
  rs_processed :: u64
  rs_approved :: u64
  rs_rejected :: u64
  rs_cancels_accepted :: u64
  rs_cancels_rejected :: u64

definition risk_stats_zero :: risk_stats where
  "risk_stats_zero = \<lparr>rs_processed = 0, rs_approved = 0, rs_rejected = 0,
     rs_cancels_accepted = 0, rs_cancels_rejected = 0\<rparr>"

definition RISK_BATCH_SIZE :: nat where "RISK_BATCH_SIZE = 128"
definition RISK_STATS_FLUSH :: u64 where "RISK_STATS_FLUSH = 4096"
definition RISK_QUEUE_CAPACITY :: u64 where "RISK_QUEUE_CAPACITY = 65536"
definition RATE_LIMIT_WINDOW_NS :: u64 where "RATE_LIMIT_WINDOW_NS = 1000000000"

text \<open>
  A \<open>MatchingEngine*\<close> is an index into the engines of the exchange. \<open>rm_clock\<close> is what
  \<open>now_timestamp\<close> returns, read by read.
\<close>

record risk =
  rm_config :: risk_config
  rm_max_notional_scaled :: u64
  rm_symbol_configs :: "(byte list \<times> symbol_config) list"
  rm_matching_engines :: "(byte list \<times> nat) list"
  rm_reference_prices :: "(byte list \<times> Price) list"
  rm_clients :: "(byte list \<times> client_risk_state) list"
  rm_order_symbol :: "(OrderID \<times> fixed_string) list"
  rm_input :: "risk_request spsc"
  rm_running :: bool
  rm_local :: risk_stats
  rm_atomic :: risk_stats
  rm_clock :: "nat \<Rightarrow> Timestamp"
  rm_ticks :: nat

text \<open>What the risk manager shares with the rest of the process.\<close>

record world =
  w_pool :: "order mpool"
  w_engines :: "engine list"
  w_md :: "md_event mpmc"

definition w_ord :: "world \<Rightarrow> nat \<Rightarrow> order" where
  "w_ord W p = mp_pool (w_pool W) ! p"

definition w_upd_ord :: "nat \<Rightarrow> (order \<Rightarrow> order) \<Rightarrow> world \<Rightarrow> world" where
  "w_upd_ord p f W =
     W\<lparr>w_pool := (w_pool W)\<lparr>mp_pool := (mp_pool (w_pool W))[p := f (w_ord W p)]\<rparr>\<rparr>"

section \<open>Construction and submission\<close>

text \<open>The rounding of a product of doubles is the argument \<open>rnd\<close>.\<close>

definition rm_new ::
  "(rat \<Rightarrow> rat) \<Rightarrow> risk_config \<Rightarrow> symbol_config list \<Rightarrow> (nat \<Rightarrow> Timestamp) \<Rightarrow> risk" where
  "rm_new rnd config symbols clk =
     \<lparr>rm_config = config,
      rm_max_notional_scaled =
        double_to_u64 (rnd (rc_max_notional_per_client config * of_nat (unat PRICE_SCALE))),
      rm_symbol_configs =
        fold (\<lambda>s m. AList.update (cstr (fs_new symbol_size (Some (sc_symbol s)))) s m) symbols [],
      rm_matching_engines = [], rm_reference_prices = [], rm_clients = [], rm_order_symbol = [],
      rm_input = sq_new (RISK_NEW None) RISK_QUEUE_CAPACITY, rm_running = False,
      rm_local = risk_stats_zero, rm_atomic = risk_stats_zero, rm_clock = clk, rm_ticks = 0\<rparr>"

definition rm_submit_order :: "nat option \<Rightarrow> risk \<Rightarrow> bool \<times> risk" where
  "rm_submit_order order R =
     (if order = None then (False, R)
      else let (pushed, q) = sq_push (RISK_NEW order) (rm_input R) in (pushed, R\<lparr>rm_input := q\<rparr>))"

definition rm_submit_cancel :: "OrderID \<Rightarrow> fixed_string \<Rightarrow> risk \<Rightarrow> bool \<times> risk" where
  "rm_submit_cancel order_id client_id R =
     (let (pushed, q) = sq_push (RISK_CANCEL order_id client_id) (rm_input R) in (pushed, R\<lparr>rm_input := q\<rparr>))"

definition add_matching_engine :: "byte list \<Rightarrow> nat \<Rightarrow> risk \<Rightarrow> risk" where
  "add_matching_engine symb engine R =
     R\<lparr>rm_matching_engines :=
         AList.update (cstr (fs_new symbol_size (Some symb))) engine (rm_matching_engines R)\<rparr>"

definition update_reference_price :: "fixed_string \<Rightarrow> Price \<Rightarrow> risk \<Rightarrow> risk" where
  "update_reference_price symb price R =
     R\<lparr>rm_reference_prices := AList.update (cstr symb) price (rm_reference_prices R)\<rparr>"

section \<open>Checks\<close>

definition now_timestamp :: "risk \<Rightarrow> Timestamp \<times> risk" where
  "now_timestamp R = (rm_clock R (rm_ticks R), R\<lparr>rm_ticks := Suc (rm_ticks R)\<rparr>)"

definition check_price_collar_int :: "order \<Rightarrow> symbol_config \<Rightarrow> risk \<Rightarrow> bool" where
  "check_price_collar_int order sym_config R =
     (case map_of (rm_reference_prices R) (cstr (o_symbol order)) of
        None \<Rightarrow> True
      | Some ref_price \<Rightarrow>
          if ref_price = 0 then True
          else
            let collar_pct = double_to_u64 (sc_price_collar_pct sym_config);
                order_scaled = (ucast (o_price order) :: u128) * 100;
                ref_lower = (ucast ref_price :: u128) * ucast (100 - collar_pct);
                ref_upper = (ucast ref_price :: u128) * ucast (100 + collar_pct)
            in ref_lower \<le> order_scaled \<and> order_scaled \<le> ref_upper)"

definition calculate_notional_int :: "order \<Rightarrow> u64" where
  "calculate_notional_int order = o_price order * o_quantity order"

definition check_rate_limit :: "client_risk_state \<Rightarrow> risk \<Rightarrow> bool \<times> client_risk_state \<times> risk" where
  "check_rate_limit client R =
     (let (now, R1) = now_timestamp R;
          client1 = (if RATE_LIMIT_WINDOW_NS \<le> now - cr_window_start client
                     then client\<lparr>cr_orders_in_window := 0, cr_window_start := now\<rparr> else client)
      in if rc_max_orders_per_second (rm_config R) \<le> cr_orders_in_window client1
         then (False, client1, R1)
         else (True, client1\<lparr>cr_orders_in_window := cr_orders_in_window client1 + 1\<rparr>, R1))"

text \<open>A reference to a client's state is the client's key.\<close>

definition put_client :: "byte list \<Rightarrow> client_risk_state \<Rightarrow> risk \<Rightarrow> risk" where
  "put_client k c R = R\<lparr>rm_clients := AList.update k c (rm_clients R)\<rparr>"

definition get_or_create_client :: "byte list \<Rightarrow> risk \<Rightarrow> client_risk_state \<times> risk" where
  "get_or_create_client k R =
     (case map_of (rm_clients R) k of
        Some c \<Rightarrow> (c, R)
      | None \<Rightarrow>
          let (now, R1) = now_timestamp R;
              c = \<lparr>cr_active_orders = {}, cr_notional = 0, cr_orders_in_window = 0, cr_window_start = now\<rparr>
          in (c, put_client k c R1))"

definition count_risk :: "(risk_stats \<Rightarrow> risk_stats) \<Rightarrow> risk \<Rightarrow> risk" where
  "count_risk f R = R\<lparr>rm_local := f (rm_local R)\<rparr>"

text \<open>The reason of a rejection goes to the log; here it is the value returned.\<close>

definition reject_order :: "nat \<Rightarrow> risk_result \<Rightarrow> risk \<Rightarrow> world \<Rightarrow> risk_result \<times> risk \<times> world" where
  "reject_order order reason R W =
     (reason, count_risk (\<lambda>s. s\<lparr>rs_rejected := rs_rejected s + 1\<rparr>) R,
      w_upd_ord order (\<lambda>x. x\<lparr>o_status := REJECTED\<rparr>) W)"

section \<open>Processing\<close>

definition track_order :: "byte list \<Rightarrow> OrderID \<Rightarrow> u64 \<Rightarrow> fixed_string \<Rightarrow> client_risk_state \<Rightarrow> risk \<Rightarrow> risk" where
  "track_order k order_id notional symb client R =
     (let R1 = put_client k (client\<lparr>cr_active_orders := insert order_id (cr_active_orders client),
                                    cr_notional := cr_notional client + notional\<rparr>) R
      in R1\<lparr>rm_order_symbol := AList.update order_id symb (rm_order_symbol R1)\<rparr>)"

definition untrack_order :: "byte list \<Rightarrow> OrderID \<Rightarrow> u64 \<Rightarrow> risk \<Rightarrow> risk" where
  "untrack_order k order_id notional R =
     (case map_of (rm_clients R) k of
        None \<Rightarrow> R
      | Some client \<Rightarrow>
          let R1 = put_client k (client\<lparr>cr_active_orders := cr_active_orders client - {order_id},
                                        cr_notional := cr_notional client - notional\<rparr>) R
          in R1\<lparr>rm_order_symbol := AList.delete order_id (rm_order_symbol R1)\<rparr>)"

definition route_order ::
  "nat \<Rightarrow> byte list \<Rightarrow> u64 \<Rightarrow> risk \<Rightarrow> world \<Rightarrow> risk_result \<times> risk \<times> world" where
  "route_order order k notional R W =
     (let x = w_ord W order in
      case map_of (rm_matching_engines R) (cstr (o_symbol x)) of
        Some e \<Rightarrow>
          let (submitted, E) = en_submit_order (Some order) (w_engines W ! e);
              W1 = W\<lparr>w_engines := (w_engines W)[e := E]\<rparr>
          in if \<not> submitted
             then reject_order order REJECTED_QUEUE_FULL (untrack_order k (o_id x) notional R) W1
             else (APPROVED, count_risk (\<lambda>s. s\<lparr>rs_approved := rs_approved s + 1\<rparr>) R,
                   w_upd_ord order (\<lambda>x. x\<lparr>o_status := ACCEPTED\<rparr>) W1)
      | None \<Rightarrow> reject_order order REJECTED_SYMBOL (untrack_order k (o_id x) notional R) W)"

definition risk_process_new_order :: "nat option \<Rightarrow> risk \<Rightarrow> world \<Rightarrow> risk_result option \<times> risk \<times> world" where
  "risk_process_new_order optr R W =
     (case optr of
        None \<Rightarrow> (None, count_risk (\<lambda>s. s\<lparr>rs_rejected := rs_rejected s + 1\<rparr>) R, W)
      | Some order \<Rightarrow>
          let x = w_ord W order; k = cstr (o_client x) in
          apfst Some
          (case map_of (rm_symbol_configs R) (cstr (o_symbol x)) of
             None \<Rightarrow> reject_order order REJECTED_SYMBOL R W
           | Some sym_config \<Rightarrow>
               if o_quantity x = 0 \<or> rc_max_order_size (rm_config R) < o_quantity x
               then reject_order order REJECTED_SIZE R W
               else
                 let (client0, R1) = get_or_create_client k R;
                     (in_rate, client, R2) = check_rate_limit client0 R1;
                     R3 = put_client k client R2
                 in if \<not> in_rate then reject_order order REJECTED_RATE_LIMIT R3 W
                    else if o_id x \<in> cr_active_orders client
                    then reject_order order REJECTED_DUPLICATE R3 W
                    else if rc_price_collar_enabled (rm_config R) \<and> \<not> check_price_collar_int x sym_config R3
                    then reject_order order REJECTED_PRICE R3 W
                    else
                      let notional = calculate_notional_int x in
                      if rm_max_notional_scaled R < cr_notional client + notional
                      then reject_order order REJECTED_CREDIT R3 W
                      else route_order order k notional
                             (track_order k (o_id x) notional (o_symbol x) client R3) W))"

definition route_cancel :: "OrderID \<Rightarrow> fixed_string \<Rightarrow> risk \<Rightarrow> world \<Rightarrow> risk \<times> world" where
  "route_cancel order_id client_id R W =
     (case map_of (rm_order_symbol R) order_id of
        None \<Rightarrow> (R, W)
      | Some symb \<Rightarrow>
          (R\<lparr>rm_order_symbol := AList.delete order_id (rm_order_symbol R)\<rparr>,
           case map_of (rm_matching_engines R) (cstr symb) of
             None \<Rightarrow> W
           | Some e \<Rightarrow>
               W\<lparr>w_engines := (w_engines W)[e := snd (en_cancel_order order_id client_id (w_engines W ! e))]\<rparr>))"

definition risk_process_cancel :: "OrderID \<Rightarrow> fixed_string \<Rightarrow> risk \<Rightarrow> world \<Rightarrow> risk \<times> world" where
  "risk_process_cancel order_id client_id R W =
     (let k = cstr client_id;
          reject = (count_risk (\<lambda>s. s\<lparr>rs_cancels_rejected := rs_cancels_rejected s + 1\<rparr>) R, W)
      in case map_of (rm_clients R) k of
           None \<Rightarrow> reject
         | Some client \<Rightarrow>
             if order_id \<notin> cr_active_orders client then reject
             else
               let (R1, W1) = route_cancel order_id client_id R W;
                   R2 = put_client k (client\<lparr>cr_active_orders := cr_active_orders client - {order_id}\<rparr>) R1
               in (count_risk (\<lambda>s. s\<lparr>rs_cancels_accepted := rs_cancels_accepted s + 1\<rparr>) R2, W1))"

definition risk_handle :: "risk_request \<Rightarrow> risk \<Rightarrow> world \<Rightarrow> risk \<times> world" where
  "risk_handle request R W =
     (case request of
        RISK_NEW order \<Rightarrow> snd (risk_process_new_order order R W)
      | RISK_CANCEL order_id client_id \<Rightarrow> risk_process_cancel order_id client_id R W)"

fun risk_drain_loop :: "nat \<Rightarrow> risk \<Rightarrow> world \<Rightarrow> nat \<times> risk \<times> world" where
  "risk_drain_loop 0 R W = (0, R, W)"
| "risk_drain_loop (Suc n) R W =
     (case sq_pop (rm_input R) of
        (None, q) \<Rightarrow> (0, R\<lparr>rm_input := q\<rparr>, W)
      | (Some request, q) \<Rightarrow>
          let (R1, W1) = risk_handle request (R\<lparr>rm_input := q\<rparr>) W;
              (count, R2, W2) = risk_drain_loop n R1 W1
          in (Suc count, R2, W2))"

definition risk_drain_batch :: "risk \<Rightarrow> world \<Rightarrow> nat \<times> risk \<times> world" where
  "risk_drain_batch R W =
     (let (count, R1, W1) = risk_drain_loop RISK_BATCH_SIZE R W
      in (count, count_risk (\<lambda>s. s\<lparr>rs_processed := rs_processed s + of_nat count\<rparr>) R1, W1))"

section \<open>The worker\<close>

definition risk_flush_stats :: "risk \<Rightarrow> risk" where
  "risk_flush_stats R = R\<lparr>rm_atomic := rm_local R\<rparr>"

definition risk_maybe_flush_stats :: "risk \<Rightarrow> risk" where
  "risk_maybe_flush_stats R =
     (if rs_processed (rm_local R) mod RISK_STATS_FLUSH = 0 then risk_flush_stats R else R)"

definition risk_run_iteration :: "risk \<Rightarrow> world \<Rightarrow> risk \<times> world" where
  "risk_run_iteration R W =
     (let (processed, R1, W1) = risk_drain_batch R W
      in (if 0 < processed then risk_maybe_flush_stats R1 else R1, W1))"

partial_function (option) risk_drain_rest :: "risk \<Rightarrow> world \<Rightarrow> (risk \<times> world) option" where
  "risk_drain_rest R W =
     (let (batch, R1, W1) = risk_drain_batch R W
      in if batch = 0 then Some (R1, W1) else risk_drain_rest R1 W1)"

definition rm_start :: "risk \<Rightarrow> risk" where
  "rm_start R = (if rm_running R then R else R\<lparr>rm_running := True\<rparr>)"

definition rm_stop :: "risk \<Rightarrow> world \<Rightarrow> (risk \<times> world) option" where
  "rm_stop R W =
     (if \<not> rm_running R then Some (R, W)
      else map_option (\<lambda>(R1, W1). (risk_flush_stats (risk_flush_stats R1), W1))
             (risk_drain_rest (R\<lparr>rm_running := False\<rparr>) W))"

definition rm_get_stats :: "risk \<Rightarrow> risk_stats" where
  "rm_get_stats R = rm_atomic R"

end
