(* ===== verification/RTES_Exchange.thy ===== *)
theory RTES_Exchange
  imports RTES_Risk
begin

text \<open>
  The exchange (\<^verbatim>\<open>include/rtes/exchange.hpp\<close>, \<^verbatim>\<open>src/exchange.cpp\<close>, with the structures of
  \<^verbatim>\<open>include/rtes/config.hpp\<close>): construction of the pool, the market data queue, the matching
  engines and the risk manager from a configuration, their wiring, the lifecycle, and the
  health and statistics snapshots.
\<close>

section \<open>Configuration\<close>

record exchange_config =
  xc_name :: string
  xc_tcp_port :: u16
  xc_udp_multicast_group :: string
  xc_udp_port :: u16
  xc_metrics_port :: u16

record performance_config =
  pc_order_pool_size :: u32
  pc_queue_capacity :: u32
  pc_enable_cpu_pinning :: bool
  pc_tcp_nodelay :: bool
  pc_udp_buffer_size :: u32
  pc_market_data_queue_size :: u32

record logging_config =
  lc_level :: string
  lc_rate_limit_ms :: u32
  lc_enable_structured :: bool

record persistence_config =
  sc_enable_event_log :: bool
  sc_snapshot_interval_ms :: u32
  sc_log_directory :: string

record config =
  cf_exchange :: exchange_config
  cf_symbols :: "symbol_config list"
  cf_risk :: risk_config
  cf_performance :: performance_config
  cf_logging :: logging_config
  cf_persistence :: persistence_config

section \<open>Shared objects\<close>

text \<open>
  An engine works on the pool and the queue of the world: they are put into its book before it
  runs and taken out afterwards. A worker's step is \<open>w_run\<close>; None is a step that does not return.
\<close>

definition w_load :: "nat \<Rightarrow> world \<Rightarrow> engine" where
  "w_load i W =
     (let E = w_engines W ! i;
          c = (en_ctx E)\<lparr>ec_md := map_option (\<lambda>_. w_md W) (ec_md (en_ctx E))\<rparr>
      in E\<lparr>en_book := (en_book E)\<lparr>bk_pool := w_pool W, bk_ctx := c\<rparr>\<rparr>)"

definition w_store :: "nat \<Rightarrow> engine \<Rightarrow> world \<Rightarrow> world" where
  "w_store i E W =
     W\<lparr>w_pool := bk_pool (en_book E), w_engines := (w_engines W)[i := E],
       w_md := (case ec_md (en_ctx E) of None \<Rightarrow> w_md W | Some q \<Rightarrow> q)\<rparr>"

definition w_run :: "(engine \<Rightarrow> engine option) \<Rightarrow> nat \<Rightarrow> world \<Rightarrow> world option" where
  "w_run f i W = map_option (\<lambda>E. w_store i E W) (f (w_load i W))"

section \<open>State and construction\<close>

datatype exchange_state = CREATED | STARTING | RUNNING | STOPPING | STOPPED

datatype exchange_error = Null_config | Pool_invalid pool_error | Start_in_invalid_state

text \<open>
  \<open>x_engines\<close> is the map from symbols to engines, \<open>x_iter\<close> the order in which the hash table
  visits its entries.
\<close>

record exchange =
  x_config :: config
  x_state :: exchange_state
  x_risk :: risk
  x_engines :: "(byte list \<times> nat) list"
  x_world :: world
  x_iter :: "(byte list \<times> nat) list \<Rightarrow> (byte list \<times> nat) list"

definition md_event_default :: md_event where
  "md_event_default = MD_TRADE (replicate 16 0)
     \<lparr>t_id = 0, t_buy_order_id = 0, t_sell_order_id = 0, t_price = 0, t_quantity = 0, t_timestamp = 0,
      t_symbol = fs_default symbol_size\<rparr>"

definition initialize_order_pool :: "config \<Rightarrow> pool_error + order mpool" where
  "initialize_order_pool cfg = mp_new default_order (ucast (pc_order_pool_size (cf_performance cfg)))"

definition initialize_market_data_queue :: "config \<Rightarrow> md_event mpmc" where
  "initialize_market_data_queue cfg =
     mq_new md_event_default (ucast (pc_market_data_queue_size (cf_performance cfg)))"

text \<open>A symbol that is configured twice gets a new engine in the place of the first.\<close>

definition install_engine ::
  "byte list \<Rightarrow> engine \<Rightarrow> (byte list \<times> nat) list \<times> engine list \<Rightarrow> (byte list \<times> nat) list \<times> engine list" where
  "install_engine k E s =
     (case s of (m, Es) \<Rightarrow>
        case map_of m k of
          Some i \<Rightarrow> (m, Es[i := E])
        | None \<Rightarrow> (AList.update k (length Es) m, Es @ [E]))"

definition initialize_matching_engines ::
  "order mpool \<Rightarrow> (nat \<Rightarrow> Timestamp) \<Rightarrow> config \<Rightarrow> (byte list \<times> nat) list \<times> engine list" where
  "initialize_matching_engines pool clk cfg =
     fold (\<lambda>sym_config.
             install_engine (cstr (fs_new symbol_size (Some (sc_symbol sym_config))))
               (en_new (sc_symbol sym_config) pool clk))
       (cf_symbols cfg) ([], [])"

definition initialize_risk_manager :: "(rat \<Rightarrow> rat) \<Rightarrow> (nat \<Rightarrow> Timestamp) \<Rightarrow> config \<Rightarrow> risk" where
  "initialize_risk_manager rnd clk cfg = rm_new rnd (cf_risk cfg) (cf_symbols cfg) clk"

definition wire_components :: "exchange \<Rightarrow> exchange" where
  "wire_components X =
     (let es = x_iter X (x_engines X); W = x_world X;
          attach = (\<lambda>(k, i) Es. Es[i := set_market_data_queue (Some (w_md W)) (Es ! i)])
      in X\<lparr>x_world := W\<lparr>w_engines := fold attach es (w_engines W)\<rparr>,
           x_risk := fold (\<lambda>(k, i). add_matching_engine k i) es (x_risk X)\<rparr>)"

definition exchange_new ::
  "(rat \<Rightarrow> rat) \<Rightarrow> (nat \<Rightarrow> Timestamp) \<Rightarrow> ((byte list \<times> nat) list \<Rightarrow> (byte list \<times> nat) list) \<Rightarrow>
   config option \<Rightarrow> exchange_error + exchange" where
  "exchange_new rnd clk iter cfg =
     (case cfg of
        None \<Rightarrow> Inl Null_config
      | Some c \<Rightarrow>
          case initialize_order_pool c of
            Inl e \<Rightarrow> Inl (Pool_invalid e)
          | Inr pool \<Rightarrow>
              let (m, Es) = initialize_matching_engines pool clk c
              in Inr (wire_components
                   \<lparr>x_config = c, x_state = CREATED, x_risk = initialize_risk_manager rnd clk c,
                    x_engines = m,
                    x_world = \<lparr>w_pool = pool, w_engines = Es, w_md = initialize_market_data_queue c\<rparr>,
                    x_iter = iter\<rparr>))"

section \<open>Lifecycle\<close>

definition start_engines :: "(byte list \<times> nat) list \<Rightarrow> world \<Rightarrow> world" where
  "start_engines es W =
     W\<lparr>w_engines := fold (\<lambda>(k, i) Es. Es[i := en_start (Es ! i)]) es (w_engines W)\<rparr>"

definition exchange_start :: "exchange \<Rightarrow> exchange_error + exchange" where
  "exchange_start X =
     (if x_state X \<noteq> CREATED then Inl Start_in_invalid_state
      else Inr (X\<lparr>x_world := start_engines (x_iter X (x_engines X)) (x_world X),
                  x_risk := rm_start (x_risk X), x_state := RUNNING\<rparr>))"

fun stop_engines :: "(byte list \<times> nat) list \<Rightarrow> world \<Rightarrow> world option" where
  "stop_engines [] W = Some W"
| "stop_engines ((k, i) # es) W =
     (case w_run en_stop i W of None \<Rightarrow> None | Some W1 \<Rightarrow> stop_engines es W1)"

definition exchange_stop :: "exchange \<Rightarrow> exchange option" where
  "exchange_stop X =
     (if x_state X \<noteq> RUNNING \<and> x_state X \<noteq> STARTING then Some X
      else case rm_stop (x_risk X) (x_world X) of
             None \<Rightarrow> None
           | Some (R, W) \<Rightarrow>
               map_option (\<lambda>W1. X\<lparr>x_risk := R, x_world := W1, x_state := STOPPED\<rparr>)
                 (stop_engines (x_iter X (x_engines X)) W))"

definition exchange_destroy :: "exchange \<Rightarrow> exchange option" where
  "exchange_destroy X =
     (if x_state X = RUNNING \<or> x_state X = STARTING then exchange_stop X else Some X)"

definition exchange_is_running :: "exchange \<Rightarrow> bool" where
  "exchange_is_running X \<longleftrightarrow> x_state X = RUNNING"

definition get_matching_engine :: "fixed_string \<Rightarrow> exchange \<Rightarrow> nat option" where
  "get_matching_engine symb X = map_of (x_engines X) (cstr symb)"

definition get_symbols :: "exchange \<Rightarrow> fixed_string list" where
  "get_symbols X = map (\<lambda>(k, i). fs_new symbol_size (Some k)) (x_iter X (x_engines X))"

definition symbol_count :: "exchange \<Rightarrow> nat" where
  "symbol_count X = length (x_engines X)"

section \<open>Monitoring\<close>

record component_health =
  ch_name :: string
  ch_healthy :: bool
  ch_detail :: string

record exchange_health =
  xh_overall_healthy :: bool
  xh_state :: exchange_state
  xh_components :: "component_health list"

definition std_to_string :: "u64 \<Rightarrow> string" where
  "std_to_string x = decimal (unat x)"

definition bytes_string :: "byte list \<Rightarrow> string" where
  "bytes_string bs = map (\<lambda>b. char_of (unat b)) bs"

text \<open>
  The quotient of two doubles is rounded by \<open>rnd\<close>; the literal 0.95 is the double next to it.
  \<open>show_double\<close> is the conversion of a double to text.
\<close>

definition pool_utilization :: "(rat \<Rightarrow> rat) \<Rightarrow> 'a mpool \<Rightarrow> rat" where
  "pool_utilization rnd P = rnd (of_nat (unat (mp_allocated P)) / of_nat (unat (mp_capacity P)))"

definition POOL_HEALTHY_BELOW :: rat where
  "POOL_HEALTHY_BELOW = 4278419646001971 / 4503599627370496"

definition engine_health :: "byte list \<Rightarrow> engine \<Rightarrow> component_health" where
  "engine_health k E =
     \<lparr>ch_name = ''matching_engine_'' @ bytes_string k, ch_healthy = en_running E,
      ch_detail = ''orders='' @ std_to_string (es_orders_accepted (get_stats E)) @
        '' trades='' @ std_to_string (es_trades_executed (get_stats E))\<rparr>"

definition get_health :: "(rat \<Rightarrow> rat) \<Rightarrow> (rat \<Rightarrow> string) \<Rightarrow> exchange \<Rightarrow> exchange_health" where
  "get_health rnd show_double X =
     (let up = (x_state X = RUNNING);
          risk = \<lparr>ch_name = ''risk_manager'', ch_healthy = up,
                  ch_detail = ''processed='' @ std_to_string (rs_processed (rm_get_stats (x_risk X)))\<rparr>;
          engines = map (\<lambda>(k, i). engine_health k (w_engines (x_world X) ! i)) (x_iter X (x_engines X));
          utilization = pool_utilization rnd (w_pool (x_world X));
          pool_healthy = (utilization < POOL_HEALTHY_BELOW);
          pool = \<lparr>ch_name = ''order_pool'', ch_healthy = pool_healthy,
                  ch_detail = ''utilization='' @ show_double (rnd (utilization * 100)) @ ''%''\<rparr>
      in \<lparr>xh_overall_healthy = (up \<and> (\<forall>e\<in>set engines. ch_healthy e) \<and> pool_healthy),
          xh_state = x_state X, xh_components = risk # engines @ [pool]\<rparr>)"

record per_engine_stats =
  pe_symbol :: fixed_string
  pe_orders_processed :: u64
  pe_trades_executed :: u64

record exchange_stats =
  xs_total_orders_processed :: u64
  xs_total_orders_approved :: u64
  xs_total_orders_rejected :: u64
  xs_total_trades_executed :: u64
  xs_total_cancels :: u64
  xs_market_data_events :: u64
  xs_market_data_drops :: u64
  xs_market_data_queue_depth :: u64
  xs_order_pool_capacity :: u64
  xs_order_pool_allocated :: u64
  xs_order_pool_high_water :: u64
  xs_order_pool_utilization :: rat
  xs_engines :: "per_engine_stats list"

definition exchange_get_stats :: "(rat \<Rightarrow> rat) \<Rightarrow> exchange \<Rightarrow> exchange_stats" where
  "exchange_get_stats rnd X =
     (let risk_stats = rm_get_stats (x_risk X);
          engs = map (\<lambda>(k, i). (k, get_stats (w_engines (x_world X) ! i))) (x_iter X (x_engines X));
          pool_stats = mp_get_stats (w_pool (x_world X))
      in \<lparr>xs_total_orders_processed = rs_processed risk_stats,
          xs_total_orders_approved = rs_approved risk_stats,
          xs_total_orders_rejected = rs_rejected risk_stats,
          xs_total_trades_executed = sum_list (map (\<lambda>(k, s). es_trades_executed s) engs),
          xs_total_cancels = rs_cancels_accepted risk_stats + rs_cancels_rejected risk_stats,
          xs_market_data_events = 0,
          xs_market_data_drops = sum_list (map (\<lambda>(k, s). es_md_drops s) engs),
          xs_market_data_queue_depth = mq_size_approx (w_md (x_world X)),
          xs_order_pool_capacity = ps_capacity pool_stats,
          xs_order_pool_allocated = ps_allocated pool_stats,
          xs_order_pool_high_water = ps_high_water_mark pool_stats,
          xs_order_pool_utilization = pool_utilization rnd (w_pool (x_world X)),
          xs_engines = map (\<lambda>(k, s). \<lparr>pe_symbol = fs_new symbol_size (Some k),
             pe_orders_processed = es_orders_accepted s, pe_trades_executed = es_trades_executed s\<rparr>) engs\<rparr>)"

end
