(* ===== verification/RTES_Book_Inv.thy ===== *)
theory RTES_Book_Inv
  imports RTES_Order_Book
begin

text \<open>
  The representation invariant of the order book, what each primitive of the book changes and
  leaves alone, and the effect of one iteration of the matching sweep on the invariant.
\<close>

section \<open>Frame of the primitives\<close>

abbreviation slots_of :: "'c book \<Rightarrow> nat" where
  "slots_of B \<equiv> length (mp_pool (bk_pool B))"

lemma ord_upd_ord [simp]:
  "p < slots_of B \<Longrightarrow> ord (upd_ord p f B) q = (if q = p then f (ord B p) else ord B q)"
  by (simp add: ord_def upd_ord_def nth_list_update)

lemma upd_ord_frame [simp, frame]:
  "lad d (upd_ord p f B) = lad d B" "bk_lookup (upd_ord p f B) = bk_lookup B"
  "bk_bids (upd_ord p f B) = bk_bids B" "bk_asks (upd_ord p f B) = bk_asks B"
  "slots_of (upd_ord p f B) = slots_of B" "bk_next_trade_id (upd_ord p f B) = bk_next_trade_id B"
  "bk_shutdown (upd_ord p f B) = bk_shutdown B" "bk_callback (upd_ord p f B) = bk_callback B"
  "bk_ctx (upd_ord p f B) = bk_ctx B" "bk_bbo (upd_ord p f B) = bk_bbo B"
  "bk_symbol (upd_ord p f B) = bk_symbol B" "bk_clock (upd_ord p f B) = bk_clock B"
  "bk_ticks (upd_ord p f B) = bk_ticks B" "bk_trades (upd_ord p f B) = bk_trades B"
  "mp_inv (bk_pool (upd_ord p f B)) = mp_inv (bk_pool B)"
  "mp_free (bk_pool (upd_ord p f B)) = mp_free (bk_pool B)"
  "mp_slots (bk_pool (upd_ord p f B)) = mp_slots (bk_pool B)"
  by (simp_all add: upd_ord_def lad_def)

lemma free_ord_frame [simp, frame]:
  "ord (free_ord p B) q = ord B q" "lad d (free_ord p B) = lad d B"
  "bk_lookup (free_ord p B) = bk_lookup B" "slots_of (free_ord p B) = slots_of B"
  "bk_bids (free_ord p B) = bk_bids B" "bk_asks (free_ord p B) = bk_asks B"
  "bk_next_trade_id (free_ord p B) = bk_next_trade_id B"
  "bk_shutdown (free_ord p B) = bk_shutdown B" "bk_callback (free_ord p B) = bk_callback B"
  "bk_ctx (free_ord p B) = bk_ctx B" "bk_bbo (free_ord p B) = bk_bbo B"
  "bk_symbol (free_ord p B) = bk_symbol B" "bk_clock (free_ord p B) = bk_clock B"
  "bk_ticks (free_ord p B) = bk_ticks B" "bk_trades (free_ord p B) = bk_trades B"
  by (simp_all add: free_ord_def lad_def ord_def)

lemma set_lad_frame [simp, frame]:
  "lad e (set_lad d ls B) = (if e = d then ls else lad e B)"
  "ord (set_lad d ls B) p = ord B p" "bk_pool (set_lad d ls B) = bk_pool B"
  "bk_lookup (set_lad d ls B) = bk_lookup B"
  "bk_next_trade_id (set_lad d ls B) = bk_next_trade_id B"
  "bk_shutdown (set_lad d ls B) = bk_shutdown B" "bk_callback (set_lad d ls B) = bk_callback B"
  "bk_ctx (set_lad d ls B) = bk_ctx B" "bk_bbo (set_lad d ls B) = bk_bbo B"
  "bk_symbol (set_lad d ls B) = bk_symbol B" "bk_clock (set_lad d ls B) = bk_clock B"
  "bk_ticks (set_lad d ls B) = bk_ticks B" "bk_trades (set_lad d ls B) = bk_trades B"
  by (auto simp: set_lad_def lad_def ord_def)

lemma set_lad_set_lad [simp]: "set_lad d ls (set_lad d ms B) = set_lad d ls B"
  by (simp add: set_lad_def)

lemma book_update_frame [simp, frame]:
  "ord (B\<lparr>bk_lookup := m\<rparr>) p = ord B p" "lad d (B\<lparr>bk_lookup := m\<rparr>) = lad d B"
  "ord (B\<lparr>bk_ctx := c\<rparr>) p = ord B p" "lad d (B\<lparr>bk_ctx := c\<rparr>) = lad d B"
  "ord (B\<lparr>bk_bbo := s\<rparr>) p = ord B p" "lad d (B\<lparr>bk_bbo := s\<rparr>) = lad d B"
  "ord (B\<lparr>bk_next_trade_id := i\<rparr>) p = ord B p" "lad d (B\<lparr>bk_next_trade_id := i\<rparr>) = lad d B"
  "ord (B\<lparr>bk_ticks := n\<rparr>) p = ord B p" "lad d (B\<lparr>bk_ticks := n\<rparr>) = lad d B"
  "ord (B\<lparr>bk_trades := ts\<rparr>) p = ord B p" "lad d (B\<lparr>bk_trades := ts\<rparr>) = lad d B"
  "ord (B\<lparr>bk_shutdown := b\<rparr>) p = ord B p" "lad d (B\<lparr>bk_shutdown := b\<rparr>) = lad d B"
  by (simp_all add: ord_def lad_def)

lemma update_bbo_frame [simp, frame]:
  "ord (update_bbo_snapshot B) p = ord B p" "lad d (update_bbo_snapshot B) = lad d B"
  "bk_pool (update_bbo_snapshot B) = bk_pool B" "bk_lookup (update_bbo_snapshot B) = bk_lookup B"
  "bk_trades (update_bbo_snapshot B) = bk_trades B"
  "bk_shutdown (update_bbo_snapshot B) = bk_shutdown B"
  "bk_next_trade_id (update_bbo_snapshot B) = bk_next_trade_id B"
  "bk_ctx (update_bbo_snapshot B) = bk_ctx B" "bk_callback (update_bbo_snapshot B) = bk_callback B"
  "bk_symbol (update_bbo_snapshot B) = bk_symbol B" "bk_clock (update_bbo_snapshot B) = bk_clock B"
  "bk_ticks (update_bbo_snapshot B) = bk_ticks B"
  by (simp_all add: update_bbo_snapshot_def Let_def)

section \<open>The invariant\<close>

definition level_ok :: "order list \<Rightarrow> bool \<Rightarrow> flat_level \<Rightarrow> bool" where
  "level_ok os desc l \<longleftrightarrow>
     unat (l_head l) < length (l_orders l) \<and> length (l_orders l) < 2 ^ 32 \<and>
     l_total l = (\<Sum>p\<leftarrow>fl_live l. o_remaining (os ! p)) \<and>
     (\<forall>p\<in>set (fl_live l). o_price (os ! p) = l_price l \<and> o_remaining (os ! p) \<noteq> 0 \<and>
        (o_side (os ! p) = BUY \<longleftrightarrow> desc))"

definition ladder_ok :: "order list \<Rightarrow> bool \<Rightarrow> ladder \<Rightarrow> bool" where
  "ladder_ok os desc ls \<longleftrightarrow> ladder_sorted desc ls \<and> (\<forall>l\<in>set ls. level_ok os desc l)"

definition live :: "'c book \<Rightarrow> nat set" where
  "live B = set (fb_live (bk_bids B)) \<union> set (fb_live (bk_asks B))"

text \<open>
  \<open>X\<close> holds the orders that are in the lookup and not in a level: the incoming order
  while it is matched, and none between calls.
\<close>

definition book_inv :: "nat set \<Rightarrow> 'c book \<Rightarrow> bool" where
  "book_inv X B \<longleftrightarrow>
     mp_inv (bk_pool B) \<and>
     (\<forall>d. ladder_ok (mp_pool (bk_pool B)) d (lad d B) \<and> distinct (fb_live (lad d B))) \<and>
     (\<forall>p\<in>live B \<union> X. p < slots_of B \<and> p \<notin> set (mp_free (bk_pool B))) \<and>
     X \<inter> live B = {} \<and>
     distinct (map fst (bk_lookup B)) \<and>
     (\<forall>i p. map_of (bk_lookup B) i = Some p \<longleftrightarrow> p \<in> live B \<union> X \<and> o_id (ord B p) = i)"

text \<open>
  No level holds more than \<open>n\<close> pointers, dead prefix included; \<open>book_room\<close>: the
  32-bit cursor still has room for one more.
\<close>

definition book_bound :: "nat \<Rightarrow> 'c book \<Rightarrow> bool" where
  "book_bound n B \<longleftrightarrow> (\<forall>d. \<forall>l\<in>set (lad d B). length (l_orders l) \<le> n)"

definition book_room :: "'c book \<Rightarrow> bool" where
  "book_room B \<longleftrightarrow> book_bound (2 ^ 32 - 2) B"

definition uncrossed :: "'c book \<Rightarrow> bool" where
  "uncrossed B \<longleftrightarrow>
     (bk_bids B \<noteq> [] \<longrightarrow> bk_asks B \<noteq> [] \<longrightarrow> best_bid B < best_ask B)"

lemma live_lad: "live B = set (fb_live (lad d B)) \<union> set (fb_live (lad (\<not> d) B))"
  by (cases d) (auto simp: live_def lad_def)

lemma book_bound_frame [simp, frame]:
  "book_bound n (B\<lparr>bk_lookup := m\<rparr>) = book_bound n B"
  "book_bound n (update_bbo_snapshot B) = book_bound n B"
  by (simp_all add: book_bound_def)

lemma book_bound_mono: "book_bound n B \<Longrightarrow> n \<le> m \<Longrightarrow> book_bound m B"
  by (fastforce simp: book_bound_def)

lemma book_room_lad: "book_room B \<Longrightarrow> l \<in> set (lad d B) \<Longrightarrow> length (l_orders l) < 2 ^ 32 - 1"
  by (fastforce simp: book_room_def book_bound_def)

lemma slots_eq: "mp_inv (bk_pool B) \<Longrightarrow> mp_slots (bk_pool B) = slots_of B"
  by (simp add: mp_inv_def)

lemma fb_live_ex: "p \<in> set (fb_live ls) \<longleftrightarrow> (\<exists>l\<in>set ls. p \<in> set (fl_live l))"
  by (simp add: fb_live_def)

lemma ladder_ok_live:
  assumes "ladder_ok os desc ls" "p \<in> set (fb_live ls)"
  shows "o_remaining (os ! p) \<noteq> 0" "o_side (os ! p) = BUY \<longleftrightarrow> desc"
  using assms by (auto simp: ladder_ok_def level_ok_def fb_live_ex)

lemma level_ok_cong:
  assumes "\<And>p. p \<in> set (fl_live l) \<Longrightarrow>
     o_price (os ! p) = o_price (ps ! p) \<and> o_remaining (os ! p) = o_remaining (ps ! p) \<and>
     o_side (os ! p) = o_side (ps ! p)"
  shows "level_ok os d l \<longleftrightarrow> level_ok ps d l"
proof -
  have sums: "(\<Sum>p\<leftarrow>fl_live l. o_remaining (os ! p)) = (\<Sum>p\<leftarrow>fl_live l. o_remaining (ps ! p))"
    using assms by (intro sum_list_map_cong_upd) blast
  show ?thesis unfolding level_ok_def sums using assms by auto
qed

lemma ladder_ok_cong:
  assumes "\<And>p. p \<in> set (fb_live ls) \<Longrightarrow>
     o_price (os ! p) = o_price (ps ! p) \<and> o_remaining (os ! p) = o_remaining (ps ! p) \<and>
     o_side (os ! p) = o_side (ps ! p)"
  shows "ladder_ok os d ls \<longleftrightarrow> ladder_ok ps d ls"
proof -
  have "level_ok os d l \<longleftrightarrow> level_ok ps d l" if "l \<in> set ls" for l
    using that assms by (intro level_ok_cong) (auto simp: fb_live_ex)
  then show ?thesis by (simp add: ladder_ok_def)
qed

lemma ladder_ok_Cons:
  "ladder_ok os d (l # ls) \<longleftrightarrow>
     level_ok os d l \<and> (\<forall>m\<in>set ls. before d (l_price l) (l_price m)) \<and> ladder_ok os d ls"
  by (auto simp: ladder_ok_def)

lemma sides_disjoint:
  assumes "book_inv X B"
  shows "set (fb_live (lad d B)) \<inter> set (fb_live (lad (\<not> d) B)) = {}"
proof -
  have "ladder_ok (mp_pool (bk_pool B)) d (lad d B)"
    "ladder_ok (mp_pool (bk_pool B)) (\<not> d) (lad (\<not> d) B)"
    using assms unfolding book_inv_def by blast+
  then show ?thesis using ladder_ok_live(2) by blast
qed

section \<open>One trade\<close>

lemma trade_chain_ord:
  assumes "a < slots_of B" "p < slots_of B" "a \<noteq> p"
  shows "ord (upd_ord p g (upd_ord a g (upd_ord p f (upd_ord a f B)))) x =
     (if x = a \<or> x = p then g (f (ord B x)) else ord B x)"
  using assms by simp

lemma execute_trade_ord:
  assumes "a < slots_of B" "p < slots_of B" "a \<noteq> p"
  shows "ord (execute_trade a p q pr B) x =
     (if x = a \<or> x = p
      then (ord B x)\<lparr>o_remaining := o_remaining (ord B x) - q,
             o_status := (if o_remaining (ord B x) - q = 0 then FILLED else PARTIALLY_FILLED)\<rparr>
      else ord B x)"
proof -
  let ?f = "\<lambda>x. x\<lparr>o_remaining := o_remaining x - q\<rparr>"
  let ?g = "\<lambda>x. x\<lparr>o_status := (if o_remaining x = 0 then FILLED else PARTIALLY_FILLED)\<rparr>"
  have "ord (execute_trade a p q pr B) x = ord (upd_ord p ?g (upd_ord a ?g (upd_ord p ?f (upd_ord a ?f B)))) x"
    unfolding execute_trade_def Let_def by (cases "bk_callback B") (simp_all del: ord_upd_ord)
  also have "\<dots> = (if x = a \<or> x = p then ?g (?f (ord B x)) else ord B x)"
    by (rule trade_chain_ord [OF assms])
  finally show ?thesis by simp
qed

definition mk_trade :: "'c book \<Rightarrow> nat \<Rightarrow> nat \<Rightarrow> Quantity \<Rightarrow> Price \<Rightarrow> trade" where
  "mk_trade B a p q pr =
     make_trade (bk_clock B (bk_ticks B)) (bk_next_trade_id B)
       (if o_side (ord B a) = BUY then o_id (ord B a) else o_id (ord B p))
       (if o_side (ord B a) = SELL then o_id (ord B a) else o_id (ord B p))
       (Some (bk_symbol B)) q pr"

lemma execute_trade_frame:
  assumes "a < slots_of B" "p < slots_of B" "a \<noteq> p"
  shows "lad d (execute_trade a p q pr B) = lad d B"
    "bk_lookup (execute_trade a p q pr B) = bk_lookup B"
    "slots_of (execute_trade a p q pr B) = slots_of B"
    "mp_inv (bk_pool (execute_trade a p q pr B)) = mp_inv (bk_pool B)"
    "mp_free (bk_pool (execute_trade a p q pr B)) = mp_free (bk_pool B)"
    "mp_slots (bk_pool (execute_trade a p q pr B)) = mp_slots (bk_pool B)"
    "bk_shutdown (execute_trade a p q pr B) = bk_shutdown B"
    "bk_callback (execute_trade a p q pr B) = bk_callback B"
    "bk_bbo (execute_trade a p q pr B) = bk_bbo B"
    "bk_symbol (execute_trade a p q pr B) = bk_symbol B"
    "bk_clock (execute_trade a p q pr B) = bk_clock B"
    "bk_ticks (execute_trade a p q pr B) = Suc (bk_ticks B)"
    "bk_next_trade_id (execute_trade a p q pr B) = bk_next_trade_id B + 1"
    "bk_trades (execute_trade a p q pr B) = bk_trades B @ [mk_trade B a p q pr]"
    "bk_ctx (execute_trade a p q pr B) =
       (case bk_callback B of None \<Rightarrow> bk_ctx B | Some cb \<Rightarrow> cb (mk_trade B a p q pr) (bk_ctx B))"
  unfolding execute_trade_def Let_def mk_trade_def trade_chain_ord [OF assms]
  by (cases "bk_callback B"; simp)+

section \<open>One iteration of the sweep\<close>

text \<open>
  The order at the front of the best level, and that no assignment through the incoming
  order's pointer reaches it.
\<close>

lemma front_live:
  assumes "book_inv X B" "a \<in> X" "lad d B = l # ls"
  shows "\<not> fl_empty l" "fl_live l = fl_front l # tl (fl_live l)" "fl_front l \<in> set (fb_live (lad d B))"
    "fl_front l \<in> live B" "fl_front l < slots_of B" "fl_front l \<notin> set (mp_free (bk_pool B))"
    "a \<noteq> fl_front l" "a < slots_of B" "a \<notin> set (mp_free (bk_pool B))"
    "length (l_orders l) < 2 ^ 32" "o_remaining (ord B (fl_front l)) \<noteq> 0"
    "o_price (ord B (fl_front l)) = l_price l" "level_ok (mp_pool (bk_pool B)) d l"
    "ladder_sorted d (l # ls)"
proof -
  have ok: "ladder_ok (mp_pool (bk_pool B)) d (l # ls)"
    using assms unfolding book_inv_def by metis
  then show lo: "level_ok (mp_pool (bk_pool B)) d l" and "ladder_sorted d (l # ls)"
    by (auto simp: ladder_ok_def)
  then show ne: "\<not> fl_empty l" and "length (l_orders l) < 2 ^ 32"
    by (auto simp: level_ok_def fl_empty_def)
  show fr: "fl_live l = fl_front l # tl (fl_live l)" by (rule fl_live_front [OF ne])
  then have mem: "fl_front l \<in> set (fl_live l)" by (metis list.set_intros(1))
  then show md: "fl_front l \<in> set (fb_live (lad d B))" by (simp add: assms(3))
  then show lv: "fl_front l \<in> live B" by (simp add: live_lad [of B d])
  then show "fl_front l < slots_of B" "fl_front l \<notin> set (mp_free (bk_pool B))" "a \<noteq> fl_front l"
    "a < slots_of B" "a \<notin> set (mp_free (bk_pool B))"
    using assms unfolding book_inv_def by blast+
  show "o_remaining (ord B (fl_front l)) \<noteq> 0" "o_price (ord B (fl_front l)) = l_price l"
    using lo mem by (auto simp: level_ok_def ord_def)
qed

definition best_after :: "bool \<Rightarrow> Quantity \<Rightarrow> flat_level \<Rightarrow> ladder \<Rightarrow> ladder" where
  "best_after filled q l ls =
     (if \<not> filled then fl_reduce_quantity q l # ls
      else if tl (fl_live l) = [] then ls else fl_pop_front q l # ls)"

lemma fill_best_obs:
  assumes inv: "book_inv X B" and a: "a \<in> X" and ld: "lad d B = l # ls"
    and p: "p = fl_front l" and q: "q = min (o_remaining (ord B a)) (o_remaining (ord B p))"
    and filled: "filled \<longleftrightarrow> o_remaining (ord B p) \<le> o_remaining (ord B a)"
  shows "lad e (fill_best d a B) = (if e = d then best_after filled q l ls else lad e B)"
    "ord (fill_best d a B) x =
       (if x = a \<or> x = p
        then (ord B x)\<lparr>o_remaining := o_remaining (ord B x) - q,
               o_status := (if o_remaining (ord B x) - q = 0 then FILLED else PARTIALLY_FILLED)\<rparr>
        else ord B x)"
    "bk_lookup (fill_best d a B) =
       (if filled then AList.delete (o_id (ord B p)) (bk_lookup B) else bk_lookup B)"
    "mp_inv (bk_pool (fill_best d a B))"
    "mp_free (bk_pool (fill_best d a B)) = (if filled then [p] else []) @ mp_free (bk_pool B)"
    "slots_of (fill_best d a B) = slots_of B"
    "bk_shutdown (fill_best d a B) = bk_shutdown B"
    "bk_callback (fill_best d a B) = bk_callback B"
    "bk_bbo (fill_best d a B) = bk_bbo B"
    "bk_symbol (fill_best d a B) = bk_symbol B"
    "bk_clock (fill_best d a B) = bk_clock B"
    "bk_ticks (fill_best d a B) = Suc (bk_ticks B)"
    "bk_next_trade_id (fill_best d a B) = bk_next_trade_id B + 1"
    "bk_trades (fill_best d a B) = bk_trades B @ [mk_trade B a p q (l_price l)]"
    "bk_ctx (fill_best d a B) =
       (case bk_callback B of None \<Rightarrow> bk_ctx B | Some cb \<Rightarrow> cb (mk_trade B a p q (l_price l)) (bk_ctx B))"
proof -
  note fr = front_live [OF inv a ld, folded p]
  note ex = execute_trade_ord [OF fr(8,5,7)] execute_trade_frame [OF fr(8,5,7)]
  have rem: "o_remaining (ord B p) - q = 0 \<longleftrightarrow> filled"
    unfolding q filled by (rule minus_min_0_iff)
  have pop: "fl_empty (fl_pop_front q l) \<longleftrightarrow> tl (fl_live l) = []"
    using fl_live_pop_front [OF fr(1,10)] by (simp add: fl_empty_live)
  have red: "\<not> fl_empty (fl_reduce_quantity q l)" using fr(1) by (simp add: fl_empty_live)
  have rh: "fb_remove d (l_price l) (fl_pop_front q l # ls) = ls"
    using fb_remove_head [of d "fl_pop_front q l" ls] fr(14) by simp
  have inv0: "mp_inv (bk_pool B)" using inv by (simp add: book_inv_def)
  define B1 where "B1 = execute_trade a p q (l_price l) B"
  define C where "C = upd_ord p (\<lambda>x. x\<lparr>o_status := FILLED\<rparr>)
      (B1\<lparr>bk_lookup := AList.delete (o_id (ord B p)) (bk_lookup B)\<rparr>)"
  define F where "F = (if filled then set_lad d (best_after filled q l ls) (free_ord p C)
                       else set_lad d (best_after filled q l ls) B1)"
  have comm: "set_lad d ms (free_ord p (upd_ord p f ((set_lad d ks B1)\<lparr>bk_lookup := m\<rparr>))) =
              set_lad d ms (free_ord p (upd_ord p f (B1\<lparr>bk_lookup := m\<rparr>)))" for ms ks f m
    by (simp add: set_lad_def free_ord_def upd_ord_def ord_def)
  have comm2: "free_ord p (upd_ord p f ((set_lad d ks B1)\<lparr>bk_lookup := m\<rparr>)) =
              set_lad d ks (free_ord p (upd_ord p f (B1\<lparr>bk_lookup := m\<rparr>)))" for ks f m
    by (simp add: set_lad_def free_ord_def upd_ord_def ord_def)
  have b1: "lad d B1 = l # ls" "bk_lookup B1 = bk_lookup B" "o_id (ord B1 p) = o_id (ord B p)"
    "o_remaining (ord B1 p) = 0 \<longleftrightarrow> filled"
    using rem by (simp_all add: B1_def ex ld)
  have F: "fill_best d a B = F"
    using fr(1) pop red rh b1
    by (simp add: fill_best_def ld p [symmetric] q [symmetric] Let_def B1_def [symmetric] F_def
        C_def best_after_def comm comm2)
  show "lad e (fill_best d a B) = (if e = d then best_after filled q l ls else lad e B)"
    unfolding F F_def C_def B1_def by (simp add: ex)
  show "ord (fill_best d a B) x =
       (if x = a \<or> x = p
        then (ord B x)\<lparr>o_remaining := o_remaining (ord B x) - q,
               o_status := (if o_remaining (ord B x) - q = 0 then FILLED else PARTIALLY_FILLED)\<rparr>
        else ord B x)"
    unfolding F F_def C_def B1_def using fr rem by (simp add: ex)
  have fo: "mp_inv (bk_pool (free_ord p C)) \<and> mp_free (bk_pool (free_ord p C)) = p # mp_free (bk_pool B)"
  proof -
    have "mp_inv (bk_pool C)" "mp_free (bk_pool C) = mp_free (bk_pool B)"
      "mp_slots (bk_pool C) = mp_slots (bk_pool B)"
      using inv0 by (simp_all add: C_def B1_def ex)
    then show ?thesis
      using mp_deallocate_ok [of "bk_pool C" p] fr slots_eq [OF inv0] by (simp add: free_ord_def)
  qed
  show "mp_inv (bk_pool (fill_best d a B))"
    unfolding F F_def using fo inv0 by (simp add: B1_def ex)
  show "mp_free (bk_pool (fill_best d a B)) = (if filled then [p] else []) @ mp_free (bk_pool B)"
    unfolding F F_def using fo by (simp add: B1_def ex)
  show "bk_lookup (fill_best d a B) =
       (if filled then AList.delete (o_id (ord B p)) (bk_lookup B) else bk_lookup B)"
    unfolding F F_def C_def B1_def by (simp add: ex)
  show "slots_of (fill_best d a B) = slots_of B"
    "bk_shutdown (fill_best d a B) = bk_shutdown B"
    "bk_callback (fill_best d a B) = bk_callback B"
    "bk_bbo (fill_best d a B) = bk_bbo B"
    "bk_symbol (fill_best d a B) = bk_symbol B"
    "bk_clock (fill_best d a B) = bk_clock B"
    "bk_ticks (fill_best d a B) = Suc (bk_ticks B)"
    "bk_next_trade_id (fill_best d a B) = bk_next_trade_id B + 1"
    "bk_trades (fill_best d a B) = bk_trades B @ [mk_trade B a p q (l_price l)]"
    "bk_ctx (fill_best d a B) =
       (case bk_callback B of None \<Rightarrow> bk_ctx B | Some cb \<Rightarrow> cb (mk_trade B a p q (l_price l)) (bk_ctx B))"
    unfolding F F_def C_def B1_def by (simp_all add: ex)
qed

lemma best_after_live:
  assumes "\<not> fl_empty l" "length (l_orders l) < 2 ^ 32"
  shows "fb_live (best_after filled q l ls) = (if filled then tl (fb_live (l # ls)) else fb_live (l # ls))"
proof -
  have "fl_live l \<noteq> []" using assms(1) by (simp add: fl_empty_live)
  then show ?thesis
    using fl_live_pop_front [OF assms] by (auto simp: best_after_def)
qed

lemma level_ok_pop:
  assumes ok: "level_ok os d l" and live: "fl_live l = p # ps" "ps \<noteq> []" "p \<notin> set ps"
    and q: "q = o_remaining (os ! p)"
    and os': "\<And>x. x \<in> set ps \<Longrightarrow> os' ! x = os ! x"
  shows "level_ok os' d (fl_pop_front q l)"
proof -
  have ne: "\<not> fl_empty l" "length (l_orders l) < 2 ^ 32"
    using ok by (auto simp: level_ok_def fl_empty_def)
  then have lv: "fl_live (fl_pop_front q l) = ps"
    using fl_live_pop_front live by simp
  then have "\<not> fl_empty (fl_pop_front q l)" using live by (simp add: fl_empty_live)
  moreover have "(\<Sum>x\<leftarrow>ps. o_remaining (os' ! x)) = (\<Sum>x\<leftarrow>ps. o_remaining (os ! x))"
    using os' by (intro sum_list_map_cong_upd) simp
  moreover have "l_total l - q = (\<Sum>x\<leftarrow>ps. o_remaining (os ! x))"
    using ok by (simp add: level_ok_def live q)
  ultimately show ?thesis
    using ok ne os' by (auto simp: level_ok_def lv live fl_empty_def)
qed

lemma level_ok_reduce:
  assumes ok: "level_ok os d l" and live: "fl_live l = p # ps" "p \<notin> set ps"
    and os': "\<And>x. x \<in> set ps \<Longrightarrow> os' ! x = os ! x"
    and p: "o_remaining (os' ! p) = o_remaining (os ! p) - q" "o_remaining (os' ! p) \<noteq> 0"
      "o_price (os' ! p) = o_price (os ! p)" "o_side (os' ! p) = o_side (os ! p)"
  shows "level_ok os' d (fl_reduce_quantity q l)"
proof -
  have "(\<Sum>x\<leftarrow>ps. o_remaining (os' ! x)) = (\<Sum>x\<leftarrow>ps. o_remaining (os ! x))"
    using os' by (intro sum_list_map_cong_upd) simp
  then show ?thesis
    using ok os' p by (auto simp: level_ok_def live)
qed

lemma fill_best_live:
  assumes inv: "book_inv {a} B" and ld: "lad d B = l # ls" and p: "p = fl_front l"
    and filled: "filled \<longleftrightarrow> o_remaining (ord B p) \<le> o_remaining (ord B a)"
  shows "fb_live (lad d (fill_best d a B)) = (if filled then tl (fb_live (lad d B)) else fb_live (lad d B))"
    "lad (\<not> d) (fill_best d a B) = lad (\<not> d) B"
    "live (fill_best d a B) = live B - (if filled then {p} else {})"
proof -
  have a: "a \<in> {a}" by simp
  note fr = front_live [OF inv a ld, folded p]
  note obs = fill_best_obs [OF inv a ld p refl filled]
  show 1: "fb_live (lad d (fill_best d a B)) = (if filled then tl (fb_live (lad d B)) else fb_live (lad d B))"
    using best_after_live [OF fr(1,10)] by (simp add: obs ld)
  show 2: "lad (\<not> d) (fill_best d a B) = lad (\<not> d) B" by (simp add: obs)
  have "distinct (fb_live (lad d B))" using inv by (simp add: book_inv_def)
  moreover have "fb_live (lad d B) = p # tl (fb_live (lad d B))"
    using fr(2) by (metis append_Cons fb_live_simps(2) ld list.sel(3))
  ultimately have t: "set (tl (fb_live (lad d B))) = set (fb_live (lad d B)) - {p}"
    by (metis Diff_insert_absorb distinct.simps(2) list.simps(15))
  have "p \<notin> set (fb_live (lad (\<not> d) B))" using sides_disjoint [OF inv, of d] fr(3) by blast
  then show "live (fill_best d a B) = live B - (if filled then {p} else {})"
    unfolding live_lad [of _ d] 1 2 using t by auto
qed

lemma fill_best_inv:
  assumes inv: "book_inv {a} B" and ld: "lad d B = l # ls"
  shows "book_inv {a} (fill_best d a B)"
proof -
  define p where "p = fl_front l"
  define filled where "filled \<longleftrightarrow> o_remaining (ord B p) \<le> o_remaining (ord B a)"
  define q where "q = min (o_remaining (ord B a)) (o_remaining (ord B p))"
  define B' where "B' = fill_best d a B"
  define os os' where "os = mp_pool (bk_pool B)" and "os' = mp_pool (bk_pool B')"
  have a: "a \<in> {a}" by simp
  note fr = front_live [OF inv a ld, folded p_def]
  note obs = fill_best_obs [OF inv a ld p_def q_def filled_def, folded B'_def]
  note lv = fill_best_live [OF inv ld p_def filled_def, folded B'_def]
  obtain ps where ps: "fl_live l = p # ps" using fr(2) by blast
  have dist: "distinct (fb_live (lad e B))" and lok: "ladder_ok os e (lad e B)" for e
    using inv by (auto simp: book_inv_def os_def)
  have anl: "a \<notin> live B" using inv by (simp add: book_inv_def)
  have pn: "p \<notin> set ps" "p \<notin> set (fb_live ls)" using dist [of d] by (auto simp: ld ps)
  have al: "a \<notin> set ps" "a \<notin> set (fb_live ls)" using anl by (auto simp: live_lad [of B d] ld ps)
  have same: "os' ! x = os ! x" if "x \<noteq> a" "x \<noteq> p" for x
    using that obs(2) [of x] by (simp add: ord_def os_def os'_def)
  have pnot: "p \<notin> set (fb_live (lad (\<not> d) B))" using sides_disjoint [OF inv, of d] fr(3) by blast
  have keep: "os' ! x = os ! x" if "x \<in> set ps \<union> set (fb_live ls) \<union> set (fb_live (lad (\<not> d) B))" for x
    using that pn al pnot anl by (intro same) (auto simp: live_lad [of B d])
  have rp: "o_remaining (os' ! p) = o_remaining (os ! p) - q" "o_price (os' ! p) = o_price (os ! p)"
    "o_side (os' ! p) = o_side (os ! p)"
    using obs(2) [of p] by (simp_all add: ord_def os_def os'_def)
  have z: "o_remaining (os ! p) - q = 0 \<longleftrightarrow> filled"
    unfolding q_def filled_def os_def ord_def by (rule minus_min_0_iff)
  have ids: "o_id (ord B' x) = o_id (ord B x)" for x by (simp add: obs(2))
  have rest: "ladder_ok os' d ls"
    using lok [of d] keep by (subst ladder_ok_cong [of ls os' os]) (auto simp: ld ladder_ok_Cons)
  have lo: "level_ok os d l" using lok [of d] by (simp add: ld ladder_ok_Cons)
  have srt: "\<forall>m\<in>set ls. before d (l_price l) (l_price m)" using lok [of d] by (simp add: ld ladder_ok_Cons)
  have this_side: "ladder_ok os' d (lad d B')"
  proof (cases filled)
    case True
    then have q: "q = o_remaining (os ! p)" using z by simp
    have "level_ok os' d (fl_pop_front q l)" if "ps \<noteq> []"
      using keep by (intro level_ok_pop [OF lo ps that pn(1) q]) blast
    then show ?thesis
      using True rest srt by (auto simp: obs(1) best_after_def ps ladder_ok_Cons)
  next
    case False
    then have "level_ok os' d (fl_reduce_quantity q l)"
      using keep rp z by (intro level_ok_reduce [OF lo ps pn(1)]) auto
    then show ?thesis
      using False rest srt by (auto simp: obs(1) best_after_def ladder_ok_Cons)
  qed
  have other: "ladder_ok os' (\<not> d) (lad (\<not> d) B')"
    unfolding lv(2) using lok [of "\<not> d"] keep
    by (subst ladder_ok_cong [of "lad (\<not> d) B" os' os]) auto
  have ladders: "ladder_ok os' e (lad e B') \<and> distinct (fb_live (lad e B'))" for e
  proof (cases "e = d")
    case True
    then show ?thesis using this_side dist [of d] lv(1) by (auto simp: distinct_tl)
  next
    case False
    then have "e = (\<not> d)" by auto
    then show ?thesis using other dist [of "\<not> d"] lv(2) by auto
  qed
  have lk: "map_of (bk_lookup B) i = Some x \<longleftrightarrow> x \<in> live B \<union> {a} \<and> o_id (ord B x) = i" for i x
    using inv unfolding book_inv_def by blast
  have "map_of (bk_lookup B) (o_id (ord B p)) = Some p" using lk fr(4) by blast
  then have uniq: "x = p" if "x \<in> live B \<union> {a}" "o_id (ord B x) = o_id (ord B p)" for x
    using lk [of "o_id (ord B p)" x] that by simp
  have lk': "map_of (bk_lookup B') i = Some x \<longleftrightarrow> x \<in> live B' \<union> {a} \<and> o_id (ord B' x) = i" for i x
    using lk uniq fr(7) unfolding ids lv(3) obs(3) by auto
  show ?thesis
    unfolding book_inv_def B'_def [symmetric]
    using ladders lk' lv(3) inv fr anl obs(3-6)
    by (auto simp: book_inv_def os'_def)
qed

lemma fill_best_bound:
  assumes inv: "book_inv {a} B" and ld: "lad d B = l # ls" and n: "book_bound n B"
  shows "book_bound n (fill_best d a B)"
proof -
  have la: "lad e (fill_best d a B) =
     (if e = d then best_after (o_remaining (ord B (fl_front l)) \<le> o_remaining (ord B a))
        (min (o_remaining (ord B a)) (o_remaining (ord B (fl_front l)))) l ls else lad e B)" for e
    by (rule fill_best_obs(1) [OF inv _ ld refl refl refl]) simp
  have "length (l_orders m) \<le> n" if "m \<in> set (l # ls)" for m
    using n that unfolding book_bound_def by (metis ld)
  moreover have "length (l_orders m) \<le> n" if "m \<in> set (lad e B)" for e m
    using n that unfolding book_bound_def by blast
  ultimately show ?thesis
    by (auto simp: book_bound_def la best_after_def)
qed

end
