(* ===== verification/RTES_Book_Match.thy ===== *)
theory RTES_Book_Match
  imports RTES_Book_Inv
begin

text \<open>
  The reference matcher, price-time priority on lists, and the proof that the sweep of
  \<^verbatim>\<open>src/order_book.cpp\<close> returns and refines it.
\<close>

section \<open>The reference matcher\<close>

text \<open>
  An abstract side of the book is the list of its resting orders in priority order, each its
  id, price and remaining quantity as a natural number. \<open>match_ref ok q es\<close> fills
  \<open>q\<close> units from the front while \<open>ok\<close> admits the price, and returns the fills, what
  is left of \<open>q\<close>, and what is left of the side.
\<close>

type_synonym entry = "OrderID \<times> Price \<times> nat"

fun match_ref :: "(Price \<Rightarrow> bool) \<Rightarrow> nat \<Rightarrow> entry list \<Rightarrow> entry list \<times> nat \<times> entry list" where
  "match_ref ok q [] = ([], q, [])"
| "match_ref ok q ((i, p, r) # es) =
     (if q = 0 \<or> \<not> ok p then ([], q, (i, p, r) # es)
      else if r \<le> q then
        let (fs, q', es') = match_ref ok (q - r) es in ((i, p, r) # fs, q', es')
      else ([(i, p, q)], 0, (i, p, r - q) # es))"

definition entry_qty :: "entry \<Rightarrow> nat" where
  "entry_qty e = snd (snd e)"

definition entry_price :: "entry \<Rightarrow> Price" where
  "entry_price e = fst (snd e)"

definition entry_of :: "order \<Rightarrow> entry" where
  "entry_of x = (o_id x, o_price x, unat (o_remaining x))"

definition side_view :: "bool \<Rightarrow> 'c book \<Rightarrow> entry list" where
  "side_view d B = map (\<lambda>p. entry_of (ord B p)) (fb_live (lad d B))"

fun trades_ref ::
  "(nat \<Rightarrow> Timestamp) \<Rightarrow> nat \<Rightarrow> byte list \<Rightarrow> side \<Rightarrow> OrderID \<Rightarrow> TradeID \<Rightarrow> entry list \<Rightarrow> trade list" where
  "trades_ref clk k symb s i n [] = []"
| "trades_ref clk k symb s i n ((j, p, q) # fs) =
     make_trade (clk k) n (if s = BUY then i else j) (if s = SELL then i else j) (Some symb) (of_nat q) p #
     trades_ref clk (Suc k) symb s i (n + 1) fs"

definition trades_from :: "'c book \<Rightarrow> nat \<Rightarrow> entry list \<Rightarrow> trade list" where
  "trades_from B a fs =
     trades_ref (bk_clock B) (bk_ticks B) (bk_symbol B) (o_side (ord B a)) (o_id (ord B a))
       (bk_next_trade_id B) fs"

lemma entry_simps [simp]: "entry_qty (i, p, q) = q" "entry_price (i, p, q) = p"
  by (simp_all add: entry_qty_def entry_price_def)

lemma trades_ref_append:
  "trades_ref clk k symb s i n (fs @ gs) =
     trades_ref clk k symb s i n fs @
     trades_ref clk (k + length fs) symb s i (n + of_nat (length fs)) gs"
proof (induction fs arbitrary: k n)
  case (Cons f fs)
  obtain j p q where "f = (j, p, q)" by (cases f)
  with Cons show ?case by (simp add: add.assoc)
qed simp

lemma length_trades_ref [simp]: "length (trades_ref clk k symb s i n fs) = length fs"
  by (induction clk k symb s i n fs rule: trades_ref.induct) auto

section \<open>Sweeping\<close>

text \<open>
  \<open>swept d a B B' fs\<close>: from \<open>B\<close> the order \<open>a\<close> took the fills \<open>fs\<close> on side
  \<open>d\<close>, which gave \<open>B'\<close>.
\<close>

definition swept :: "bool \<Rightarrow> nat \<Rightarrow> 'c book \<Rightarrow> 'c book \<Rightarrow> entry list \<Rightarrow> bool" where
  "swept d a B B' fs \<longleftrightarrow>
     book_inv {a} B' \<and> lad (\<not> d) B' = lad (\<not> d) B \<and>
     (\<exists>r s. ord B' a = (ord B a)\<lparr>o_remaining := r, o_status := s\<rparr>) \<and>
     (\<forall>x. x \<noteq> a \<longrightarrow> x \<notin> set (fb_live (lad d B)) \<longrightarrow> ord B' x = ord B x) \<and>
     set (fb_live (lad d B')) \<subseteq> set (fb_live (lad d B)) \<and>
     set (mp_free (bk_pool B')) =
       set (mp_free (bk_pool B)) \<union> (set (fb_live (lad d B)) - set (fb_live (lad d B'))) \<and>
     bk_trades B' = bk_trades B @ trades_from B a fs \<and>
     bk_next_trade_id B' = bk_next_trade_id B + of_nat (length fs) \<and>
     bk_ticks B' = bk_ticks B + length fs \<and>
     bk_ctx B' = (case bk_callback B of None \<Rightarrow> bk_ctx B | Some cb \<Rightarrow> fold cb (trades_from B a fs) (bk_ctx B)) \<and>
     bk_callback B' = bk_callback B \<and> bk_symbol B' = bk_symbol B \<and> bk_clock B' = bk_clock B \<and>
     bk_shutdown B' = bk_shutdown B \<and> bk_bbo B' = bk_bbo B \<and> slots_of B' = slots_of B \<and>
     (\<forall>n. book_bound n B \<longrightarrow> book_bound n B')"

lemma swept_refl: "book_inv {a} B \<Longrightarrow> swept d a B B []"
proof -
  assume "book_inv {a} B"
  moreover have "\<exists>r s. ord B a = (ord B a)\<lparr>o_remaining := r, o_status := s\<rparr>"
    by (intro exI [of _ "o_remaining (ord B a)"] exI [of _ "o_status (ord B a)"]) simp
  ultimately show ?thesis
    by (simp add: swept_def trades_from_def split: option.splits)
qed

lemma swept_trans:
  assumes "swept d a B C fs" "swept d a C D gs"
  shows "swept d a B D (fs @ gs)"
proof -
  obtain r s where c: "ord C a = (ord B a)\<lparr>o_remaining := r, o_status := s\<rparr>"
    using assms(1) by (auto simp: swept_def)
  have tr: "trades_from B a (fs @ gs) = trades_from B a fs @ trades_from C a gs"
    using assms(1) c by (simp add: swept_def trades_from_def trades_ref_append)
  have "\<exists>r s. ord D a = (ord B a)\<lparr>o_remaining := r, o_status := s\<rparr>"
    using assms(2) c by (auto simp: swept_def)
  moreover have "set (mp_free (bk_pool D)) =
       set (mp_free (bk_pool B)) \<union> (set (fb_live (lad d B)) - set (fb_live (lad d D)))"
    using assms unfolding swept_def by blast
  moreover have "ord D x = ord B x" if "x \<noteq> a" "x \<notin> set (fb_live (lad d B))" for x
    using assms that unfolding swept_def by (metis subsetD)
  ultimately show ?thesis
    using assms unfolding swept_def tr by (auto split: option.splits)
qed

lemma unat_min_of_nat: "of_nat (min (unat a) (unat b)) = min a b" for a b :: "'a::len word"
  by (simp add: min_def word_le_nat_alt)

lemma fill_best_swept:
  assumes inv: "book_inv {a} B" and ld: "lad d B = l # ls" and p: "p = fl_front l"
    and q: "q = min (o_remaining (ord B a)) (o_remaining (ord B p))"
  shows "swept d a B (fill_best d a B) [(o_id (ord B p), l_price l, unat q)]"
proof -
  define filled where "filled \<longleftrightarrow> o_remaining (ord B p) \<le> o_remaining (ord B a)"
  define B' where "B' = fill_best d a B"
  have a: "a \<in> {a}" by simp
  note fr = front_live [OF inv a ld, folded p]
  note obs = fill_best_obs [OF inv a ld p q filled_def, folded B'_def]
  note lv = fill_best_live [OF inv ld p filled_def, folded B'_def]
  have inv': "book_inv {a} B'" unfolding B'_def by (rule fill_best_inv [OF inv ld])
  have "mk_trade B a p q (l_price l) =
        hd (trades_from B a [(o_id (ord B p), l_price l, unat q)])"
    by (simp add: mk_trade_def trades_from_def)
  then have tr: "trades_from B a [(o_id (ord B p), l_price l, unat q)] = [mk_trade B a p q (l_price l)]"
    by (simp add: trades_from_def)
  have dist: "distinct (fb_live (lad d B))" using inv by (simp add: book_inv_def)
  obtain ps where ps: "fb_live (lad d B) = p # ps"
    using fr(2) by (metis append_Cons fb_live_simps(2) ld)
  have fre: "set (mp_free (bk_pool B')) =
       set (mp_free (bk_pool B)) \<union> (set (fb_live (lad d B)) - set (fb_live (lad d B')))"
    and sub: "set (fb_live (lad d B')) \<subseteq> set (fb_live (lad d B))"
    using dist by (auto simp: obs(5) lv(1) ps)
  have oa: "\<exists>r s. ord B' a = (ord B a)\<lparr>o_remaining := r, o_status := s\<rparr>"
    by (auto simp: obs(2))
  have other: "ord B' x = ord B x" if "x \<noteq> a" "x \<notin> set (fb_live (lad d B))" for x
    using that ps by (auto simp: obs(2))
  show ?thesis
    unfolding swept_def tr B'_def [symmetric]
    using inv' lv(2) oa other sub fre obs(6-15) fill_best_bound [OF inv ld, folded B'_def]
    by (auto split: option.splits)
qed

lemma entry_of_simps [simp]:
  "entry_of (x\<lparr>o_status := s\<rparr>) = entry_of x"
  "entry_of (x\<lparr>o_remaining := r\<rparr>) = (o_id x, o_price x, unat r)"
  by (simp_all add: entry_of_def)

lemma fill_best_view:
  assumes inv: "book_inv {a} B" and ld: "lad d B = l # ls" and p: "p = fl_front l"
    and q: "q = min (o_remaining (ord B a)) (o_remaining (ord B p))"
    and es: "side_view d B = entry_of (ord B p) # es"
  shows "side_view d (fill_best d a B) =
     (if o_remaining (ord B p) \<le> o_remaining (ord B a) then es
      else (o_id (ord B p), o_price (ord B p), unat (o_remaining (ord B p)) - unat q) # es)"
    "o_remaining (ord (fill_best d a B) a) = o_remaining (ord B a) - q"
proof -
  define filled where "filled \<longleftrightarrow> o_remaining (ord B p) \<le> o_remaining (ord B a)"
  have a: "a \<in> {a}" by simp
  note fr = front_live [OF inv a ld, folded p]
  note obs = fill_best_obs [OF inv a ld p q filled_def]
  note lv = fill_best_live [OF inv ld p filled_def]
  show "o_remaining (ord (fill_best d a B) a) = o_remaining (ord B a) - q" by (simp add: obs(2))
  have dist: "distinct (fb_live (lad d B))" using inv by (simp add: book_inv_def)
  obtain ps where ps: "fb_live (lad d B) = p # ps"
    using fr(2) by (metis append_Cons fb_live_simps(2) ld)
  have an: "a \<notin> set (p # ps)"
    using inv by (auto simp: book_inv_def live_lad [of B d] ps)
  have es': "es = map (\<lambda>x. entry_of (ord B x)) ps"
    using es by (simp add: side_view_def ps)
  have keep: "map (\<lambda>x. entry_of (ord (fill_best d a B) x)) ps = es"
    unfolding es' using an dist ps by (auto simp: obs(2))
  have up: "unat (o_remaining (ord B p) - q) = unat (o_remaining (ord B p)) - unat q"
    unfolding q by (rule unat_sub) simp
  show "side_view d (fill_best d a B) =
     (if o_remaining (ord B p) \<le> o_remaining (ord B a) then es
      else (o_id (ord B p), o_price (ord B p), unat (o_remaining (ord B p)) - unat q) # es)"
    unfolding side_view_def lv(1) ps filled_def [symmetric]
    using keep an up by (simp add: obs(2))
qed

lemma lad_nil_iff: "book_inv X B \<Longrightarrow> lad d B = [] \<longleftrightarrow> fb_live (lad d B) = []"
proof
  assume inv: "book_inv X B" and "fb_live (lad d B) = []"
  show "lad d B = []"
  proof (rule ccontr)
    assume "lad d B \<noteq> []"
    then obtain l where l: "l \<in> set (lad d B)" by (meson list.set_sel(1))
    then have "level_ok (mp_pool (bk_pool B)) d l"
      using inv by (simp add: book_inv_def ladder_ok_def)
    then have "fl_live l \<noteq> []" by (auto simp: level_ok_def fl_live_def)
    with l \<open>fb_live (lad d B) = []\<close> show False by (auto simp: fb_live_def)
  qed
qed simp

text \<open>
  The sweep returns, and what it does is what the reference matcher says.
\<close>

lemma sweep_ref:
  assumes "book_inv {a} B"
    and "\<And>C l. o_side (ord C a) = s \<Longrightarrow> o_price (ord C a) = pr \<Longrightarrow> crosses C l \<longleftrightarrow> ok (l_price l)"
    and "o_side (ord B a) = s" "o_price (ord B a) = pr"
    and "match_ref ok (unat (o_remaining (ord B a))) (side_view d B) = (fs, q', es')"
  shows "\<exists>B'. sweep crosses d a B = Some B' \<and> swept d a B B' fs \<and>
              unat (o_remaining (ord B' a)) = q' \<and> side_view d B' = es'"
  using assms
proof (induction "fb_live (lad d B)" arbitrary: B fs q' es')
  case Nil
  then have "lad d B = []" using lad_nil_iff by metis
  then have sw: "sweep crosses d a B = Some B" by (subst sweep.simps) simp
  have "side_view d B = []" using Nil.hyps by (simp add: side_view_def)
  with Nil.prems(5) sw swept_refl [OF Nil.prems(1)] show ?case by auto
next
  case (Cons p ps)
  note inv = Cons.prems(1)
  have "lad d B \<noteq> []" using Cons.hyps(2) by (metis fb_live_simps(1) list.distinct(1))
  then obtain l ls where ld: "lad d B = l # ls" by (cases "lad d B") auto
  have a: "a \<in> {a}" by simp
  note fr = front_live [OF inv a ld]
  have p: "p = fl_front l"
    using Cons.hyps(2) fr(2) by (metis append_Cons fb_live_simps(2) ld list.inject)
  note fr = fr [folded p]
  define es where "es = map (\<lambda>x. entry_of (ord B x)) ps"
  have sv: "side_view d B = entry_of (ord B p) # es"
    by (simp add: side_view_def es_def flip: Cons.hyps(2))
  have cr: "crosses B l \<longleftrightarrow> ok (l_price l)" using Cons.prems(2-4) by blast
  have op: "o_price (ord B p) = l_price l" by (rule fr(12))
  define q where "q = min (o_remaining (ord B a)) (o_remaining (ord B p))"
  define B1 where "B1 = fill_best d a B"
  note st = fill_best_swept [OF inv ld p q_def, folded B1_def]
  note vw = fill_best_view [OF inv ld p q_def sv, folded B1_def]
  show ?case
  proof (cases "0 < o_remaining (ord B a) \<and> ok (l_price l)")
    case False
    then have "sweep crosses d a B = Some B"
      using cr by (subst sweep.simps) (auto simp: ld)
    moreover have "fs = [] \<and> q' = unat (o_remaining (ord B a)) \<and> es' = side_view d B"
      using Cons.prems(5) False op by (auto simp: sv entry_of_def word_pos_iff unat_eq_0)
    ultimately show ?thesis using swept_refl [OF inv] by auto
  next
    case True
    then have sw: "sweep crosses d a B = sweep crosses d a B1"
      using cr by (subst sweep.simps) (simp add: ld B1_def)
    have rem: "unat (o_remaining (ord B1 a)) = unat (o_remaining (ord B a)) - unat q"
      unfolding vw(2) by (rule unat_sub) (simp add: q_def)
    have pos: "unat (o_remaining (ord B a)) \<noteq> 0" using True by (simp add: word_pos_iff unat_eq_0)
    have a1: "o_side (ord B1 a) = s" "o_price (ord B1 a) = pr" "book_inv {a} B1"
      using st Cons.prems(3,4) by (auto simp: swept_def)
    show ?thesis
    proof (cases "o_remaining (ord B p) \<le> o_remaining (ord B a)")
      case le: True
      then have q: "q = o_remaining (ord B p)" by (simp add: q_def)
      have le': "unat (o_remaining (ord B p)) \<le> unat (o_remaining (ord B a))"
        using le by (simp add: word_le_nat_alt)
      obtain gs where gs: "match_ref ok (unat (o_remaining (ord B1 a))) (side_view d B1) = (gs, q', es')"
        and fs: "fs = (o_id (ord B p), l_price l, unat q) # gs"
        using Cons.prems(5) True le le' pos op vw(1)
        by (auto simp: sv entry_of_def rem q split: prod.splits)
      have "ps = fb_live (lad d B1)"
        using fill_best_live(1) [OF inv ld p refl, folded B1_def] le
        by (simp flip: Cons.hyps(2))
      from Cons.hyps(1) [OF this a1(3) Cons.prems(2) a1(1,2) gs]
      obtain B' where B': "sweep crosses d a B1 = Some B'" "swept d a B1 B' gs"
        "unat (o_remaining (ord B' a)) = q'" "side_view d B' = es'" by blast
      have "swept d a B B' fs" using swept_trans [OF st B'(2)] by (simp add: fs)
      with B' sw show ?thesis by auto
    next
      case gt: False
      then have q: "q = o_remaining (ord B a)" by (simp add: q_def)
      have gt': "\<not> unat (o_remaining (ord B p)) \<le> unat (o_remaining (ord B a))"
        using gt by (simp add: word_le_nat_alt)
      have z: "o_remaining (ord B1 a) = 0" using vw(2) q by simp
      have "sweep crosses d a B1 = Some B1" using z by (subst sweep.simps) simp
      moreover have "fs = [(o_id (ord B p), l_price l, unat q)] \<and> q' = 0 \<and> es' = side_view d B1"
        using Cons.prems(5) True gt gt' pos op vw(1) by (auto simp: sv entry_of_def q)
      ultimately show ?thesis using sw st z by auto
    qed
  qed
qed

end
