(* ===== verification/RTES_Book_Refine.thy ===== *)
theory RTES_Book_Refine
  imports RTES_Book_Match
begin

text \<open>
  The order book as an implementation of the reference book: resting, matching and cancelling
  an order, on the model of \<^verbatim>\<open>src/order_book.cpp\<close>, act on the list view of the two sides
  as the reference operations do, and keep the representation invariant.
\<close>

section \<open>The reference book\<close>

text \<open>
  A reference book gives each side (true for bids) its resting orders in priority order.
\<close>

type_synonym ref_book = "bool \<Rightarrow> entry list"

definition insert_ref :: "bool \<Rightarrow> entry \<Rightarrow> entry list \<Rightarrow> entry list" where
  "insert_ref d e es =
     takeWhile (\<lambda>x. \<not> before d (entry_price e) (entry_price x)) es @ e #
     dropWhile (\<lambda>x. \<not> before d (entry_price e) (entry_price x)) es"

definition ref_accepts :: "bool \<Rightarrow> bool \<Rightarrow> Price \<Rightarrow> Price \<Rightarrow> bool" where
  "ref_accepts buy market p x \<longleftrightarrow> market \<or> (if buy then x \<le> p else p \<le> x)"

definition ref_add :: "bool \<Rightarrow> bool \<Rightarrow> entry \<Rightarrow> ref_book \<Rightarrow> entry list \<times> nat \<times> ref_book" where
  "ref_add buy market e V =
     (let (fs, q, es) = match_ref (ref_accepts buy market (entry_price e)) (entry_qty e) (V (\<not> buy));
          V1 = V((\<not> buy) := es)
      in (fs, q, if q = 0 then V1
                 else V1(buy := insert_ref buy (fst e, entry_price e, q) (V1 buy))))"

definition ref_cancel :: "OrderID \<Rightarrow> ref_book \<Rightarrow> ref_book" where
  "ref_cancel i V = (\<lambda>d. filter (\<lambda>e. fst e \<noteq> i) (V d))"

definition view :: "'c book \<Rightarrow> ref_book" where
  "view B = (\<lambda>d. side_view d B)"

section \<open>Resting an order\<close>

lemma level_ok_push:
  assumes l: "level_ok os d l \<or> l = fl_new (o_price (os ! a))"
    and room: "length (l_orders l) < 2 ^ 32 - 1"
    and a: "o_price (os ! a) = l_price l" "o_remaining (os ! a) \<noteq> 0" "o_side (os ! a) = BUY \<longleftrightarrow> d"
    and r: "r = o_remaining (os ! a)"
  shows "level_ok os d (fl_push_back a r l)" "fl_live (fl_push_back a r l) = fl_live l @ [a]"
proof -
  have h: "unat (l_head l) \<le> length (l_orders l)"
    using l by (auto simp: level_ok_def fl_new_def)
  then show lv: "fl_live (fl_push_back a r l) = fl_live l @ [a]" by (rule fl_live_push_back)
  have "l_total l + r = (\<Sum>p\<leftarrow>fl_live l @ [a]. o_remaining (os ! p))"
    using l r by (auto simp: level_ok_def)
  moreover have "l_orders (fl_push_back a r l) = l_orders l @ [a]" by (simp add: fl_push_back_def)
  moreover have "\<forall>p\<in>set (fl_live l). o_price (os ! p) = l_price l \<and> o_remaining (os ! p) \<noteq> 0 \<and>
      (o_side (os ! p) = BUY \<longleftrightarrow> d)"
    using l by (metis empty_iff fl_live_new level_ok_def list.set(1))
  ultimately show "level_ok os d (fl_push_back a r l)"
    using h room a by (auto simp: level_ok_def lv)
qed

lemma ladder_prices:
  assumes "ladder_ok os d ls" "x \<in> set (fb_live ls)"
  shows "\<exists>l\<in>set ls. o_price (os ! x) = l_price l"
  using assms by (auto simp: ladder_ok_def level_ok_def fb_live_ex)

lemma insert_ref_split:
  assumes "\<And>e. e \<in> set xs \<Longrightarrow> \<not> before d (entry_price new) (entry_price e)"
    and "\<And>e. e \<in> set ys \<Longrightarrow> before d (entry_price new) (entry_price e)"
  shows "insert_ref d new (xs @ ys) = xs @ new # ys"
proof -
  have "takeWhile (\<lambda>x. \<not> before d (entry_price new) (entry_price x)) ys = []"
    "dropWhile (\<lambda>x. \<not> before d (entry_price new) (entry_price x)) ys = ys"
    using assms(2) by (cases ys; auto)+
  then show ?thesis using assms(1) by (simp add: insert_ref_def)
qed

lemma add_to_book_ref:
  assumes inv: "book_inv {a} B" and rem: "o_remaining (ord B a) \<noteq> 0"
    and d: "d \<longleftrightarrow> o_side (ord B a) = BUY"
    and room: "\<And>l. l \<in> set (lad d B) \<Longrightarrow> length (l_orders l) < 2 ^ 32 - 1"
  obtains B' where "add_to_book (Some a) B = (Inr (), B')" "book_inv {} B'"
    "side_view d B' = insert_ref d (entry_of (ord B a)) (side_view d B)"
    "side_view (\<not> d) B' = side_view (\<not> d) B"
    "ord B' a = (ord B a)\<lparr>o_status := ACCEPTED\<rparr>" "\<forall>x. x \<noteq> a \<longrightarrow> ord B' x = ord B x"
    "bk_trades B' = bk_trades B" "bk_next_trade_id B' = bk_next_trade_id B"
    "bk_ctx B' = bk_ctx B" "bk_shutdown B' = bk_shutdown B" "bk_bbo B' = bk_bbo B"
    "bk_lookup B' = bk_lookup B" "mp_free (bk_pool B') = mp_free (bk_pool B)"
    "bk_ticks B' = bk_ticks B" "bk_callback B' = bk_callback B" "bk_symbol B' = bk_symbol B"
    "bk_clock B' = bk_clock B" "slots_of B' = slots_of B" "live B' = live B \<union> {a}"
    "\<forall>n. book_bound n B \<longrightarrow> book_bound (Suc n) B'"
proof -
  define os where "os = mp_pool (bk_pool B)"
  define pr where "pr = o_price (ord B a)"
  define r where "r = o_remaining (ord B a)"
  have ladok: "ladder_ok os e (lad e B)" and dist: "distinct (fb_live (lad e B))" for e
    using inv by (auto simp: book_inv_def os_def)
  then have srt: "ladder_sorted d (lad d B)" by (simp add: ladder_ok_def)
  obtain xs l ys where fi: "fb_find_or_insert d pr (lad d B) = (length xs, xs @ l # ys)"
    and lp: "l_price l = pr" and ls: "lad d B = xs @ l # ys \<or> lad d B = xs @ ys \<and> l = fl_new pr"
    and srt': "ladder_sorted d (xs @ l # ys)"
    by (rule fb_find_or_insert_split [OF srt])
  define l' where "l' = fl_push_back a r l"
  define B' where "B' = upd_ord a (\<lambda>x. x\<lparr>o_status := ACCEPTED\<rparr>) (set_lad d (xs @ l' # ys) B)"
  have ab: "add_to_book (Some a) B = (Inr (), B')"
    using fi by (simp add: add_to_book_def Let_def d [symmetric] pr_def [symmetric] r_def [symmetric] l'_def B'_def)
  have as: "a < slots_of B" "a \<notin> live B" "a \<notin> set (mp_free (bk_pool B))"
    using inv by (auto simp: book_inv_def)
  have la: "lad e B' = (if e = d then xs @ l' # ys else lad e B)" for e by (simp add: B'_def)
  have ord': "ord B' x = (if x = a then (ord B a)\<lparr>o_status := ACCEPTED\<rparr> else ord B x)" for x
    using as by (simp add: B'_def)
  define os' where "os' = mp_pool (bk_pool B')"
  have os': "o_price (os' ! x) = o_price (os ! x)" "o_remaining (os' ! x) = o_remaining (os ! x)"
    "o_side (os' ! x) = o_side (os ! x)" "o_id (os' ! x) = o_id (os ! x)" for x
    using ord' [of x] by (auto simp: ord_def os_def os'_def split: if_splits)
  have okc: "ladder_ok os' e ks \<longleftrightarrow> ladder_ok os e ks" for e ks
    by (rule ladder_ok_cong) (simp add: os')
  have lok: "level_ok os d l \<or> l = fl_new pr"
    and lens: "length (l_orders l) < 2 ^ 32 - 1"
    using ls ladok [of d] room [of l] by (auto simp: ladder_ok_def fl_new_def)
  have pushed: "level_ok os d l'" "fl_live l' = fl_live l @ [a]"
    using level_ok_push [of os d l a r] lok lens rem d lp
    by (auto simp: l'_def pr_def r_def os_def ord_def)
  have oth: "\<forall>m\<in>set (xs @ ys). level_ok os d m" using ls ladok [of d] by (auto simp: ladder_ok_def)
  have lp': "l_price l' = pr" by (simp add: l'_def lp)
  have new_ok: "ladder_ok os d (xs @ l' # ys)"
    using srt' oth pushed(1) by (auto simp: ladder_ok_def lp lp')
  have old: "fb_live (lad d B) = fb_live xs @ fl_live l @ fb_live ys" using ls by auto
  have new: "fb_live (lad d B') = (fb_live xs @ fl_live l) @ a # fb_live ys"
    by (simp add: la pushed)
  have lv: "live B' = live B \<union> {a}"
    unfolding live_lad [of _ d] new old by (auto simp: la)
  have na: "a \<notin> set (fb_live (lad d B))" using as(2) by (simp add: live_lad [of B d])
  have ladders: "ladder_ok os' e (lad e B') \<and> distinct (fb_live (lad e B'))" for e
  proof (cases "e = d")
    case True
    then show ?thesis
      using new_ok dist [of d] na unfolding okc True by (auto simp: new old la pushed)
  next
    case False
    then show ?thesis using ladok dist unfolding okc by (simp add: la)
  qed
  have ids: "o_id (ord B' x) = o_id (ord B x)" for x by (simp add: ord')
  have fr: "mp_free (bk_pool B') = mp_free (bk_pool B)" "slots_of B' = slots_of B"
    "mp_inv (bk_pool B') = mp_inv (bk_pool B)" "bk_lookup B' = bk_lookup B"
    by (simp_all add: B'_def)
  have lk: "map_of (bk_lookup B) i = Some x \<longleftrightarrow> x \<in> live B \<union> {a} \<and> o_id (ord B x) = i" for i x
    using inv unfolding book_inv_def by blast
  have inv': "book_inv {} B'"
    unfolding book_inv_def fr lv ids
    using ladders lk inv by (auto simp: book_inv_def os'_def)
  have ent: "entry_of (ord B' x) = entry_of (ord B x)" for x by (simp add: ord')
  have price: "entry_price (entry_of (ord B x)) = o_price (os ! x)" for x
    by (simp add: entry_of_def ord_def os_def)
  have parts: "ladder_ok os d xs" "ladder_ok os d ys"
    using oth srt' by (auto simp: ladder_ok_def sorted_wrt_append)
  have lpr: "o_price (os ! x) = pr" if "x \<in> set (fl_live l)" for x
    using lok lp that by (metis empty_iff fl_live_new level_ok_def list.set(1))
  have pa: "o_price (os ! a) = pr" by (simp add: pr_def ord_def os_def)
  have bx: "\<not> before d pr (o_price (os ! x))" if "x \<in> set (fb_live xs @ fl_live l)" for x
  proof -
    have "o_price (os ! x) = pr \<or> (\<exists>m\<in>set xs. o_price (os ! x) = l_price m)"
      using that lpr ladder_prices [OF parts(1)] by auto
    moreover have "before d (l_price m) pr" if "m \<in> set xs" for m
      using srt' that lp by (auto simp: sorted_wrt_append)
    ultimately show ?thesis using px.better_irrefl px.better_trans by metis
  qed
  have by': "before d pr (o_price (os ! x))" if x: "x \<in> set (fb_live ys)" for x
  proof -
    obtain m where "m \<in> set ys" "o_price (os ! x) = l_price m"
      using ladder_prices [OF parts(2) x] by blast
    then show ?thesis using srt' lp by (auto simp: sorted_wrt_append)
  qed
  have sv: "side_view d B' = insert_ref d (entry_of (ord B a)) (side_view d B)"
  proof -
    let ?m = "map (\<lambda>x. entry_of (ord B x))"
    have "insert_ref d (entry_of (ord B a)) (?m (fb_live xs @ fl_live l) @ ?m (fb_live ys)) =
          ?m (fb_live xs @ fl_live l) @ entry_of (ord B a) # ?m (fb_live ys)"
      using bx by' pa by (intro insert_ref_split) (auto simp: price)
    then show ?thesis unfolding side_view_def new old by (simp add: ent)
  qed
  have "side_view (\<not> d) B' = side_view (\<not> d) B" by (simp add: side_view_def la ent)
  moreover have "ord B' a = (ord B a)\<lparr>o_status := ACCEPTED\<rparr>" "\<forall>x. x \<noteq> a \<longrightarrow> ord B' x = ord B x"
    by (simp_all add: ord')
  moreover have "book_bound (Suc n) B'" if "book_bound n B" for n
  proof -
    have old: "length (l_orders m) \<le> n" if "m \<in> set (lad e B)" for e m
      using \<open>book_bound n B\<close> that by (auto simp: book_bound_def)
    have "length (l_orders l) \<le> n" using ls old [of l d] by (auto simp: fl_new_def)
    moreover have "length (l_orders m) \<le> n" if "m \<in> set (xs @ ys)" for m
      using ls old [of m d] that by auto
    ultimately show ?thesis
      using old unfolding book_bound_def la l'_def fl_push_back_def
      by (auto intro: le_SucI)
  qed
  ultimately show thesis
    using that [OF ab inv' sv] fr lv by (simp add: B'_def)
qed

section \<open>Removing an order\<close>

lemma index_from_spec:
  "x \<in> set (drop h v) \<Longrightarrow>
     \<exists>i. index_from x h v = Some i \<and> h \<le> i \<and> i < length v \<and> drop h (erase i v) = remove1 x (drop h v)"
proof (induction x h v rule: index_from.induct)
  case (1 x h v)
  then have h: "h < length v" by (metis drop_all empty_iff list.set(1) not_le)
  then have dr: "drop h v = v ! h # drop (Suc h) v" by (rule drop_eq_Cons)
  show ?case
  proof (cases "v ! h = x")
    case True
    then have "index_from x h v = Some h" using h by (simp add: index_from.simps)
    moreover have "drop h (erase h v) = drop (Suc h) v" using h by (simp add: erase_def)
    ultimately show ?thesis using True h dr by auto
  next
    case False
    with "1.prems" dr have "x \<in> set (drop (Suc h) v)" by simp
    from "1.IH" [OF h False this] obtain i where i: "index_from x (Suc h) v = Some i"
      "Suc h \<le> i" "i < length v" "drop (Suc h) (erase i v) = remove1 x (drop (Suc h) v)" by blast
    have "length (erase i v) = length v - 1" using i(3) by (simp add: erase_def)
    then have "drop h (erase i v) = erase i v ! h # drop (Suc h) (erase i v)"
      using i by (intro drop_eq_Cons) simp
    moreover have "erase i v ! h = v ! h" using i by (simp add: erase_def nth_append)
    moreover have "index_from x h v = Some i" using h False i(1) by (subst index_from.simps) simp
    ultimately show ?thesis using False i dr by auto
  qed
qed

lemma level_ok_remove:
  assumes ok: "level_ok os d l" and a: "a \<in> set (fl_live l)"
    and live: "fl_live l' = remove1 a (fl_live l)" "remove1 a (fl_live l) \<noteq> []"
    and l': "l_price l' = l_price l" "l_total l' = l_total l - o_remaining (os ! a)"
      "length (l_orders l') < 2 ^ 32"
  shows "level_ok os d l'"
proof -
  have "unat (l_head l') < length (l_orders l')"
    using live by (metis drop_all fl_live_def not_le)
  moreover have "set (fl_live l') \<subseteq> set (fl_live l)" using live(1) by (simp add: set_remove1_subset)
  ultimately show ?thesis
    using ok l' sum_list_remove1 [OF a, of "\<lambda>p. o_remaining (os ! p)"]
    by (auto simp: level_ok_def live(1))
qed

lemma remove_from_book_ref:
  assumes inv: "book_inv {} B" and a: "a \<in> live B" and d: "d \<longleftrightarrow> o_side (ord B a) = BUY"
  obtains ls where "remove_from_book a B = set_lad d ls B"
    "ladder_ok (mp_pool (bk_pool B)) d ls" "fb_live ls = remove1 a (fb_live (lad d B))"
    "a \<in> set (fb_live (lad d B))"
proof -
  define os where "os = mp_pool (bk_pool B)"
  have ladok: "ladder_ok os e (lad e B)" and dist: "distinct (fb_live (lad e B))" for e
    using inv by (auto simp: book_inv_def os_def)
  have mem: "a \<in> set (fb_live (lad d B))"
    using a d ladder_ok_live(2) [OF ladok, of a "\<not> d"]
    by (auto simp: live_lad [of B d] ord_def os_def)
  then obtain l where l: "l \<in> set (lad d B)" "a \<in> set (fl_live l)" by (auto simp: fb_live_ex)
  then obtain xs ys where ld: "lad d B = xs @ l # ys" by (meson split_list)
  have lok: "level_ok os d l" using ladok [of d] l by (simp add: ladder_ok_def)
  then have pr: "o_price (ord B a) = l_price l" using l by (simp add: level_ok_def ord_def os_def)
  have srt: "ladder_sorted d (xs @ l # ys)" using ladok [of d] by (simp add: ladder_ok_def ld)
  have fi: "fb_find d (l_price l) (xs @ l # ys) = Some (length xs)" by (rule fb_find_member [OF srt])
  obtain i where i: "index_from a (unat (l_head l)) (l_orders l) = Some i" "unat (l_head l) \<le> i"
    "i < length (l_orders l)" "drop (unat (l_head l)) (erase i (l_orders l)) = remove1 a (fl_live l)"
    using index_from_spec [of a "unat (l_head l)" "l_orders l"] l(2) unfolding fl_live_def by blast
  define l' where "l' = l\<lparr>l_orders := erase i (l_orders l), l_total := l_total l - o_remaining (ord B a)\<rparr>"
  have live': "fl_live l' = remove1 a (fl_live l)" using i(4) by (simp add: l'_def fl_live_def)
  have fe: "fl_empty l' \<longleftrightarrow> remove1 a (fl_live l) = []" by (simp add: fl_empty_live live')
  have pl': "l_price l' = l_price l" by (simp add: l'_def)
  have rm: "fb_remove d (l_price l) (xs @ l' # ys) = xs @ ys"
    using fb_remove_member [of d xs l' ys] srt by (simp add: pl')
  define ls where "ls = (if remove1 a (fl_live l) = [] then xs @ ys else xs @ l' # ys)"
  have eq: "remove_from_book a B = set_lad d ls B"
    using i(1,2) fi fe rm
    by (simp add: remove_from_book_def d [symmetric] pr ld Let_def ls_def l'_def)
  have oth: "\<forall>m\<in>set (xs @ ys). level_ok os d m" using ladok [of d] by (auto simp: ladder_ok_def ld)
  have "length (l_orders l') < 2 ^ 32"
    using lok i(3) by (auto simp: l'_def erase_def level_ok_def intro: less_imp_diff_less)
  then have "level_ok os d l'" if "remove1 a (fl_live l) \<noteq> []"
    by (intro level_ok_remove [OF lok l(2) live' that])
      (simp_all add: l'_def ord_def os_def)
  then have ok: "ladder_ok os d ls"
    using srt oth by (auto simp: ls_def ladder_ok_def pl' sorted_wrt_append)
  have nx: "a \<notin> set (fb_live xs)" using dist [of d] l(2) by (auto simp: ld)
  have "fb_live ls = remove1 a (fb_live (lad d B))"
    using nx l(2) live' by (auto simp: ls_def ld remove1_append)
  then show thesis using that [OF eq] ok mem by (simp add: os_def)
qed

lemma free_ord_pool:
  assumes "mp_inv (bk_pool B)" "p < slots_of B" "p \<notin> set (mp_free (bk_pool B))"
  shows "mp_inv (bk_pool (free_ord p B))" "mp_free (bk_pool (free_ord p B)) = p # mp_free (bk_pool B)"
  using mp_deallocate_ok [OF assms(1), of p] assms(2,3) slots_eq [OF assms(1)]
  by (simp_all add: free_ord_def)

lemma cancel_order_ref:
  assumes inv: "book_inv {} B" and up: "\<not> bk_shutdown B" and lk: "map_of (bk_lookup B) i = Some a"
  obtains B' where "cancel_order i B = (Inr (), B')" "book_inv {} B'" "view B' = ref_cancel i (view B)"
    "mp_free (bk_pool B') = a # mp_free (bk_pool B)" "ord B' a = (ord B a)\<lparr>o_status := CANCELLED\<rparr>"
    "\<forall>x. x \<noteq> a \<longrightarrow> ord B' x = ord B x" "bk_lookup B' = AList.delete i (bk_lookup B)"
    "bk_trades B' = bk_trades B" "bk_next_trade_id B' = bk_next_trade_id B" "bk_ctx B' = bk_ctx B"
    "\<not> bk_shutdown B'" "bk_callback B' = bk_callback B" "slots_of B' = slots_of B"
    "\<exists>C. B' = update_bbo_snapshot C \<and> bk_bbo C = bk_bbo B"
proof -
  define os where "os = mp_pool (bk_pool B)"
  define d where "d \<longleftrightarrow> o_side (ord B a) = BUY"
  have lkall: "map_of (bk_lookup B) j = Some x \<longleftrightarrow> x \<in> live B \<and> o_id (ord B x) = j" for j x
    using inv unfolding book_inv_def by blast
  then have a: "a \<in> live B" "o_id (ord B a) = i" using lk by auto
  have uniq: "x = a" if "x \<in> live B" "o_id (ord B x) = i" for x
    using lkall [of i x] that lk by simp
  obtain ls where ls: "remove_from_book a B = set_lad d ls B" "ladder_ok os d ls"
    "fb_live ls = remove1 a (fb_live (lad d B))" "a \<in> set (fb_live (lad d B))"
    using remove_from_book_ref [OF inv a(1) d_def] unfolding os_def by blast
  define C where "C = free_ord a (upd_ord a (\<lambda>x. x\<lparr>o_status := CANCELLED\<rparr>)
      ((set_lad d ls B)\<lparr>bk_lookup := AList.delete i (bk_lookup B)\<rparr>))"
  define B' where "B' = update_bbo_snapshot C"
  have eq: "cancel_order i B = (Inr (), B')"
    using up lk ls(1) by (simp add: cancel_order_def B'_def C_def Let_def)
  have as: "a < slots_of B" "a \<notin> set (mp_free (bk_pool B))" and pinv: "mp_inv (bk_pool B)"
    using inv a(1) by (auto simp: book_inv_def)
  have la: "lad e B' = (if e = d then ls else lad e B)" for e by (simp add: B'_def C_def)
  have ord': "ord B' x = (if x = a then (ord B a)\<lparr>o_status := CANCELLED\<rparr> else ord B x)" for x
    using as by (simp add: B'_def C_def)
  have pool: "mp_inv (bk_pool B')" "mp_free (bk_pool B') = a # mp_free (bk_pool B)"
    using pinv as by (simp_all add: B'_def C_def free_ord_pool)
  define os' where "os' = mp_pool (bk_pool B')"
  have os': "o_price (os' ! x) = o_price (os ! x)" "o_remaining (os' ! x) = o_remaining (os ! x)"
    "o_side (os' ! x) = o_side (os ! x)" for x
    using ord' [of x] by (auto simp: ord_def os_def os'_def split: if_splits)
  have okc: "ladder_ok os' e ks \<longleftrightarrow> ladder_ok os e ks" for e ks
    by (rule ladder_ok_cong) (simp add: os')
  have ladok: "ladder_ok os e (lad e B)" and dist: "distinct (fb_live (lad e B))" for e
    using inv by (auto simp: book_inv_def os_def)
  have ladders: "ladder_ok os' e (lad e B') \<and> distinct (fb_live (lad e B'))" for e
    using ladok dist ls(2,3) unfolding okc by (auto simp: la distinct_remove1)
  have ano: "a \<notin> set (fb_live (lad (\<not> d) B))" using sides_disjoint [OF inv, of d] ls(4) by blast
  have lv: "live B' = live B - {a}"
    unfolding live_lad [of _ d] using dist [of d] ano by (auto simp: la ls(3))
  have ids: "o_id (ord B' x) = o_id (ord B x)" for x by (simp add: ord')
  have fr: "slots_of B' = slots_of B" "bk_lookup B' = AList.delete i (bk_lookup B)"
    by (simp_all add: B'_def C_def)
  have lk': "map_of (bk_lookup B') j = Some x \<longleftrightarrow> x \<in> live B' \<and> o_id (ord B' x) = j" for j x
    using lkall [of j x] uniq [of x] a(2) unfolding fr ids lv by (cases "j = i") auto
  have inv': "book_inv {} B'"
    unfolding book_inv_def using ladders lk' inv pool lv
    by (auto simp: book_inv_def os'_def fr)
  have ent: "entry_of (ord B' x) = entry_of (ord B x)" for x by (simp add: ord')
  have idi: "o_id (ord B x) = i \<longleftrightarrow> x = a" if "x \<in> live B" for x
    using uniq [OF that] a(2) by blast
  have flt: "fb_live (lad e B') = filter (\<lambda>x. o_id (ord B x) \<noteq> i) (fb_live (lad e B))" for e
  proof (cases "e = d")
    case True
    have "remove1 a (fb_live (lad d B)) = filter (\<lambda>x. a \<noteq> x) (fb_live (lad d B))"
      using dist [of d] by (simp add: distinct_remove1_removeAll removeAll_filter_not_eq)
    also have "\<dots> = filter (\<lambda>x. o_id (ord B x) \<noteq> i) (fb_live (lad d B))"
      using idi by (intro filter_cong) (auto simp: live_lad [of B d])
    finally show ?thesis using True by (simp add: la ls(3))
  next
    case False
    then have "e = (\<not> d)" by auto
    then have "\<forall>x\<in>set (fb_live (lad e B)). o_id (ord B x) \<noteq> i"
      using idi ano by (auto simp: live_lad [of B d])
    then show ?thesis using False by (simp add: la)
  qed
  have vw: "view B' = ref_cancel i (view B)"
    by (rule ext) (simp add: view_def ref_cancel_def side_view_def flt ent filter_map o_def,
        simp add: entry_of_def)
  have rest: "bk_trades B' = bk_trades B" "bk_next_trade_id B' = bk_next_trade_id B"
    "bk_ctx B' = bk_ctx B" "\<not> bk_shutdown B'" "bk_callback B' = bk_callback B"
    using up by (simp_all add: B'_def C_def)
  have bbo: "\<exists>C. B' = update_bbo_snapshot C \<and> bk_bbo C = bk_bbo B"
    by (rule exI [of _ C]) (simp add: B'_def C_def)
  show thesis
    by (rule that [OF eq inv' vw pool(2) _ _ fr(2) rest fr(1) bbo]) (simp_all add: ord')
qed

section \<open>Adding an order\<close>

definition fresh :: "nat \<Rightarrow> 'c book \<Rightarrow> bool" where
  "fresh a B \<longleftrightarrow> a < slots_of B \<and> a \<notin> set (mp_free (bk_pool B)) \<and> a \<notin> live B"

lemma live_lookup_upd [simp]: "live (B\<lparr>bk_lookup := m\<rparr>) = live B"
  by (simp add: live_def)

lemma book_inv_register:
  assumes inv: "book_inv {} B" and a: "fresh a B" and dup: "map_of (bk_lookup B) (o_id (ord B a)) = None"
  shows "book_inv {a} (B\<lparr>bk_lookup := AList.update (o_id (ord B a)) a (bk_lookup B)\<rparr>)"
proof -
  have lk: "map_of (bk_lookup B) j = Some x \<longleftrightarrow> x \<in> live B \<and> o_id (ord B x) = j" for j x
    using inv unfolding book_inv_def by blast
  have "map_of (AList.update (o_id (ord B a)) a (bk_lookup B)) j = Some x \<longleftrightarrow>
        x \<in> live B \<union> {a} \<and> o_id (ord B x) = j" for j x
    using lk [of j x] dup a by (auto simp: fresh_def)
  with inv a show ?thesis by (auto simp: book_inv_def fresh_def)
qed

lemma book_inv_unregister:
  assumes inv: "book_inv {a} B"
  shows "book_inv {} (B\<lparr>bk_lookup := AList.delete (o_id (ord B a)) (bk_lookup B)\<rparr>)"
proof -
  have lk: "map_of (bk_lookup B) j = Some x \<longleftrightarrow> x \<in> live B \<union> {a} \<and> o_id (ord B x) = j" for j x
    using inv unfolding book_inv_def by blast
  have an: "a \<notin> live B" using inv by (simp add: book_inv_def)
  have la: "map_of (bk_lookup B) (o_id (ord B a)) = Some a" using lk by blast
  have "map_of (AList.delete (o_id (ord B a)) (bk_lookup B)) j = Some x \<longleftrightarrow>
        x \<in> live B \<and> o_id (ord B x) = j" for j x
    using lk [of j x] la an by (cases "j = o_id (ord B a)") auto
  with inv show ?thesis by (auto simp: book_inv_def)
qed

lemma match_order_ref:
  assumes inv: "book_inv {a} B" and up: "\<not> bk_shutdown B"
    and s: "s = o_side (ord B a)" and m: "m \<longleftrightarrow> o_type (ord B a) = MARKET"
    and ref: "match_ref (ref_accepts (s = BUY) m (o_price (ord B a)))
                (unat (o_remaining (ord B a))) (side_view (s \<noteq> BUY) B) = (fs, q, es)"
  obtains B' where "match_order (Some a) B = Some (Inr (), B')" "swept (s \<noteq> BUY) a B B' fs"
    "unat (o_remaining (ord B' a)) = q" "side_view (s \<noteq> BUY) B' = es"
proof -
  define crosses where "crosses = (if m then (\<lambda>_ _. True) else limit_crosses a :: 'a book \<Rightarrow> flat_level \<Rightarrow> bool)"
  have cr: "crosses C l \<longleftrightarrow> ref_accepts (s = BUY) m (o_price (ord B a)) (l_price l)"
    if "o_side (ord C a) = s" "o_price (ord C a) = o_price (ord B a)" for C l
    using that by (simp add: crosses_def ref_accepts_def limit_crosses_def)
  have "\<exists>B'. sweep crosses (s \<noteq> BUY) a B = Some B' \<and> swept (s \<noteq> BUY) a B B' fs \<and>
             unat (o_remaining (ord B' a)) = q \<and> side_view (s \<noteq> BUY) B' = es"
    by (rule sweep_ref [OF inv _ s [symmetric] refl ref]) (rule cr)
  then obtain B' where B': "sweep crosses (s \<noteq> BUY) a B = Some B'" "swept (s \<noteq> BUY) a B B' fs"
    "unat (o_remaining (ord B' a)) = q" "side_view (s \<noteq> BUY) B' = es" by blast
  have "match_order (Some a) B = Some (Inr (), B')"
    using up B'(1) by (cases m) (simp_all add: match_order_def match_market_order_def match_limit_order_def
        crosses_def flip: s m)
  with B' that show thesis by blast
qed

lemma view_lookup_upd [simp]: "view (B\<lparr>bk_lookup := m\<rparr>) = view B" "side_view d (B\<lparr>bk_lookup := m\<rparr>) = side_view d B"
  by (simp_all add: view_def side_view_def)

lemma view_update_bbo [simp]: "view (update_bbo_snapshot B) = view B"
  "side_view d (update_bbo_snapshot B) = side_view d B"
  by (simp_all add: view_def side_view_def)

lemma live_update_bbo [simp]: "live (update_bbo_snapshot B) = live B"
  by (simp add: live_lad [of _ True])

lemma book_inv_update_bbo [simp]: "book_inv X (update_bbo_snapshot B) \<longleftrightarrow> book_inv X B"
  by (simp add: book_inv_def)

lemma trades_from_lookup [simp]: "trades_from (B\<lparr>bk_lookup := m\<rparr>) a fs = trades_from B a fs"
  by (simp add: trades_from_def)

text \<open>What an accepted order leaves behind, in terms of the fills \<open>fs\<close> it took.\<close>

definition added :: "nat \<Rightarrow> 'c book \<Rightarrow> entry list \<Rightarrow> 'c book \<Rightarrow> bool" where
  "added a B fs B' \<longleftrightarrow>
     book_inv {} B' \<and>
     bk_trades B' = bk_trades B @ trades_from B a fs \<and>
     bk_next_trade_id B' = bk_next_trade_id B + of_nat (length fs) \<and>
     bk_ctx B' = (case bk_callback B of None \<Rightarrow> bk_ctx B | Some cb \<Rightarrow> fold cb (trades_from B a fs) (bk_ctx B)) \<and>
     set (mp_free (bk_pool B')) = set (mp_free (bk_pool B)) \<union> (live B - live B') \<and>
     live B' - {a} \<subseteq> live B \<and>
     (a \<in> live B' \<longleftrightarrow> o_remaining (ord B' a) \<noteq> 0) \<and>
     (\<exists>r s. ord B' a = (ord B a)\<lparr>o_remaining := r, o_status := s\<rparr>) \<and>
     (\<forall>x. x \<noteq> a \<longrightarrow> x \<notin> live B \<longrightarrow> ord B' x = ord B x) \<and>
     (\<exists>C. B' = update_bbo_snapshot C \<and> bk_bbo C = bk_bbo B) \<and>
     bk_callback B' = bk_callback B \<and> bk_symbol B' = bk_symbol B \<and> bk_clock B' = bk_clock B \<and>
     bk_ticks B' = bk_ticks B + length fs \<and> bk_shutdown B' = bk_shutdown B \<and> slots_of B' = slots_of B \<and>
     (\<forall>n. book_bound n B \<longrightarrow> book_bound (Suc n) B')"

lemma add_order_ref:
  assumes inv: "book_inv {} B" and up: "\<not> bk_shutdown B" and fresh: "fresh a B"
    and rem: "o_remaining (ord B a) \<noteq> 0"
    and dup: "map_of (bk_lookup B) (o_id (ord B a)) = None" and room: "book_room B"
    and ref: "ref_add (o_side (ord B a) = BUY) (o_type (ord B a) = MARKET) (entry_of (ord B a)) (view B) =
                (fs, q, V)"
  obtains B' where "add_order (Some a) B = Some (Inr (), B')" "added a B fs B'" "view B' = V"
    "unat (o_remaining (ord B' a)) = q"
proof -
  define s where "s = o_side (ord B a)"
  define buy where "buy \<longleftrightarrow> s = BUY"
  define B0 where "B0 = B\<lparr>bk_lookup := AList.update (o_id (ord B a)) a (bk_lookup B)\<rparr>"
  have inv0: "book_inv {a} B0" unfolding B0_def by (rule book_inv_register [OF inv fresh dup])
  obtain es where mr: "match_ref (ref_accepts (s = BUY) (o_type (ord B a) = MARKET) (o_price (ord B a)))
      (unat (o_remaining (ord B a))) (side_view (s \<noteq> BUY) B) = (fs, q, es)"
    and V: "V = (if q = 0 then (view B)((\<not> buy) := es)
                 else (view B)((\<not> buy) := es, buy := insert_ref buy (o_id (ord B a), o_price (ord B a), q)
                        (((view B)((\<not> buy) := es)) buy)))"
    using ref by (auto simp: ref_add_def view_def s_def buy_def entry_of_def Let_def split: prod.splits)
  obtain B1 where m: "match_order (Some a) B0 = Some (Inr (), B1)" and sw: "swept (s \<noteq> BUY) a B0 B1 fs"
    and q: "unat (o_remaining (ord B1 a)) = q" and es: "side_view (s \<noteq> BUY) B1 = es"
    by (rule match_order_ref [OF inv0, of s "o_type (ord B a) = MARKET" fs q es])
      (use up mr in \<open>auto simp: B0_def s_def\<close>)
  have inv1: "book_inv {a} B1" and la1: "lad buy B1 = lad buy B"
    using sw by (simp_all add: swept_def buy_def B0_def)
  obtain r st where oa: "ord B1 a = (ord B a)\<lparr>o_remaining := r, o_status := st\<rparr>"
    using sw by (auto simp: swept_def B0_def)
  have own: "side_view buy B1 = side_view buy B"
  proof -
    have "ord B1 x = ord B x" if "x \<in> set (fb_live (lad buy B))" for x
    proof -
      have "x \<notin> set (fb_live (lad (\<not> buy) B))" using sides_disjoint [OF inv, of buy] that by blast
      moreover have "x \<noteq> a" using fresh that by (auto simp: fresh_def live_lad [of B buy])
      ultimately show ?thesis using sw by (auto simp: swept_def B0_def buy_def)
    qed
    then show ?thesis by (simp add: side_view_def la1)
  qed
  have lv1: "live B1 \<subseteq> live B" "a \<notin> live B1"
    "set (mp_free (bk_pool B1)) = set (mp_free (bk_pool B)) \<union> (live B - live B1)"
    using sw inv1 sides_disjoint [OF inv, of buy]
    by (auto simp: swept_def B0_def buy_def live_lad [of _ "s \<noteq> BUY"] book_inv_def)
  have bnd: "\<forall>n. book_bound n B \<longrightarrow> book_bound (Suc n) B1"
    using sw book_bound_mono by (fastforce simp: swept_def B0_def)
  show thesis
  proof (cases "q = 0")
    case True
    then have r0: "o_remaining (ord B1 a) = 0" using q by (simp add: unat_eq_0)
    define C where "C = B1\<lparr>bk_lookup := AList.delete (o_id (ord B1 a)) (bk_lookup B1)\<rparr>"
    have eq: "add_order (Some a) B = Some (Inr (), update_bbo_snapshot C)"
      using up rem dup m r0 by (simp add: add_order_def B0_def C_def)
    have "added a B fs (update_bbo_snapshot C)"
      using sw lv1 r0 oa book_inv_unregister [OF inv1] bnd
      by (auto simp: added_def swept_def C_def B0_def live_lad [of B "s \<noteq> BUY"]
          split: option.splits)
    moreover have "view (update_bbo_snapshot C) = V"
    proof
      fix e
      show "view (update_bbo_snapshot C) e = V e"
        using own es True by (cases "e = buy") (auto simp: V C_def view_def buy_def)
    qed
    ultimately show ?thesis
      using that [OF eq] q by (simp add: C_def)
  next
    case False
    then have r1: "o_remaining (ord B1 a) \<noteq> 0" using q by (auto simp: unat_eq_0)
    have d: "buy \<longleftrightarrow> o_side (ord B1 a) = BUY" by (simp add: buy_def s_def oa)
    have room1: "length (l_orders l) < 2 ^ 32 - 1" if "l \<in> set (lad buy B1)" for l
      using book_room_lad [OF room, of l buy] that la1 by simp
    obtain B2 where B2: "add_to_book (Some a) B1 = (Inr (), B2)" "book_inv {} B2"
      "side_view buy B2 = insert_ref buy (entry_of (ord B1 a)) (side_view buy B1)"
      "side_view (\<not> buy) B2 = side_view (\<not> buy) B1"
      "ord B2 a = (ord B1 a)\<lparr>o_status := ACCEPTED\<rparr>" "\<forall>x. x \<noteq> a \<longrightarrow> ord B2 x = ord B1 x"
      "bk_trades B2 = bk_trades B1" "bk_next_trade_id B2 = bk_next_trade_id B1"
      "bk_ctx B2 = bk_ctx B1" "bk_shutdown B2 = bk_shutdown B1" "bk_bbo B2 = bk_bbo B1"
      "bk_lookup B2 = bk_lookup B1" "mp_free (bk_pool B2) = mp_free (bk_pool B1)"
      "bk_ticks B2 = bk_ticks B1" "bk_callback B2 = bk_callback B1" "bk_symbol B2 = bk_symbol B1"
      "bk_clock B2 = bk_clock B1" "slots_of B2 = slots_of B1" "live B2 = live B1 \<union> {a}"
      "\<forall>n. book_bound n B1 \<longrightarrow> book_bound (Suc n) B2"
      by (rule add_to_book_ref [OF inv1 r1 d room1])
    have eq: "add_order (Some a) B = Some (Inr (), update_bbo_snapshot B2)"
      using up rem dup m r1 B2(1) by (simp add: add_order_def B0_def word_pos_iff)
    have "added a B fs (update_bbo_snapshot B2)"
      using sw lv1 r1 oa B2 fresh
      by (auto simp: added_def swept_def B0_def fresh_def live_lad [of B "s \<noteq> BUY"]
          split: option.splits)
    moreover have "view (update_bbo_snapshot B2) = V"
    proof
      fix e
      show "view (update_bbo_snapshot B2) e = V e"
        using own es False q B2(3,4) oa
        by (cases "e = buy") (auto simp: V view_def buy_def entry_of_def)
    qed
    ultimately show ?thesis
      using that [OF eq] q B2(5) by simp
  qed
qed

end
