(* ===== verification/RTES_Book_Spec.thy ===== *)
theory RTES_Book_Spec
  imports RTES_Book_Refine
begin

text \<open>
  What the reference matcher promises (conservation, priority, an uncrossed book), the contract
  of an order book towards its clients as a locale, and its interpretation on the order book of
  \<^verbatim>\<open>src/order_book.cpp\<close>.
\<close>

section \<open>Facts on the reference matcher\<close>

abbreviation total_qty :: "entry list \<Rightarrow> nat" where
  "total_qty es \<equiv> sum_list (map entry_qty es)"

definition ref_sorted :: "bool \<Rightarrow> entry list \<Rightarrow> bool" where
  "ref_sorted d es \<longleftrightarrow> sorted_wrt (\<lambda>e f. \<not> before d (entry_price f) (entry_price e)) es"

definition ref_uncrossed :: "ref_book \<Rightarrow> bool" where
  "ref_uncrossed V \<longleftrightarrow> (\<forall>e\<in>set (V True). \<forall>f\<in>set (V False). entry_price e < entry_price f)"

definition ref_wf :: "ref_book \<Rightarrow> bool" where
  "ref_wf V \<longleftrightarrow> (\<forall>d. ref_sorted d (V d) \<and> (\<forall>e\<in>set (V d). 0 < entry_qty e)) \<and> ref_uncrossed V"

lemma match_ref_runs [consumes 1, case_names none stop full part]:
  assumes "match_ref ok q es = (fs, q', es')"
    and none: "\<And>q. P q [] [] q []"
    and stop: "\<And>q i p r es. q = 0 \<or> \<not> ok p \<Longrightarrow> P q ((i, p, r) # es) [] q ((i, p, r) # es)"
    and full: "\<And>q i p r es fs q' es'. q \<noteq> 0 \<Longrightarrow> ok p \<Longrightarrow> r \<le> q \<Longrightarrow> P (q - r) es fs q' es' \<Longrightarrow>
                P q ((i, p, r) # es) ((i, p, r) # fs) q' es'"
    and part: "\<And>q i p r es. q \<noteq> 0 \<Longrightarrow> ok p \<Longrightarrow> q < r \<Longrightarrow>
                P q ((i, p, r) # es) [(i, p, q)] 0 ((i, p, r - q) # es)"
  shows "P q es fs q' es'"
  using assms(1)
proof (induction es arbitrary: q fs q' es')
  case Nil
  then show ?case using none by simp
next
  case (Cons e es)
  obtain i p r where e: "e = (i, p, r)" by (cases e)
  consider "q = 0 \<or> \<not> ok p" | "q \<noteq> 0" "ok p" "r \<le> q" | "q \<noteq> 0" "ok p" "q < r" by force
  then show ?case
  proof cases
    case 1
    with Cons.prems stop show ?thesis by (auto simp: e)
  next
    case 2
    then obtain gs where "match_ref ok (q - r) es = (gs, q', es')" "fs = (i, p, r) # gs"
      using Cons.prems by (auto simp: e split: prod.splits)
    with Cons.IH full [OF 2] show ?thesis by (simp add: e)
  next
    case 3
    with Cons.prems part [OF 3, of i es] show ?thesis by (auto simp: e)
  qed
qed

lemma match_ref_conserves:
  "match_ref ok q es = (fs, q', es') \<Longrightarrow>
     total_qty fs + q' = q \<and> total_qty fs + total_qty es' = total_qty es"
  by (induction rule: match_ref_runs) auto

text \<open>
  The fills are taken from the front, in order and at the resting price; every one but the
  last takes its order whole, and the side keeps the rest in order.
\<close>

abbreviation id_price :: "entry \<Rightarrow> OrderID \<times> Price" where
  "id_price e \<equiv> (fst e, entry_price e)"

lemma match_ref_priority:
  "match_ref ok q es = (fs, q', es') \<Longrightarrow>
     map id_price fs = map id_price (take (length fs) es) \<and>
     butlast fs = take (length fs - 1) es \<and> (\<forall>e\<in>set fs. ok (entry_price e))"
proof (induction rule: match_ref_runs)
  case (full q i p r es fs q' es')
  then show ?case by (cases fs) auto
qed auto

lemma match_ref_stops:
  "match_ref ok q es = (fs, q', es') \<Longrightarrow> q' = 0 \<or> es' = [] \<or> \<not> ok (entry_price (hd es'))"
  by (induction rule: match_ref_runs) auto

lemma match_ref_suffix:
  "match_ref ok q es = (fs, q', es') \<Longrightarrow> \<exists>xs. map id_price es = xs @ map id_price es'"
proof (induction rule: match_ref_runs)
  case (full q i p r es fs q' es')
  then obtain xs where "map id_price es = xs @ map id_price es'" by blast
  then have "map id_price ((i, p, r) # es) = ((i, p) # xs) @ map id_price es'" by simp
  then show ?case by blast
qed auto

lemma match_ref_pos:
  "match_ref ok q es = (fs, q', es') \<Longrightarrow> \<forall>e\<in>set es. 0 < entry_qty e \<Longrightarrow>
     (\<forall>e\<in>set es'. 0 < entry_qty e) \<and> (\<forall>e\<in>set fs. 0 < entry_qty e)"
  by (induction rule: match_ref_runs) auto

lemma match_ref_price_suffix:
  assumes "match_ref ok q es = (fs, q', es')"
  shows "\<exists>xs. map entry_price es = xs @ map entry_price es'"
proof -
  obtain xs where "map id_price es = xs @ map id_price es'"
    using match_ref_suffix [OF assms] by blast
  then have "map snd (map id_price es) = map snd xs @ map snd (map id_price es')"
    by (metis map_append)
  then have "map entry_price es = map snd xs @ map entry_price es'" by (simp add: o_def)
  then show ?thesis by blast
qed

lemma match_ref_prices:
  assumes "match_ref ok q es = (fs, q', es')"
  shows "entry_price ` set es' \<subseteq> entry_price ` set es"
  using match_ref_price_suffix [OF assms] by (metis Un_upper2 list.set_map set_append)

lemma ref_sorted_map: "ref_sorted d es \<longleftrightarrow> sorted_wrt (\<lambda>p q. \<not> before d q p) (map entry_price es)"
  by (simp add: ref_sorted_def sorted_wrt_map)

lemma match_ref_sorted:
  "match_ref ok q es = (fs, q', es') \<Longrightarrow> ref_sorted d es \<Longrightarrow> ref_sorted d es'"
  using match_ref_price_suffix by (fastforce simp: ref_sorted_map sorted_wrt_append)

lemma insert_ref_set [simp]: "set (insert_ref d e es) = insert e (set es)"
proof -
  have "set es = set (takeWhile P es) \<union> set (dropWhile P es)" for P
    by (metis set_append takeWhile_dropWhile_id)
  then show ?thesis by (auto simp: insert_ref_def)
qed

lemma insert_ref_sorted:
  assumes "ref_sorted d es"
  shows "ref_sorted d (insert_ref d e es)"
proof -
  let ?P = "\<lambda>x. \<not> before d (entry_price e) (entry_price x)"
  define xs ys where "xs = takeWhile ?P es" and "ys = dropWhile ?P es"
  have es: "es = xs @ ys" by (simp add: xs_def ys_def)
  have x: "?P x" if "x \<in> set xs" for x using that by (auto simp: xs_def dest: set_takeWhileD)
  have y: "before d (entry_price e) (entry_price y)" if "y \<in> set ys" for y
  proof (cases ys)
    case (Cons z zs)
    then have "before d (entry_price e) (entry_price z)"
      by (metis dropWhile_eq_Cons_conv ys_def)
    moreover have "y = z \<or> \<not> before d (entry_price y) (entry_price z)"
      using assms that by (auto simp: es Cons ref_sorted_def sorted_wrt_append)
    ultimately show ?thesis
      using px.better_total [of "entry_price y" "entry_price z" d] px.better_trans by metis
  qed (use that in simp)
  have "\<not> before d (entry_price y) (entry_price e)" if "y \<in> set ys" for y
    using y [OF that] px.better_trans px.better_irrefl by blast
  then show ?thesis
    using assms x unfolding insert_ref_def xs_def [symmetric] ys_def [symmetric]
    by (auto simp: es ref_sorted_def sorted_wrt_append)
qed

lemma sorted_all_worse:
  assumes "ref_sorted d es" "es \<noteq> []" "\<not> ref_accepts (\<not> d) False p (entry_price (hd es))" "e \<in> set es"
  shows "before (\<not> d) (entry_price e) p"
  using assms by (cases es) (auto simp: ref_sorted_def ref_accepts_def before_def split: if_splits)

lemma ref_add_wf:
  assumes wf: "ref_wf V" and add: "ref_add buy market e V = (fs, q, V')"
  shows "ref_wf V'"
proof -
  obtain es where m: "match_ref (ref_accepts buy market (entry_price e)) (entry_qty e) (V (\<not> buy)) = (fs, q, es)"
    and V': "V' = (if q = 0 then V((\<not> buy) := es)
                   else V((\<not> buy) := es, buy := insert_ref buy (fst e, entry_price e, q) (V buy)))"
    using add by (auto simp: ref_add_def Let_def split: prod.splits)
  have srt: "ref_sorted d (V d)" and pos: "\<forall>e\<in>set (V d). 0 < entry_qty e" for d
    using wf by (auto simp: ref_wf_def)
  have es: "ref_sorted (\<not> buy) es" "\<forall>e\<in>set es. 0 < entry_qty e"
    "entry_price ` set es \<subseteq> entry_price ` set (V (\<not> buy))"
    using match_ref_sorted [OF m srt] match_ref_pos [OF m pos] match_ref_prices [OF m] by auto
  have apart: "before (\<not> buy) (entry_price x) (entry_price y)"
    if x: "x \<in> set (V buy)" and y: "y \<in> set es" for x y
  proof -
    obtain z where "z \<in> set (V (\<not> buy))" "entry_price y = entry_price z" using es(3) y by auto
    then show ?thesis using wf x
      by (cases buy) (auto simp: ref_wf_def ref_uncrossed_def before_def)
  qed
  have new: "before (\<not> buy) (entry_price e) (entry_price y)" if "q \<noteq> 0" "y \<in> set es" for y
  proof -
    have "es \<noteq> []" using that by auto
    with match_ref_stops [OF m] that have "\<not> ref_accepts buy market (entry_price e) (entry_price (hd es))"
      by auto
    then have "\<not> ref_accepts buy False (entry_price e) (entry_price (hd es))"
      by (auto simp: ref_accepts_def)
    then have "before buy (entry_price y) (entry_price e)"
      using sorted_all_worse [OF es(1) \<open>es \<noteq> []\<close>, of "entry_price e" y] that by simp
    then show ?thesis by (auto simp: before_def split: if_splits)
  qed
  have sides: "ref_sorted d (V' d) \<and> (\<forall>e\<in>set (V' d). 0 < entry_qty e)" for d
    using srt pos es insert_ref_sorted [OF srt] by (cases "d = buy") (auto simp: V')
  moreover have "ref_uncrossed V'"
    using apart new unfolding ref_uncrossed_def V'
    by (cases buy) (auto simp: before_def)
  ultimately show ?thesis by (simp add: ref_wf_def)
qed

lemma ref_cancel_wf: "ref_wf V \<Longrightarrow> ref_wf (ref_cancel i V)"
  by (fastforce simp: ref_wf_def ref_cancel_def ref_uncrossed_def ref_sorted_def sorted_wrt_filter)

section \<open>The view of a consistent book is well formed\<close>

lemma ladder_view_sorted:
  "ladder_ok os d ls \<Longrightarrow>
     sorted_wrt (\<lambda>p q. \<not> before d q p) (map (\<lambda>x. o_price (os ! x)) (fb_live ls))"
proof (induction ls)
  case (Cons l ls)
  have lv: "o_price (os ! x) = l_price l" if "x \<in> set (fl_live l)" for x
    using Cons.prems that by (auto simp: ladder_ok_Cons level_ok_def)
  then have "map (\<lambda>x. o_price (os ! x)) (fl_live l) = replicate (length (fl_live l)) (l_price l)"
    by (simp add: map_replicate_const [symmetric] cong: map_cong)
  moreover have "sorted_wrt (\<lambda>p q. \<not> before d q p) (replicate n c)" for n c
    using px.better_irrefl by (induction n) auto
  moreover have "\<not> before d (o_price (os ! x)) (l_price l)" if x: "x \<in> set (fb_live ls)" for x
  proof -
    obtain m where "m \<in> set ls" "o_price (os ! x) = l_price m"
      using ladder_prices [of os d ls, OF _ x] Cons.prems by (auto simp: ladder_ok_Cons)
    then show ?thesis
      using Cons.prems px.better_trans px.better_irrefl by (metis ladder_ok_Cons)
  qed
  ultimately show ?case
    using Cons by (auto simp: ladder_ok_Cons sorted_wrt_append)
qed simp

lemma ladder_price_set:
  assumes "ladder_ok os d ls"
  shows "(\<lambda>x. o_price (os ! x)) ` set (fb_live ls) = l_price ` set ls"
proof
  show "(\<lambda>x. o_price (os ! x)) ` set (fb_live ls) \<subseteq> l_price ` set ls"
    using ladder_prices [OF assms] by fastforce
  show "l_price ` set ls \<subseteq> (\<lambda>x. o_price (os ! x)) ` set (fb_live ls)"
  proof
    fix p
    assume "p \<in> l_price ` set ls"
    then obtain l where l: "l \<in> set ls" "p = l_price l" by blast
    then have ok: "level_ok os d l" using assms by (simp add: ladder_ok_def)
    then obtain x xs where "fl_live l = x # xs"
      by (metis fl_empty_def fl_live_front level_ok_def not_le)
    then have "x \<in> set (fl_live l)" "o_price (os ! x) = p"
      using l ok by (auto simp: level_ok_def)
    then have "x \<in> set (fb_live ls)" "o_price (os ! x) = p"
      using l fb_live_ex by blast+
    then show "p \<in> (\<lambda>x. o_price (os ! x)) ` set (fb_live ls)" by blast
  qed
qed

lemma view_prices:
  "book_inv X B \<Longrightarrow> entry_price ` set (side_view d B) = l_price ` set (lad d B)"
  using ladder_price_set [of "mp_pool (bk_pool B)" d "lad d B"]
  by (auto simp: book_inv_def side_view_def entry_of_def ord_def image_image)

lemma uncrossed_view:
  assumes inv: "book_inv X B"
  shows "uncrossed B \<longleftrightarrow> ref_uncrossed (view B)"
proof -
  have ok: "ladder_ok (mp_pool (bk_pool B)) True (bk_bids B)" "ladder_ok (mp_pool (bk_pool B)) False (bk_asks B)"
    using inv by (auto simp: book_inv_def lad_def dest: spec [of _ True] spec [of _ False])
  have bid: "l_price l \<le> best_bid B" if "l \<in> set (bk_bids B)" for l
    using ok(1) that by (cases "bk_bids B") (auto simp: ladder_ok_def best_bid_def fb_best_price_def before_def)
  have ask: "best_ask B \<le> l_price l" if "l \<in> set (bk_asks B)" for l
    using ok(2) that by (cases "bk_asks B") (auto simp: ladder_ok_def best_ask_def fb_best_price_def before_def)
  have "uncrossed B \<longleftrightarrow> (\<forall>p\<in>l_price ` set (bk_bids B). \<forall>q\<in>l_price ` set (bk_asks B). p < q)"
  proof
    assume "uncrossed B"
    then show "\<forall>p\<in>l_price ` set (bk_bids B). \<forall>q\<in>l_price ` set (bk_asks B). p < q"
      using bid ask by (fastforce simp: uncrossed_def)
  next
    assume "\<forall>p\<in>l_price ` set (bk_bids B). \<forall>q\<in>l_price ` set (bk_asks B). p < q"
    then show "uncrossed B"
      by (auto simp: uncrossed_def best_bid_def best_ask_def fb_best_price_def)
  qed
  also have "\<dots> \<longleftrightarrow> (\<forall>p\<in>entry_price ` set (view B True). \<forall>q\<in>entry_price ` set (view B False). p < q)"
    using view_prices [OF inv, of True] view_prices [OF inv, of False] by (simp add: view_def lad_def)
  finally show ?thesis by (simp add: ref_uncrossed_def)
qed

lemma view_wf:
  assumes inv: "book_inv X B" and "uncrossed B"
  shows "ref_wf (view B)"
proof -
  have ok: "ladder_ok (mp_pool (bk_pool B)) d (lad d B)" for d
    using inv by (simp add: book_inv_def)
  have "ref_sorted d (view B d)" for d
    using ladder_view_sorted [OF ok, of d]
    by (simp add: ref_sorted_map view_def side_view_def entry_of_def ord_def o_def)
  moreover have "\<forall>e\<in>set (view B d). 0 < entry_qty e" for d
    using ladder_ok_live(1) [OF ok]
    by (auto simp: view_def side_view_def entry_of_def ord_def unat_gt_0)
  ultimately show ?thesis
    using uncrossed_view [OF inv] assms(2) by (simp add: ref_wf_def)
qed

lemma lookup_view:
  assumes "book_inv {} B"
  shows "map_of (bk_lookup B) i \<noteq> None \<longleftrightarrow> i \<in> fst ` (set (view B True) \<union> set (view B False))"
proof -
  have lk: "map_of (bk_lookup B) j = Some x \<longleftrightarrow> x \<in> live B \<and> o_id (ord B x) = j" for j x
    using assms unfolding book_inv_def by blast
  have "fst ` (set (view B True) \<union> set (view B False)) = (\<lambda>x. o_id (ord B x)) ` live B"
    by (simp add: view_def side_view_def live_lad [of B True] image_Un image_image entry_of_def)
  then show ?thesis using lk by (auto simp: image_iff)
qed

section \<open>The contract of an order book\<close>

text \<open>
  \<open>incoming a B\<close> is what the book sees of a submitted order that it will accept: whether it
  buys, whether it is a market order, and its id, price and quantity.
\<close>

locale matching_book =
  fixes add :: "nat option \<Rightarrow> 'b \<Rightarrow> (unit result \<times> 'b) option"
    and cancel :: "OrderID \<Rightarrow> 'b \<Rightarrow> unit result \<times> 'b"
    and invar :: "'b \<Rightarrow> bool"
    and vw :: "'b \<Rightarrow> ref_book"
    and incoming :: "nat \<Rightarrow> 'b \<Rightarrow> (bool \<times> bool \<times> entry) option"
    and trades :: "'b \<Rightarrow> trade list"
  assumes add_incoming: "invar B \<Longrightarrow> incoming a B = Some (buy, market, e) \<Longrightarrow>
        ref_add buy market e (vw B) = (fs, q, V) \<Longrightarrow>
        \<exists>B' ts. add (Some a) B = Some (Inr (), B') \<and> invar B' \<and> vw B' = V \<and>
           trades B' = trades B @ ts \<and>
           map (\<lambda>t. (t_price t, unat (t_quantity t))) ts = map (\<lambda>f. (entry_price f, entry_qty f)) fs"
    and cancel_known: "invar B \<Longrightarrow> i \<in> fst ` (set (vw B True) \<union> set (vw B False)) \<Longrightarrow>
        \<exists>B'. cancel i B = (Inr (), B') \<and> invar B' \<and> vw B' = ref_cancel i (vw B) \<and> trades B' = trades B"
    and cancel_unknown: "invar B \<Longrightarrow> i \<notin> fst ` (set (vw B True) \<union> set (vw B False)) \<Longrightarrow>
        cancel i B = (Inl ORDER_NOT_FOUND, B)"
    and invar_wf: "invar B \<Longrightarrow> ref_wf (vw B)"
begin

lemma add_returns:
  assumes "invar B" "incoming a B = Some (buy, market, e)"
  shows "\<exists>B'. add (Some a) B = Some (Inr (), B') \<and> invar B' \<and> ref_wf (vw B')"
proof -
  obtain fs q V where "ref_add buy market e (vw B) = (fs, q, V)" by (metis prod_cases3)
  from add_incoming [OF assms this] show ?thesis using invar_wf by blast
qed

text \<open>
  No quantity is made or lost: what the order traded is what the other side gave up, and
  with what rests of it makes up its quantity; every trade is at a price the order accepts.
\<close>

lemma add_conserves:
  assumes inv: "invar B" and inc: "incoming a B = Some (buy, market, e)"
    and add: "add (Some a) B = Some (r, B')"
  shows "\<exists>ts q. trades B' = trades B @ ts \<and>
           (\<Sum>t\<leftarrow>ts. unat (t_quantity t)) + q = entry_qty e \<and>
           (\<Sum>t\<leftarrow>ts. unat (t_quantity t)) + total_qty (vw B' (\<not> buy)) = total_qty (vw B (\<not> buy)) \<and>
           total_qty (vw B' buy) = total_qty (vw B buy) + q \<and>
           (\<forall>t\<in>set ts. ref_accepts buy market (entry_price e) (t_price t))"
proof -
  obtain fs q V where ref: "ref_add buy market e (vw B) = (fs, q, V)" by (metis prod_cases3)
  obtain es where m: "match_ref (ref_accepts buy market (entry_price e)) (entry_qty e) (vw B (\<not> buy)) = (fs, q, es)"
    and V: "V = (if q = 0 then (vw B)((\<not> buy) := es)
              else (vw B)((\<not> buy) := es, buy := insert_ref buy (fst e, entry_price e, q) (vw B buy)))"
    using ref by (auto simp: ref_add_def Let_def split: prod.splits)
  obtain ts where B': "vw B' = V" "trades B' = trades B @ ts"
    and ts: "map (\<lambda>t. (t_price t, unat (t_quantity t))) ts = map (\<lambda>f. (entry_price f, entry_qty f)) fs"
    using add_incoming [OF inv inc ref] add by auto
  have "map snd (map (\<lambda>t. (t_price t, unat (t_quantity t))) ts) = map entry_qty fs"
    unfolding ts by (simp add: o_def)
  then have sq: "(\<Sum>t\<leftarrow>ts. unat (t_quantity t)) = total_qty fs" by (simp add: o_def)
  have "map fst (map (\<lambda>t. (t_price t, unat (t_quantity t))) ts) = map entry_price fs"
    unfolding ts by (simp add: o_def)
  then have "map t_price ts = map entry_price fs" by (simp add: o_def)
  then have "t_price ` set ts = entry_price ` set fs" by (metis list.set_map)
  then have pr: "\<forall>t\<in>set ts. ref_accepts buy market (entry_price e) (t_price t)"
    using match_ref_priority [OF m] by (metis (no_types, lifting) image_iff)
  have ins: "total_qty (insert_ref buy x xs) = entry_qty x + total_qty xs" for x xs
  proof -
    have "total_qty xs = total_qty (takeWhile P xs) + total_qty (dropWhile P xs)" for P
      by (metis map_append sum_list_append takeWhile_dropWhile_id)
    then show ?thesis by (simp add: insert_ref_def)
  qed
  show ?thesis
    using match_ref_conserves [OF m] B' sq pr ins by (intro exI [of _ ts] exI [of _ q]) (auto simp: V)
qed

lemma cancel_twice:
  assumes "invar B" "cancel i B = (Inr (), B')"
  shows "cancel i B' = (Inl ORDER_NOT_FOUND, B')"
proof -
  have known: "i \<in> fst ` (set (vw B True) \<union> set (vw B False))"
    using cancel_unknown [OF assms(1)] assms(2) by fastforce
  with cancel_known [OF assms(1) known] assms(2) have "invar B'" "vw B' = ref_cancel i (vw B)" by auto
  then show ?thesis by (intro cancel_unknown) (auto simp: ref_cancel_def)
qed

end

section \<open>The order book keeps the contract\<close>

definition ob_ok :: "'c book \<Rightarrow> bool" where
  "ob_ok B \<longleftrightarrow> book_inv {} B \<and> uncrossed B \<and> \<not> bk_shutdown B"

definition ob_incoming :: "nat \<Rightarrow> 'c book \<Rightarrow> (bool \<times> bool \<times> entry) option" where
  "ob_incoming a B =
     (if fresh a B \<and> o_remaining (ord B a) \<noteq> 0 \<and> map_of (bk_lookup B) (o_id (ord B a)) = None \<and>
         book_room B
      then Some (o_side (ord B a) = BUY, o_type (ord B a) = MARKET, entry_of (ord B a))
      else None)"

lemma trades_ref_price_qty:
  "\<forall>e\<in>set fs. entry_qty e < 2 ^ 64 \<Longrightarrow>
     map (\<lambda>t. (t_price t, unat (t_quantity t))) (trades_ref clk k symb s i n fs) =
     map (\<lambda>f. (entry_price f, entry_qty f)) fs"
  by (induction clk k symb s i n fs rule: trades_ref.induct)
    (auto simp: make_trade_def unat_of_nat)

lemma ref_add_fills_bound:
  assumes "ref_add buy market e V = (fs, q, V')" "f \<in> set fs"
  shows "entry_qty f \<le> entry_qty e"
proof -
  obtain es where "match_ref (ref_accepts buy market (entry_price e)) (entry_qty e) (V (\<not> buy)) = (fs, q, es)"
    using assms(1) by (auto simp: ref_add_def Let_def split: prod.splits)
  then have "total_qty fs \<le> entry_qty e" using match_ref_conserves by fastforce
  moreover have "entry_qty f \<le> total_qty fs"
    using assms(2) by (simp add: member_le_sum_list)
  ultimately show ?thesis by simp
qed

interpretation ob: matching_book add_order cancel_order ob_ok view ob_incoming bk_trades
proof
  fix B :: "'a book" and a buy market e fs q V
  assume ok: "ob_ok B" and inc: "ob_incoming a B = Some (buy, market, e)"
    and ref: "ref_add buy market e (view B) = (fs, q, V)"
  have c: "fresh a B" "o_remaining (ord B a) \<noteq> 0" "map_of (bk_lookup B) (o_id (ord B a)) = None"
    "book_room B" "buy \<longleftrightarrow> o_side (ord B a) = BUY" "market \<longleftrightarrow> o_type (ord B a) = MARKET"
    "e = entry_of (ord B a)"
    using inc by (auto simp: ob_incoming_def split: if_splits)
  obtain B' where B': "add_order (Some a) B = Some (Inr (), B')" "added a B fs B'" "view B' = V"
    by (rule add_order_ref [of B a fs q V]) (use ok c ref in \<open>auto simp: ob_ok_def\<close>)
  have "ref_wf V" using ref_add_wf [OF view_wf ref] ok by (auto simp: ob_ok_def)
  then have "uncrossed B'"
    using uncrossed_view [of "{}" B'] B' by (simp add: added_def ref_wf_def)
  moreover have "entry_qty e < 2 ^ 64"
    unfolding c by (simp add: entry_of_def) (use unsigned_less [of "o_remaining (ord B a)"] in simp)
  then have "\<forall>f\<in>set fs. entry_qty f < 2 ^ 64"
    using ref_add_fills_bound [OF ref] by (meson le_less_trans)
  then have "map (\<lambda>t. (t_price t, unat (t_quantity t))) (trades_from B a fs) =
             map (\<lambda>f. (entry_price f, entry_qty f)) fs"
    unfolding trades_from_def by (rule trades_ref_price_qty)
  ultimately show "\<exists>B' ts. add_order (Some a) B = Some (Inr (), B') \<and> ob_ok B' \<and> view B' = V \<and>
           bk_trades B' = bk_trades B @ ts \<and>
           map (\<lambda>t. (t_price t, unat (t_quantity t))) ts = map (\<lambda>f. (entry_price f, entry_qty f)) fs"
    using B' ok by (intro exI [of _ B'] exI [of _ "trades_from B a fs"]) (auto simp: added_def ob_ok_def)
next
  fix B :: "'a book" and i
  assume ok: "ob_ok B" and i: "i \<in> fst ` (set (view B True) \<union> set (view B False))"
  then obtain a where a: "map_of (bk_lookup B) i = Some a"
    using lookup_view [of B i] by (auto simp: ob_ok_def)
  obtain B' where "cancel_order i B = (Inr (), B')" "book_inv {} B'" "view B' = ref_cancel i (view B)"
    "bk_trades B' = bk_trades B" "\<not> bk_shutdown B'"
    using cancel_order_ref [OF _ _ a] ok unfolding ob_ok_def by metis
  moreover from this have "uncrossed B'"
    using uncrossed_view [of "{}" B'] ref_cancel_wf [OF view_wf, of "{}" B i] ok
    by (auto simp: ob_ok_def ref_wf_def)
  ultimately show "\<exists>B'. cancel_order i B = (Inr (), B') \<and> ob_ok B' \<and> view B' = ref_cancel i (view B) \<and>
      bk_trades B' = bk_trades B"
    by (auto simp: ob_ok_def)
next
  fix B :: "'a book" and i
  assume "ob_ok B" "i \<notin> fst ` (set (view B True) \<union> set (view B False))"
  then show "cancel_order i B = (Inl ORDER_NOT_FOUND, B)"
    using lookup_view [of B i] by (auto simp: ob_ok_def cancel_order_def)
next
  fix B :: "'a book"
  assume "ob_ok B"
  then show "ref_wf (view B)" using view_wf by (auto simp: ob_ok_def)
qed

end
