(* ===== verification/RTES_Book_Reach.thy ===== *)
theory RTES_Book_Reach
  imports RTES_Book_Spec
begin

text \<open>
  Compaction, pruning and shutdown of the order book, and the step relation under which the
  invariant and the absence of a crossed market are kept.
\<close>

section \<open>Maintenance\<close>

lemma fl_compact_ok: "level_ok os d l \<Longrightarrow> level_ok os d (fl_compact l)"
  by (auto simp: level_ok_def fl_compact_def fl_live_def)

lemma fb_compact_all_ok: "ladder_ok os d ls \<Longrightarrow> ladder_ok os d (fb_compact_all ls)"
proof -
  assume ok: "ladder_ok os d ls"
  have pr: "map l_price (fb_compact_all ls) = map l_price ls" by (simp add: fb_compact_all_def)
  show "ladder_ok os d (fb_compact_all ls)"
    unfolding ladder_ok_def pr using ok fl_compact_ok by (auto simp: fb_compact_all_def ladder_ok_def)
qed

lemma compact_lad: "lad d (ob_compact B) = fb_compact_all (lad d B)"
  by (simp add: ob_compact_def lad_def)

lemma compact_frame [simp, frame]:
  "ord (ob_compact B) p = ord B p" "bk_pool (ob_compact B) = bk_pool B"
  "bk_lookup (ob_compact B) = bk_lookup B" "bk_trades (ob_compact B) = bk_trades B"
  "bk_shutdown (ob_compact B) = bk_shutdown B" "bk_ctx (ob_compact B) = bk_ctx B"
  by (simp_all add: ob_compact_def ord_def)

lemma compact_view [simp]: "view (ob_compact B) = view B"
  by (simp add: view_def side_view_def compact_lad)

lemma compact_inv: "book_inv X B \<Longrightarrow> book_inv X (ob_compact B)"
proof -
  have "live (ob_compact B) = live B" by (simp add: live_lad [of _ True] compact_lad)
  then show "book_inv X B \<Longrightarrow> book_inv X (ob_compact B)"
    using fb_compact_all_ok by (auto simp: book_inv_def compact_lad)
qed

lemma prune_id:
  assumes "book_inv X B"
  shows "ob_prune B = B"
proof -
  have "fb_prune_empty (lad d B) = lad d B" for d
  proof -
    have "ladder_ok (mp_pool (bk_pool B)) d (lad d B)" using assms by (simp add: book_inv_def)
    then have "\<forall>l\<in>set (lad d B). \<not> fl_empty l"
      by (auto simp: ladder_ok_def level_ok_def fl_empty_def)
    then show ?thesis by (simp add: fb_prune_empty_def)
  qed
  from this [of True] this [of False] show ?thesis
    by (simp add: ob_prune_def lad_def)
qed

section \<open>Shutdown\<close>

lemma shutdown_fold:
  assumes "mp_inv (bk_pool B)" "distinct (map snd m)"
    "\<forall>p\<in>snd ` set m. p < slots_of B \<and> p \<notin> set (mp_free (bk_pool B))"
    and C: "C = fold (\<lambda>(order_id, order) C. free_ord order (upd_ord order (\<lambda>x. x\<lparr>o_status := CANCELLED\<rparr>) C)) m B"
  shows "mp_inv (bk_pool C)" "mp_free (bk_pool C) = rev (map snd m) @ mp_free (bk_pool B)"
    "slots_of C = slots_of B" "bk_trades C = bk_trades B" "bk_shutdown C = bk_shutdown B"
    "ord C x = (if x \<in> snd ` set m then (ord B x)\<lparr>o_status := CANCELLED\<rparr> else ord B x)"
  unfolding atomize_conj C using assms(1-3)
proof (induction m arbitrary: B)
  case (Cons e m)
  obtain i p where e: "e = (i, p)" by (cases e)
  define D where "D = free_ord p (upd_ord p (\<lambda>x. x\<lparr>o_status := CANCELLED\<rparr>) B)"
  have p: "p < slots_of B" "p \<notin> set (mp_free (bk_pool B))" "p \<notin> snd ` set m"
    using Cons.prems by (auto simp: e)
  have D: "mp_inv (bk_pool D)" "mp_free (bk_pool D) = p # mp_free (bk_pool B)" "slots_of D = slots_of B"
    using Cons.prems(1) p by (simp_all add: D_def free_ord_pool)
  have nord: "ord D x = (if x = p then (ord B p)\<lparr>o_status := CANCELLED\<rparr> else ord B x)" for x
    using p by (simp add: D_def)
  have "\<forall>q\<in>snd ` set m. q < slots_of D \<and> q \<notin> set (mp_free (bk_pool D))"
    using Cons.prems(3) p D by (auto simp: e)
  with Cons.IH [of D] D Cons.prems(2) p nord show ?case
    by (auto simp: e D_def [symmetric]) (simp_all add: D_def)
qed simp_all

lemma lookup_pointers:
  assumes "book_inv {} B"
  shows "snd ` set (bk_lookup B) = live B" "distinct (map snd (bk_lookup B))"
proof -
  have lk: "map_of (bk_lookup B) j = Some x \<longleftrightarrow> x \<in> live B \<and> o_id (ord B x) = j" for j x
    using assms unfolding book_inv_def by blast
  have dk: "distinct (map fst (bk_lookup B))"
    using assms unfolding book_inv_def by blast
  have mem: "(j, x) \<in> set (bk_lookup B) \<longleftrightarrow> x \<in> live B \<and> o_id (ord B x) = j" for j x
    using lk [of j x] map_of_eq_Some_iff [OF dk] by metis
  show "snd ` set (bk_lookup B) = live B" using mem by force
  have "inj_on snd (set (bk_lookup B))" by (rule inj_onI) (use mem in force)
  then show "distinct (map snd (bk_lookup B))"
    using dk by (simp add: distinct_map)
qed

lemma shutdown_spec:
  assumes inv: "book_inv {} B"
  shows "book_inv {} (ob_shutdown B)" "view (ob_shutdown B) = (\<lambda>d. [])" "bk_shutdown (ob_shutdown B)"
    "set (mp_free (bk_pool (ob_shutdown B))) = set (mp_free (bk_pool B)) \<union> live B"
    "\<forall>p\<in>live B. o_status (ord (ob_shutdown B) p) = CANCELLED" "bk_trades (ob_shutdown B) = bk_trades B"
    "live (ob_shutdown B) = {}" "bk_lookup (ob_shutdown B) = []"
proof -
  define C where "C = fold (\<lambda>(order_id, order) C. free_ord order (upd_ord order (\<lambda>x. x\<lparr>o_status := CANCELLED\<rparr>) C))
      (bk_lookup B) (B\<lparr>bk_shutdown := True\<rparr>)"
  have ptrs: "\<forall>p\<in>snd ` set (bk_lookup B). p < slots_of B \<and> p \<notin> set (mp_free (bk_pool B))"
    using inv by (auto simp: lookup_pointers [OF inv] book_inv_def)
  have C: "mp_inv (bk_pool C)" "mp_free (bk_pool C) = rev (map snd (bk_lookup B)) @ mp_free (bk_pool B)"
    "bk_trades C = bk_trades B" "bk_shutdown C"
    "\<And>x. ord C x = (if x \<in> live B then (ord B x)\<lparr>o_status := CANCELLED\<rparr> else ord B x)"
    using shutdown_fold [OF _ lookup_pointers(2) [OF inv] _ , of "B\<lparr>bk_shutdown := True\<rparr>" C] ptrs inv
    by (simp_all add: C_def book_inv_def lookup_pointers(1) [OF inv])
  have S: "ob_shutdown B = C\<lparr>bk_lookup := [], bk_bids := [], bk_asks := []\<rparr>"
    by (simp add: ob_shutdown_def C_def Let_def)
  have la: "lad d (ob_shutdown B) = []" for d by (simp add: S lad_def)
  have nord: "ord (ob_shutdown B) x = ord C x" for x by (simp add: S ord_def)
  show lv: "live (ob_shutdown B) = {}" by (simp add: live_lad [of _ True] la)
  show "book_inv {} (ob_shutdown B)"
    using C(1) by (simp add: book_inv_def la lv ladder_ok_def) (simp add: S)
  show "view (ob_shutdown B) = (\<lambda>d. [])" by (simp add: view_def side_view_def la)
  show "set (mp_free (bk_pool (ob_shutdown B))) = set (mp_free (bk_pool B)) \<union> live B"
    using C(2) lookup_pointers(1) [OF inv] by (auto simp: S)
  show "\<forall>p\<in>live B. o_status (ord (ob_shutdown B) p) = CANCELLED" by (simp add: nord C(5))
  show "bk_shutdown (ob_shutdown B)" "bk_trades (ob_shutdown B) = bk_trades B" "bk_lookup (ob_shutdown B) = []"
    using C(3,4) by (simp_all add: S)
qed

section \<open>Every reachable book is consistent\<close>

text \<open>
  The steps of a book: the calls of its writer, and the other users of the shared pool, which
  take and return slots and write to orders that this book does not hold.
\<close>

inductive ob_step :: "'c book \<Rightarrow> 'c book \<Rightarrow> bool" where
  submit: "\<forall>a. optr = Some a \<longrightarrow> fresh a B \<Longrightarrow> book_room B \<Longrightarrow> add_order optr B = Some (r, B') \<Longrightarrow>
     ob_step B B'"
| cancel: "cancel_order i B = (r, B') \<Longrightarrow> ob_step B B'"
| compact: "ob_step B (ob_compact B)"
| prune: "ob_step B (ob_prune B)"
| shutdown: "ob_step B (ob_shutdown B)"
| others: "mp_inv P \<Longrightarrow> length (mp_pool P) = slots_of B \<Longrightarrow>
     \<forall>p\<in>live B. p \<notin> set (mp_free P) \<and> mp_pool P ! p = ord B p \<Longrightarrow> ob_step B (B\<lparr>bk_pool := P\<rparr>)"

definition ob_consistent :: "'c book \<Rightarrow> bool" where
  "ob_consistent B \<longleftrightarrow> book_inv {} B \<and> uncrossed B"

lemma ob_consistent_others:
  assumes "ob_consistent B" "mp_inv P" "length (mp_pool P) = slots_of B"
    "\<forall>p\<in>live B. p \<notin> set (mp_free P) \<and> mp_pool P ! p = ord B p"
  shows "ob_consistent (B\<lparr>bk_pool := P\<rparr>)"
proof -
  let ?B = "B\<lparr>bk_pool := P\<rparr>"
  have la: "lad d ?B = lad d B" for d by (simp add: lad_def)
  have lv: "live ?B = live B" by (simp add: live_def)
  have "ladder_ok P' d (lad d B)" if "\<forall>p\<in>live B. P' ! p = mp_pool (bk_pool B) ! p" for P' d
    using assms(1) that
    by (subst ladder_ok_cong [of _ _ "mp_pool (bk_pool B)"])
      (auto simp: ob_consistent_def book_inv_def live_lad [of B d])
  then have "ladder_ok (mp_pool P) d (lad d B)" for d
    using assms(4) by (simp add: ord_def)
  moreover have "ord ?B x = ord B x" if "x \<in> live B" for x
    using assms(4) that by (simp add: ord_def)
  moreover have "uncrossed ?B = uncrossed B"
    by (simp add: uncrossed_def best_bid_def best_ask_def)
  ultimately show ?thesis
    using assms by (auto simp: ob_consistent_def book_inv_def la lv)
qed

lemma add_order_consistent:
  assumes c: "ob_consistent B" and f: "\<forall>a. optr = Some a \<longrightarrow> fresh a B" and room: "book_room B"
    and add: "add_order optr B = Some (r, B')"
  shows "ob_consistent B'"
proof (cases "r = Inr () \<and> optr \<noteq> None")
  case True
  then obtain a where a: "optr = Some a" by auto
  then have up: "\<not> bk_shutdown B" "o_remaining (ord B a) \<noteq> 0" "map_of (bk_lookup B) (o_id (ord B a)) = None"
    using add True by (auto simp: add_order_def split: if_splits)
  then have "ob_ok B" "ob_incoming a B \<noteq> None"
    using c f room a by (auto simp: ob_ok_def ob_consistent_def ob_incoming_def)
  then show ?thesis
    using ob.add_returns [of B a] add a by (fastforce simp: ob_ok_def ob_consistent_def)
next
  case False
  have "B' = B"
  proof (cases optr)
    case None
    with add show ?thesis by (auto simp: add_order_def split: if_splits)
  next
    case (Some a)
    show ?thesis
    proof (rule ccontr)
      assume ne: "B' \<noteq> B"
      then have up: "\<not> bk_shutdown B" "o_remaining (ord B a) \<noteq> 0" "map_of (bk_lookup B) (o_id (ord B a)) = None"
        using add Some by (auto simp: add_order_def split: if_splits)
      then have "ob_ok B" "ob_incoming a B \<noteq> None"
        using c f room Some by (auto simp: ob_ok_def ob_consistent_def ob_incoming_def)
      then show False using ob.add_returns [of B a] add Some False by fastforce
    qed
  qed
  with c show ?thesis by simp
qed

lemma cancel_order_consistent:
  assumes c: "ob_consistent B" and cancel: "cancel_order i B = (r, B')"
  shows "ob_consistent B'"
proof (cases "bk_shutdown B \<or> map_of (bk_lookup B) i = None")
  case True
  then show ?thesis using c cancel by (auto simp: cancel_order_def split: if_splits)
next
  case False
  then have ok: "ob_ok B" "i \<in> fst ` (set (view B True) \<union> set (view B False))"
    using c lookup_view [of B i] by (auto simp: ob_ok_def ob_consistent_def)
  from ob.cancel_known [OF this] cancel show ?thesis by (auto simp: ob_ok_def ob_consistent_def)
qed

lemma ob_step_consistent: "ob_step B B' \<Longrightarrow> ob_consistent B \<Longrightarrow> ob_consistent B'"
proof (induction rule: ob_step.induct)
  case (submit optr B r B')
  then show ?case using add_order_consistent by blast
next
  case (cancel i B r B')
  then show ?case using cancel_order_consistent by blast
next
  case (compact B)
  then show ?case
    using compact_inv [of "{}" B] uncrossed_view [of "{}" B] uncrossed_view [of "{}" "ob_compact B"]
    by (auto simp: ob_consistent_def)
next
  case (prune B)
  then show ?case using prune_id [of "{}" B] by (simp add: ob_consistent_def)
next
  case (shutdown B)
  then show ?case
    using shutdown_spec [of B] uncrossed_view [of "{}" "ob_shutdown B"]
    by (auto simp: ob_consistent_def ref_uncrossed_def)
next
  case (others P B)
  then show ?case using ob_consistent_others by blast
qed

lemma ob_new_consistent:
  assumes "mp_inv P"
  shows "ob_consistent (ob_new symb P cb ctx clk)"
  using assms
  by (auto simp: ob_consistent_def book_inv_def ob_new_def live_def lad_def ladder_ok_def uncrossed_def)

end
