(* ===== verification/RTES_Book_Props.thy ===== *)
theory RTES_Book_Props
  imports RTES_Book_Reach
begin

text \<open>
  The properties of the order book of \<^verbatim>\<open>src/order_book.cpp\<close>: its refinement of the reference
  matcher, the best bid and offer, the depth snapshot, cancellation, rejection and shutdown.
\<close>

section \<open>Best bid and offer\<close>

lemma of_nat_sum_list: "(of_nat (sum_list xs) :: 'a::comm_semiring_1) = sum_list (map of_nat xs)"
  by (induction xs) simp_all

definition at_price :: "Price \<Rightarrow> entry list \<Rightarrow> entry list" where
  "at_price p es = filter (\<lambda>e. entry_price e = p) es"

lemma level_total_view:
  assumes "level_ok (mp_pool (bk_pool B)) d l"
  shows "l_total l = of_nat (total_qty (map (\<lambda>x. entry_of (ord B x)) (fl_live l)))"
  using assms by (simp add: level_ok_def of_nat_sum_list o_def entry_of_def ord_def)

lemma at_best_price:
  assumes inv: "book_inv X B" and ld: "lad d B = l # ls"
  shows "at_price (l_price l) (side_view d B) = map (\<lambda>x. entry_of (ord B x)) (fl_live l)"
    "entry_price (hd (side_view d B)) = l_price l" "side_view d B \<noteq> []"
proof -
  have ok: "ladder_ok (mp_pool (bk_pool B)) d (l # ls)"
    using inv unfolding book_inv_def by (metis ld)
  have here: "entry_price (entry_of (ord B x)) = l_price l" if "x \<in> set (fl_live l)" for x
    using ok that by (auto simp: ladder_ok_Cons level_ok_def entry_of_def ord_def)
  have there: "entry_price (entry_of (ord B x)) \<noteq> l_price l" if x: "x \<in> set (fb_live ls)" for x
  proof -
    obtain m where m: "m \<in> set ls" "o_price (ord B x) = l_price m"
      using ladder_prices [of _ d ls x] ok x unfolding ladder_ok_Cons ord_def by blast
    then have "before d (l_price l) (l_price m)" using ok by (simp add: ladder_ok_Cons)
    with m(2) show ?thesis using px.better_irrefl by (auto simp: entry_of_def)
  qed
  show "at_price (l_price l) (side_view d B) = map (\<lambda>x. entry_of (ord B x)) (fl_live l)"
    using here there by (simp add: at_price_def side_view_def ld filter_map o_def filter_False)
  have "fl_live l \<noteq> []"
    using ok by (auto simp: ladder_ok_Cons level_ok_def fl_live_def)
  then obtain x xs where "fl_live l = x # xs" by (cases "fl_live l") auto
  then show "entry_price (hd (side_view d B)) = l_price l" "side_view d B \<noteq> []"
    using here by (simp_all add: side_view_def ld)
qed

definition ref_best :: "entry list \<Rightarrow> Price \<times> Quantity" where
  "ref_best es =
     (if es = [] then (0, 0)
      else (entry_price (hd es), of_nat (total_qty (at_price (entry_price (hd es)) es))))"

lemma best_view:
  assumes inv: "book_inv X B"
  shows "(fb_best_price (lad d B), fb_best_quantity (lad d B)) = ref_best (side_view d B)"
proof (cases "lad d B")
  case Nil
  then show ?thesis by (simp add: fb_best_price_def fb_best_quantity_def ref_best_def side_view_def)
next
  case (Cons l ls)
  have "level_ok (mp_pool (bk_pool B)) d l"
    using inv Cons unfolding book_inv_def ladder_ok_def by (metis list.set_intros(1))
  then show ?thesis
    using at_best_price [OF inv Cons] level_total_view
    by (simp add: Cons fb_best_price_def fb_best_quantity_def ref_best_def)
qed

section \<open>Depth\<close>

definition depth_of :: "flat_level \<Rightarrow> depth_level" where
  "depth_of l = \<lparr>d_price = l_price l, d_quantity = l_total l, d_order_count = ucast (fl_size l)\<rparr>"

lemma depth_loop_spec:
  assumes "\<forall>l\<in>set ls. \<not> fl_empty l" "length out = 20" "unat n \<le> min (unat m) 20"
    "depth_loop m ls out n = (out', n')"
  shows "unat n' = min (unat n + length ls) (min (unat m) 20) \<and> length out' = 20 \<and>
         take (unat n') out' = take (unat n) out @ map depth_of (take (unat n' - unat n) ls)"
  using assms
proof (induction ls arbitrary: out n)
  case Nil
  then show ?case by auto
next
  case (Cons l ls)
  show ?case
  proof (cases "n < m \<and> n < MAX_DEPTH_LEVELS")
    case True
    have lt: "unat n < min (unat m) 20"
      using True by (auto simp: word_less_nat_alt MAX_DEPTH_LEVELS_def)
    then have n1: "unat (n + 1) = Suc (unat n)" by (intro unat_Suc_lt [of _ 20]) auto
    define o1 where "o1 = out[unat n := depth_of l]"
    have step: "depth_loop m ls o1 (n + 1) = (out', n')"
      using Cons.prems(1,4) True by (simp add: o1_def depth_of_def)
    have IH: "unat n' = min (unat (n + 1) + length ls) (min (unat m) 20) \<and> length out' = 20 \<and>
         take (unat n') out' = take (unat (n + 1)) o1 @ map depth_of (take (unat n' - unat (n + 1)) ls)"
      using Cons.prems lt n1 by (intro Cons.IH [OF _ _ _ step]) (auto simp: o1_def)
    have "take (Suc (unat n)) o1 = take (unat n) out @ [depth_of l]"
      using Cons.prems(2) lt by (simp add: o1_def take_Suc_conv_app_nth)
    moreover have "unat n' - unat n = Suc (unat n' - Suc (unat n))"
      using IH n1 lt by auto
    ultimately show ?thesis using IH n1 by auto
  next
    case False
    then have "min (unat m) 20 \<le> unat n"
      by (auto simp: word_less_nat_alt MAX_DEPTH_LEVELS_def)
    with False Cons.prems show ?thesis by auto
  qed
qed

section \<open>A concrete book\<close>

text \<open>Four slots, two of them taken by crossing orders of one client.\<close>

definition ex_order :: "OrderID \<Rightarrow> side \<Rightarrow> order_type \<Rightarrow> Quantity \<Rightarrow> Price \<Rightarrow> order" where
  "ex_order i s t q p = make_order 0 i (Some [67]) (Some [65]) s t q p"

definition ex_pool :: "order list \<Rightarrow> order mpool" where
  "ex_pool os =
     (case mp_new default_order 4 of
        Inr P \<Rightarrow> (snd (mp_allocate (snd (mp_allocate P))))\<lparr>mp_pool := os @ [default_order, default_order]\<rparr>
      | Inl _ \<Rightarrow> undefined)"

definition ex_book :: "order list \<Rightarrow> trade list book" where
  "ex_book os = ob_new [65] (ex_pool os) (Some (\<lambda>t ts. ts @ [t])) [] (\<lambda>k. of_nat k)"

lemma ex_pool_inv:
  assumes "length os = 2"
  shows "mp_inv (ex_pool os)" "mp_free (ex_pool os) = [2, 3]" "mp_pool (ex_pool os) = os @ [default_order, default_order]"
proof -
  obtain P where P: "mp_new default_order 4 = Inr P"
    by (simp add: mp_new_def validate_capacity_def POOL_EMPTY_def)
  have l: "[0 ..< unat (4 :: u64)] = [0, 1, 2, 3]" by (simp add: upt_rec)
  have P0: "mp_inv P" "mp_free P = [0, 1, 2, 3]" "mp_pool P = replicate 4 default_order"
    using mp_new_inv [OF P] l by simp_all
  obtain P1 where P1: "mp_allocate P = (Some 0, P1)" "mp_inv P1" "mp_free P1 = [1, 2, 3]" "mp_pool P1 = mp_pool P"
    using mp_allocate_some [OF P0(1,2)] by blast
  obtain P2 where P2: "mp_allocate P1 = (Some 1, P2)" "mp_inv P2" "mp_free P2 = [2, 3]" "mp_pool P2 = mp_pool P1"
    using mp_allocate_some [OF P1(2,3)] by blast
  have e: "ex_pool os = P2\<lparr>mp_pool := os @ [default_order, default_order]\<rparr>"
    by (simp add: ex_pool_def P P1(1) P2(1))
  have "length (os @ [default_order, default_order]) = length (mp_pool P2)"
    using assms P0 P1 P2 by simp
  then show "mp_inv (ex_pool os)" "mp_free (ex_pool os) = [2, 3]" "mp_pool (ex_pool os) = os @ [default_order, default_order]"
    unfolding e using P2 by simp_all
qed

lemma ex_book_facts:
  assumes "length os = 2"
  shows "ob_consistent (ex_book os)" "ob_ok (ex_book os)" "book_room (ex_book os)"
    "\<not> bk_shutdown (ex_book os)" "bk_lookup (ex_book os) = []" "bk_trades (ex_book os) = []"
    "view (ex_book os) = (\<lambda>d. [])" "live (ex_book os) = {}"
    "fresh 0 (ex_book os)" "fresh 1 (ex_book os)" "book_bound 0 (ex_book os)"
    "ord (ex_book os) 0 = os ! 0" "ord (ex_book os) 1 = os ! 1"
proof -
  note ep = ex_pool_inv [OF assms]
  show c: "ob_consistent (ex_book os)" unfolding ex_book_def by (rule ob_new_consistent [OF ep(1)])
  show "\<not> bk_shutdown (ex_book os)" by (simp add: ex_book_def ob_new_def)
  with c show "ob_ok (ex_book os)" by (simp add: ob_ok_def ob_consistent_def)
  show "live (ex_book os) = {}" by (simp add: ex_book_def ob_new_def live_def)
  then show "fresh 0 (ex_book os)" "fresh 1 (ex_book os)"
    using ep assms by (simp_all add: fresh_def) (simp_all add: ex_book_def ob_new_def)
  show "ord (ex_book os) 0 = os ! 0" "ord (ex_book os) 1 = os ! 1"
    using ep assms by (simp_all add: ord_def ex_book_def ob_new_def nth_append)
  show "book_bound 0 (ex_book os)" "book_room (ex_book os)" "bk_lookup (ex_book os) = []" "bk_trades (ex_book os) = []"
    by (simp_all add: book_room_def book_bound_def lad_def ex_book_def ob_new_def)
  have "lad d (ex_book os) = []" for d by (simp add: lad_def ex_book_def ob_new_def)
  then show "view (ex_book os) = (\<lambda>d. [])" by (simp add: view_def side_view_def)
qed

definition ex_B0 :: "Quantity \<Rightarrow> trade list book" where
  "ex_B0 q = ex_book [ex_order 1 SELL LIMIT 5 100, ex_order 2 BUY LIMIT q 101]"

lemma ex_order_fields [simp]:
  "o_id (ex_order i s t q p) = i" "o_side (ex_order i s t q p) = s" "o_type (ex_order i s t q p) = t"
  "o_remaining (ex_order i s t q p) = q" "o_price (ex_order i s t q p) = p"
  "entry_of (ex_order i s t q p) = (i, p, unat q)"
  by (simp_all add: ex_order_def make_order_def entry_of_def)

text \<open>The first order rests, and the second one is admissible and crosses it.\<close>

definition ex_B1 :: "Quantity \<Rightarrow> trade list book" where
  "ex_B1 q = snd (the (add_order (Some 0) (ex_B0 q)))"

lemma ex_rested:
  assumes "q \<noteq> 0" "unat q = n"
  shows "add_order (Some 0) (ex_B0 q) = Some (Inr (), (ex_B1 q))" "added 0 (ex_B0 q) [] (ex_B1 q)" "ob_ok (ex_B1 q)"
  "view (ex_B1 q) = (\<lambda>d. if d then [] else [(1, 100, 5)])"
  "ob_incoming 1 (ex_B1 q) = Some (True, False, (2, 101, n))" "ord (ex_B1 q) 1 = ex_order 2 BUY LIMIT q 101"
proof -
  note f = ex_book_facts [of "[ex_order 1 SELL LIMIT 5 100, ex_order 2 BUY LIMIT q 101]", folded ex_B0_def]
  have inv: "book_inv {} (ex_B0 q)" using f(2) by (simp add: ob_ok_def)
  have o0: "ord (ex_B0 q) 0 = ex_order 1 SELL LIMIT 5 100" "ord (ex_B0 q) 1 = ex_order 2 BUY LIMIT q 101"
    using f by simp_all
  define V :: ref_book where "V = (\<lambda>d. if d then [] else [(1, 100, 5)])"
  have ref: "ref_add (o_side (ord (ex_B0 q) 0) = BUY) (o_type (ord (ex_B0 q) 0) = MARKET)
      (entry_of (ord (ex_B0 q) 0)) (view (ex_B0 q)) = ([], 5, V)"
    using f by (simp add: o0 ref_add_def insert_ref_def V_def fun_eq_iff)
  obtain B1 where B1: "add_order (Some 0) (ex_B0 q) = Some (Inr (), B1)" "added 0 (ex_B0 q) [] B1" "view B1 = V"
    by (rule add_order_ref [OF inv _ _ _ _ _ ref]) (use f o0 in simp_all)
  have inc0: "ob_incoming 0 (ex_B0 q) \<noteq> None" using f o0 by (simp add: ob_incoming_def)
  then have ok: "ob_ok B1" using ob.add_returns [OF f(2)] B1(1) by fastforce
  have inv1: "book_inv {} B1" using ok by (simp add: ob_ok_def)
  have o1: "ord B1 1 = ex_order 2 BUY LIMIT q 101" using B1(2) f o0 by (simp add: added_def)
  have "map_of (bk_lookup B1) 2 = None"
    using lookup_view [OF inv1, of 2] B1(3) by (auto simp: V_def)
  moreover have "fresh 1 B1"
    using B1(2) f(8,10) by (auto simp: added_def fresh_def)
  moreover have "book_room B1"
    using B1(2) f(11) book_bound_mono [of 1 B1 "2 ^ 32 - 2"] by (auto simp: added_def book_room_def)
  ultimately have "ob_incoming 1 B1 = Some (True, False, (2, 101, n))"
    using assms by (simp add: ob_incoming_def o1 [unfolded One_nat_def])
  moreover have "ex_B1 q = B1" by (simp add: ex_B1_def B1(1))
  ultimately show "add_order (Some 0) (ex_B0 q) = Some (Inr (), (ex_B1 q))" "added 0 (ex_B0 q) [] (ex_B1 q)" "ob_ok (ex_B1 q)"
    "view (ex_B1 q) = (\<lambda>d. if d then [] else [(1, 100, 5)])"
    "ob_incoming 1 (ex_B1 q) = Some (True, False, (2, 101, n))" "ord (ex_B1 q) 1 = ex_order 2 BUY LIMIT q 101"
    using B1 ok o1 by (simp_all only: V_def)
qed

lemma ex_quantities:
  "(8 :: Quantity) \<noteq> 0" "unat (8 :: Quantity) = 8" "(3 :: Quantity) \<noteq> 0" "unat (3 :: Quantity) = 3"
  by simp_all

lemmas ex_rested8 = ex_rested [OF ex_quantities(1,2)]
lemmas ex_rested3 = ex_rested [OF ex_quantities(3,4)]

section \<open>Properties\<close>

text \<open>
  Claim C1. Price-time priority. The book accepts an admissible order, the matching loop ends,
  and the two sides of the book, the fills, the trades handed to the callback and their ids are
  those of the reference matcher: the best price first, the oldest order first at a price, each
  trade at the resting price, and the remainder behind its equals on its own side.
\<close>

theorem add_order_price_time_priority:
  assumes "ob_ok B" and "ob_incoming a B = Some (buy, market, e)"
    and "ref_add buy market e (view B) = (fs, q, V)"
  shows "\<exists>B'. add_order (Some a) B = Some (Inr (), B') \<and> ob_ok B' \<and> view B' = V \<and>
           unat (o_remaining (ord B' a)) = q \<and>
           bk_trades B' = bk_trades B @ trades_from B a fs \<and>
           bk_next_trade_id B' = bk_next_trade_id B + of_nat (length fs) \<and>
           bk_ctx B' = (case bk_callback B of None \<Rightarrow> bk_ctx B
                        | Some cb \<Rightarrow> fold cb (trades_from B a fs) (bk_ctx B))"
proof -
  have ok: "book_inv {} B" "\<not> bk_shutdown B" using assms(1) by (auto simp: ob_ok_def)
  have c: "fresh a B" "o_remaining (ord B a) \<noteq> 0" "map_of (bk_lookup B) (o_id (ord B a)) = None"
    "book_room B" "ref_add (o_side (ord B a) = BUY) (o_type (ord B a) = MARKET) (entry_of (ord B a)) (view B) = (fs, q, V)"
    using assms(2,3) by (auto simp: ob_incoming_def split: if_splits)
  obtain B' where B': "add_order (Some a) B = Some (Inr (), B')" "added a B fs B'" "view B' = V"
    "unat (o_remaining (ord B' a)) = q"
    by (rule add_order_ref [OF ok c])
  have "ob_ok B'" using ob.add_returns [OF assms(1,2)] B'(1) by auto
  with B' show ?thesis by (auto simp: added_def)
qed

theorem add_order_price_time_priority_witness:
  "\<exists>B2. add_order (Some 1) (ex_B1 8) = Some (Inr (), B2) \<and>
     view (ex_B1 8) = (\<lambda>d. if d then [] else [(1, 100, 5)]) \<and>
     view B2 = (\<lambda>d. if d then [(2, 101, 3)] else []) \<and>
     map (\<lambda>t. (t_buy_order_id t, t_sell_order_id t, t_price t, t_quantity t)) (bk_trades B2) = [(2, 1, 100, 5)]"
proof -
  have ref: "ref_add True False (2, 101, 8) (view (ex_B1 8)) =
      ([(1, 100, 5)], 3, \<lambda>d. if d then [(2, 101, 3)] else [])"
    by (simp add: ex_rested8(4) ref_add_def ref_accepts_def insert_ref_def fun_eq_iff)
  have t0: "bk_trades (ex_B1 8) = []"
    using ex_rested8(2) by (simp add: added_def trades_from_def ex_B0_def ex_book_def ob_new_def)
  show ?thesis
    using add_order_price_time_priority [OF ex_rested8(3,5) ref] ex_rested8(4) t0
      ex_rested8(6) [unfolded One_nat_def]
    by (auto simp: trades_from_def make_trade_def)
qed

lemma trades_ref_counterparts:
  "map (\<lambda>t. (if s = BUY then t_sell_order_id t else t_buy_order_id t, t_price t))
     (trades_ref clk k symb s i n fs) = map id_price fs"
  by (induction clk k symb s i n fs rule: trades_ref.induct) (auto simp: make_trade_def)

lemma trades_ref_ids:
  "map t_id (trades_ref clk k symb s i n fs) = map (\<lambda>j. n + of_nat j) [0 ..< length fs]"
proof (induction clk k symb s i n fs rule: trades_ref.induct)
  case (2 clk k symb s i n j p q fs)
  have "map (\<lambda>m. n + of_nat m) [0 ..< Suc (length fs)] =
        n # map (\<lambda>m. n + 1 + of_nat m) [0 ..< length fs]"
    by (simp add: upt_conv_Cons map_Suc_upt [symmetric] o_def add.assoc del: upt_Suc)
  with 2 show ?case by (simp add: make_trade_def)
qed simp

lemma ref_add_match:
  assumes "ref_add buy market e V = (fs, q, V')"
  obtains es where
    "match_ref (ref_accepts buy market (entry_price e)) (entry_qty e) (V (\<not> buy)) = (fs, q, es)"
    "V' (\<not> buy) = es"
    "V' buy = (if q = 0 then V buy else insert_ref buy (fst e, entry_price e, q) (V buy))"
  using assms by (auto simp: ref_add_def Let_def split: prod.splits if_splits)

lemma ob_incoming_bound:
  assumes "ob_incoming a B = Some (buy, market, e)"
  shows "entry_qty e < 2 ^ 64" "e = entry_of (ord B a)" "buy \<longleftrightarrow> o_side (ord B a) = BUY"
  using assms unsigned_less [of "o_remaining (ord B a)"]
  by (auto simp: ob_incoming_def entry_of_def split: if_splits)

text \<open>The code with which the book rejects an order, if it does.\<close>

definition add_error :: "nat option \<Rightarrow> 'c book \<Rightarrow> error_code option" where
  "add_error optr B =
     (if bk_shutdown B then Some SYSTEM_SHUTDOWN
      else case optr of
        None \<Rightarrow> Some ORDER_INVALID
      | Some a \<Rightarrow>
          if o_remaining (ord B a) = 0 then Some ORDER_INVALID
          else if map_of (bk_lookup B) (o_id (ord B a)) \<noteq> None then Some ORDER_DUPLICATE
          else None)"

text \<open>What an accepted order does, in one statement over the reference matcher.\<close>

lemma add_order_accepted:
  assumes ok: "ob_ok B" and inc: "ob_incoming a B = Some (buy, market, e)"
    and add: "add_order (Some a) B = Some (r, B')"
  obtains fs q es where
    "match_ref (ref_accepts buy market (entry_price e)) (entry_qty e) (view B (\<not> buy)) = (fs, q, es)"
    "r = Inr ()" "added a B fs B'" "ob_ok B'" "view B' (\<not> buy) = es"
    "view B' buy = (if q = 0 then view B buy else insert_ref buy (fst e, entry_price e, q) (view B buy))"
    "unat (o_remaining (ord B' a)) = q"
    "map (\<lambda>t. (t_price t, unat (t_quantity t))) (trades_from B a fs) =
       map (\<lambda>f. (entry_price f, entry_qty f)) fs"
proof -
  obtain fs q V where ref: "ref_add buy market e (view B) = (fs, q, V)" by (metis prod_cases3)
  have inv: "book_inv {} B" "\<not> bk_shutdown B" using ok by (auto simp: ob_ok_def)
  have c: "fresh a B" "o_remaining (ord B a) \<noteq> 0" "map_of (bk_lookup B) (o_id (ord B a)) = None"
    "book_room B" "ref_add (o_side (ord B a) = BUY) (o_type (ord B a) = MARKET) (entry_of (ord B a)) (view B) = (fs, q, V)"
    using inc ref by (auto simp: ob_incoming_def split: if_splits)
  obtain B2 where B2: "add_order (Some a) B = Some (Inr (), B2)" "added a B fs B2" "view B2 = V"
    "unat (o_remaining (ord B2 a)) = q"
    by (rule add_order_ref [OF inv c])
  have eq: "B2 = B'" "r = Inr ()" using B2(1) add by auto
  have ok': "ob_ok B'" using ob.add_returns [OF ok inc] add by auto
  have "\<forall>f\<in>set fs. entry_qty f < 2 ^ 64"
    using ref_add_fills_bound [OF ref] ob_incoming_bound(1) [OF inc] by (meson le_less_trans)
  then have tq: "map (\<lambda>t. (t_price t, unat (t_quantity t))) (trades_from B a fs) =
       map (\<lambda>f. (entry_price f, entry_qty f)) fs"
    unfolding trades_from_def by (rule trades_ref_price_qty)
  show thesis
    by (rule ref_add_match [OF ref], rule that) (use B2 eq ok' tq in auto)
qed

text \<open>
  Claim C3. Fills follow the queue: the orders an incoming order trades with are the first ones
  of the other side in priority order, each at its own resting price and each but the last in
  full, every trade is at a price the incoming order accepts, trade ids are consecutive, and an
  order that is not filled has left no acceptable order on the other side.
\<close>

theorem fills_follow_the_queue:
  assumes "ob_ok B" and "ob_incoming a B = Some (buy, market, e)"
    and "add_order (Some a) B = Some (r, B')"
  shows "\<exists>ts. r = Inr () \<and> bk_trades B' = bk_trades B @ ts \<and>
     map (\<lambda>t. (if buy then t_sell_order_id t else t_buy_order_id t, t_price t)) ts =
       map id_price (take (length ts) (view B (\<not> buy))) \<and>
     map (\<lambda>t. unat (t_quantity t)) (butlast ts) = map entry_qty (take (length ts - 1) (view B (\<not> buy))) \<and>
     map t_id ts = map (\<lambda>k. bk_next_trade_id B + of_nat k) [0 ..< length ts] \<and>
     (\<forall>t\<in>set ts. ref_accepts buy market (entry_price e) (t_price t)) \<and>
     (o_remaining (ord B' a) \<noteq> 0 \<longrightarrow>
        view B' (\<not> buy) = [] \<or>
        \<not> ref_accepts buy market (entry_price e) (entry_price (hd (view B' (\<not> buy)))))"
proof -
  obtain fs q es where m: "match_ref (ref_accepts buy market (entry_price e)) (entry_qty e) (view B (\<not> buy)) = (fs, q, es)"
    and r: "r = Inr ()" "added a B fs B'" "view B' (\<not> buy) = es" "unat (o_remaining (ord B' a)) = q"
    and tq: "map (\<lambda>t. (t_price t, unat (t_quantity t))) (trades_from B a fs) =
       map (\<lambda>f. (entry_price f, entry_qty f)) fs"
    by (rule add_order_accepted [OF assms])
  define ts where "ts = trades_from B a fs"
  have len: "length ts = length fs" by (simp add: ts_def trades_from_def)
  have buy: "buy \<longleftrightarrow> o_side (ord B a) = BUY" by (rule ob_incoming_bound(3) [OF assms(2)])
  have cp: "map (\<lambda>t. (if buy then t_sell_order_id t else t_buy_order_id t, t_price t)) ts = map id_price fs"
    unfolding ts_def trades_from_def buy by (rule trades_ref_counterparts)
  have ids: "map t_id ts = map (\<lambda>k. bk_next_trade_id B + of_nat k) [0 ..< length fs]"
    unfolding ts_def trades_from_def by (rule trades_ref_ids)
  have qs: "map (\<lambda>t. unat (t_quantity t)) ts = map entry_qty fs"
    using arg_cong [OF tq, of "map snd"] by (simp add: ts_def o_def)
  have ps: "map t_price ts = map entry_price fs"
    using arg_cong [OF tq, of "map fst"] by (simp add: ts_def o_def)
  note pr = match_ref_priority [OF m]
  have "map (\<lambda>t. unat (t_quantity t)) (butlast ts) = map entry_qty (butlast fs)"
    using arg_cong [OF qs, of butlast] by (simp add: map_butlast)
  then have bl: "map (\<lambda>t. unat (t_quantity t)) (butlast ts) = map entry_qty (take (length ts - 1) (view B (\<not> buy)))"
    using pr len by simp
  have acc: "\<forall>t\<in>set ts. ref_accepts buy market (entry_price e) (t_price t)"
  proof -
    have "t_price ` set ts = entry_price ` set fs" using ps by (metis list.set_map)
    then show ?thesis using pr by (metis (no_types, lifting) image_iff)
  qed
  have stop: "o_remaining (ord B' a) \<noteq> 0 \<longrightarrow> view B' (\<not> buy) = [] \<or>
        \<not> ref_accepts buy market (entry_price e) (entry_price (hd (view B' (\<not> buy))))"
    using match_ref_stops [OF m] r(3,4) by (auto simp: unat_eq_0)
  have tr: "bk_trades B' = bk_trades B @ ts" using r(2) by (simp add: added_def ts_def)
  show ?thesis
    using r(1) tr cp bl ids acc stop pr len by (intro exI [of _ ts]) simp
qed

theorem fills_follow_the_queue_witness:
  "\<exists>B2. add_order (Some 1) (ex_B1 8) = Some (Inr (), B2) \<and>
     (\<exists>ts. bk_trades B2 = bk_trades (ex_B1 8) @ ts \<and>
        map (\<lambda>t. (t_sell_order_id t, t_price t)) ts = map id_price (take (length ts) [(1, 100, 5)]))"
proof -
  obtain B2 where B2: "add_order (Some 1) (ex_B1 8) = Some (Inr (), B2)"
    using ob.add_returns [OF ex_rested8(3,5)] by blast
  show ?thesis
    using fills_follow_the_queue [OF ex_rested8(3,5) B2] ex_rested8(4) B2 by auto
qed

text \<open>
  Claim C4. Conservation. What an order trades is exactly what the other side gives up, and what
  it trades plus what rests of it on its own side is its quantity.
\<close>

theorem add_order_conserves_quantity:
  assumes "ob_ok B" and "ob_incoming a B = Some (buy, market, e)"
    and "add_order (Some a) B = Some (r, B')"
  shows "\<exists>ts q. bk_trades B' = bk_trades B @ ts \<and>
           (\<Sum>t\<leftarrow>ts. unat (t_quantity t)) + q = entry_qty e \<and>
           (\<Sum>t\<leftarrow>ts. unat (t_quantity t)) + total_qty (view B' (\<not> buy)) = total_qty (view B (\<not> buy)) \<and>
           total_qty (view B' buy) = total_qty (view B buy) + q"
  using ob.add_conserves [OF assms] by blast

theorem add_order_conserves_quantity_witness:
  "\<exists>B2. add_order (Some 1) (ex_B1 8) = Some (Inr (), B2) \<and> total_qty (view (ex_B1 8) False) = 5 \<and>
     (\<exists>ts q. bk_trades B2 = bk_trades (ex_B1 8) @ ts \<and> (\<Sum>t\<leftarrow>ts. unat (t_quantity t)) + q = 8)"
proof -
  obtain B2 where B2: "add_order (Some 1) (ex_B1 8) = Some (Inr (), B2)"
    using ob.add_returns [OF ex_rested8(3,5)] by blast
  show ?thesis
    using add_order_conserves_quantity [OF ex_rested8(3,5) B2] ex_rested8(4) B2
    by (intro exI [of _ B2]) auto
qed

text \<open>
  Claim C2. Every book that is reachable from an empty one, by any sequence of submissions,
  cancellations, compactions, prunings and a shutdown, interleaved with other users of the
  shared pool, is consistent: the ladders are sorted and have no empty level, each level's total
  is the sum of its orders, the lookup holds exactly the resting orders, no resting order is in
  the free list, and the best bid is below the best ask.
\<close>

theorem reachable_book_consistent:
  assumes "rtranclp ob_step (ob_new symb P cb ctx clk) B" and "mp_inv P"
  shows "book_inv {} B \<and> (bk_bids B \<noteq> [] \<longrightarrow> bk_asks B \<noteq> [] \<longrightarrow> best_bid B < best_ask B) \<and>
         order_count B = card (live B)"
proof -
  have "ob_consistent B"
    using assms(1)
  proof (induction rule: rtranclp_induct)
    case base
    show ?case by (rule ob_new_consistent [OF assms(2)])
  next
    case (step y z)
    then show ?case using ob_step_consistent by blast
  qed
  then have c: "book_inv {} B" "uncrossed B" by (simp_all add: ob_consistent_def)
  have "order_count B = length (map snd (bk_lookup B))" by (simp add: order_count_def)
  also have "\<dots> = card (set (map snd (bk_lookup B)))"
    using distinct_card [OF lookup_pointers(2) [OF c(1)]] by simp
  also have "set (map snd (bk_lookup B)) = live B" using lookup_pointers(1) [OF c(1)] by simp
  finally show ?thesis using c by (simp add: uncrossed_def)
qed

theorem reachable_book_consistent_witness:
  "\<exists>B. rtranclp ob_step (ex_B0 8) B \<and> bk_asks B \<noteq> [] \<and> book_inv {} B \<and> order_count B = card (live B)"
proof -
  note B1 = ex_rested8(1,3,4)
  note f = ex_book_facts [of "[ex_order 1 SELL LIMIT 5 100, ex_order 2 BUY LIMIT 8 101]", folded ex_B0_def]
  have "ob_step (ex_B0 8) (ex_B1 8)" by (rule ob_step.submit [OF _ _ B1(1)]) (use f in auto)
  then have r: "rtranclp ob_step (ex_B0 8) (ex_B1 8)" by (rule r_into_rtranclp)
  have "bk_asks (ex_B1 8) \<noteq> []" using fun_cong [OF B1(3), of False] by (auto simp: view_def side_view_def lad_def)
  moreover have "book_inv {} (ex_B1 8) \<and> order_count (ex_B1 8) = card (live (ex_B1 8))"
    using reachable_book_consistent [OF r [unfolded ex_B0_def ex_book_def] ex_pool_inv(1)] by simp
  ultimately show ?thesis using r by blast
qed

text \<open>
  Claim C5. Cancelling an order that rests removes exactly that order from the book, marks it
  cancelled and makes its slot the next one the pool hands out; cancelling it again, or an id
  that does not rest, reports \<open>ORDER_NOT_FOUND\<close> and changes nothing.
\<close>

theorem cancel_order_removes_exactly_one:
  assumes ok: "ob_ok B"
  shows "(map_of (bk_lookup B) i = None \<longrightarrow> cancel_order i B = (Inl ORDER_NOT_FOUND, B)) \<and>
     (\<forall>a. map_of (bk_lookup B) i = Some a \<longrightarrow>
        (\<exists>B'. cancel_order i B = (Inr (), B') \<and> ob_ok B' \<and> view B' = ref_cancel i (view B) \<and>
           mp_free (bk_pool B') = a # mp_free (bk_pool B) \<and>
           o_status (ord B' a) = CANCELLED \<and> (\<forall>x. x \<noteq> a \<longrightarrow> ord B' x = ord B x) \<and>
           cancel_order i B' = (Inl ORDER_NOT_FOUND, B')))"
proof -
  have inv: "book_inv {} B" "\<not> bk_shutdown B" using ok by (auto simp: ob_ok_def)
  have "\<exists>B'. cancel_order i B = (Inr (), B') \<and> ob_ok B' \<and> view B' = ref_cancel i (view B) \<and>
           mp_free (bk_pool B') = a # mp_free (bk_pool B) \<and>
           o_status (ord B' a) = CANCELLED \<and> (\<forall>x. x \<noteq> a \<longrightarrow> ord B' x = ord B x) \<and>
           cancel_order i B' = (Inl ORDER_NOT_FOUND, B')"
    if lk: "map_of (bk_lookup B) i = Some a" for a
  proof -
    obtain B' where B': "cancel_order i B = (Inr (), B')" "view B' = ref_cancel i (view B)"
      "mp_free (bk_pool B') = a # mp_free (bk_pool B)" "ord B' a = (ord B a)\<lparr>o_status := CANCELLED\<rparr>"
      "\<forall>x. x \<noteq> a \<longrightarrow> ord B' x = ord B x"
      using cancel_order_ref [OF inv lk] by blast
    have "i \<in> fst ` (set (view B True) \<union> set (view B False))"
      using lookup_view [OF inv(1), of i] lk by simp
    then have "ob_ok B'" using ob.cancel_known [OF ok] B'(1) by fastforce
    with B' ob.cancel_twice [OF ok B'(1)] show ?thesis by auto
  qed
  then show ?thesis using inv by (auto simp: cancel_order_def)
qed

theorem cancel_order_removes_exactly_one_witness:
  "\<exists>B2. add_order (Some 0) (ex_B0 8) = Some (Inr (), (ex_B1 8)) \<and> cancel_order 1 (ex_B1 8) = (Inr (), B2) \<and>
     view B2 = (\<lambda>d. []) \<and> cancel_order 1 B2 = (Inl ORDER_NOT_FOUND, B2)"
proof -
  note B1 = ex_rested8(1,3,4)
  have "book_inv {} (ex_B1 8)" using B1(2) by (simp add: ob_ok_def)
  then obtain a where a: "map_of (bk_lookup (ex_B1 8)) 1 = Some a"
    using lookup_view [of "ex_B1 8" 1] B1(3) by auto
  have "ref_cancel 1 (view (ex_B1 8)) = (\<lambda>d. [])" by (simp add: B1(3) ref_cancel_def fun_eq_iff)
  with cancel_order_removes_exactly_one [OF ex_rested8(3), of 1] a B1(1) show ?thesis by auto
qed

text \<open>
  Claim C18. After every accepted order and every cancellation the seqlock snapshot is stable and
  reports, for each side, the best price and the sum of the quantities resting at that price,
  zero for an empty side.
\<close>

theorem bbo_snapshot_reports_best:
  assumes ok: "ob_ok B" and even: "even (bbo_sequence (bk_bbo B))"
    and op: "cancel_order i B = (Inr (), B') \<or>
             add_order (Some a) B = Some (Inr (), B') \<and> ob_incoming a B \<noteq> None"
  shows "fst (read_bbo B' out) \<and>
     (bbo_bid_price (snd (read_bbo B' out)), bbo_bid_quantity (snd (read_bbo B' out))) = ref_best (view B' True) \<and>
     (bbo_ask_price (snd (read_bbo B' out)), bbo_ask_quantity (snd (read_bbo B' out))) = ref_best (view B' False) \<and>
     bbo_sequence (bk_bbo B') = bbo_sequence (bk_bbo B) + 2"
proof -
  have inv: "book_inv {} B" "\<not> bk_shutdown B" using ok by (auto simp: ob_ok_def)
  have step: "book_inv {} B' \<and> (\<exists>C. B' = update_bbo_snapshot C \<and> bk_bbo C = bk_bbo B)"
    using op
  proof
    assume c: "cancel_order i B = (Inr (), B')"
    then obtain x where lk: "map_of (bk_lookup B) i = Some x"
      using inv by (auto simp: cancel_order_def split: option.splits)
    show ?thesis using cancel_order_ref [OF inv lk] c by (metis Pair_inject)
  next
    assume "add_order (Some a) B = Some (Inr (), B') \<and> ob_incoming a B \<noteq> None"
    then obtain buy market e where inc: "ob_incoming a B = Some (buy, market, e)"
      and add: "add_order (Some a) B = Some (Inr (), B')" by auto
    obtain fs where "added a B fs B'" using add_order_accepted [OF ok inc add] by blast
    then show ?thesis by (simp add: added_def)
  qed
  then obtain C where B': "B' = update_bbo_snapshot C" "bk_bbo C = bk_bbo B" and inv': "book_inv {} B'" by blast
  have seq: "bbo_sequence (bk_bbo B') = bbo_sequence (bk_bbo B) + 2"
    by (simp add: B' update_bbo_snapshot_def)
  have "bbo_sequence (bk_bbo B) AND 1 = 0" using even by (simp add: even_iff_mod_2_eq_zero and_one_eq)
  then have z: "bbo_sequence (bk_bbo B') AND 1 = 0"
    using even by (simp add: seq and_one_eq even_iff_mod_2_eq_zero [symmetric])
  have rd: "read_bbo B' out = (True, bk_bbo B')" using z by (simp add: read_bbo_def)
  have bests: "(bbo_bid_price (bk_bbo B'), bbo_bid_quantity (bk_bbo B')) = (fb_best_price (lad True B'), fb_best_quantity (lad True B'))"
    "(bbo_ask_price (bk_bbo B'), bbo_ask_quantity (bk_bbo B')) = (fb_best_price (lad False B'), fb_best_quantity (lad False B'))"
    by (simp_all add: B'(1) update_bbo_snapshot_def lad_def)
  show ?thesis
    unfolding rd fst_conv snd_conv bests best_view [OF inv'] using seq by (simp add: view_def)
qed

theorem bbo_snapshot_reports_best_witness:
  "add_order (Some 0) (ex_B0 8) = Some (Inr (), (ex_B1 8)) \<and>
     (bbo_ask_price (snd (read_bbo (ex_B1 8) (bk_bbo (ex_B0 8)))), bbo_ask_quantity (snd (read_bbo (ex_B1 8) (bk_bbo (ex_B0 8))))) = (100, 5)"
proof -
  note B1 = ex_rested8(1,4)
  note f = ex_book_facts [of "[ex_order 1 SELL LIMIT 5 100, ex_order 2 BUY LIMIT 8 101]", folded ex_B0_def]
  have "ob_incoming 0 (ex_B0 8) \<noteq> None" using f by (simp add: ob_incoming_def)
  moreover have "even (bbo_sequence (bk_bbo (ex_B0 8)))" by (simp add: ex_B0_def ex_book_def ob_new_def)
  ultimately show ?thesis
    using bbo_snapshot_reports_best [OF f(2), of 0 "ex_B1 8" 0 "bk_bbo (ex_B0 8)"] B1
    by (simp add: ref_best_def at_price_def)
qed

text \<open>
  Claim C19. An order is rejected, with the code below and without any effect, exactly when the
  book is shut down, the pointer is null, nothing remains of the order, or its id already rests;
  otherwise it is accepted.
\<close>

theorem add_order_rejects_exactly:
  assumes "ob_consistent B" and "book_room B" and "\<forall>a. optr = Some a \<longrightarrow> fresh a B"
  shows "case add_error optr B of
           Some c \<Rightarrow> add_order optr B = Some (Inl c, B)
         | None \<Rightarrow> \<exists>B'. add_order optr B = Some (Inr (), B') \<and> ob_consistent B'"
proof (cases "add_error optr B")
  case (Some c)
  then show ?thesis
    by (auto simp: add_error_def add_order_def split: if_splits option.splits)
next
  case None
  then obtain a where a: "optr = Some a" by (auto simp: add_error_def split: if_splits option.splits)
  have ok: "ob_ok B"
    "ob_incoming a B = Some (o_side (ord B a) = BUY, o_type (ord B a) = MARKET, entry_of (ord B a))"
    using None assms a by (auto simp: add_error_def ob_ok_def ob_consistent_def ob_incoming_def split: if_splits)
  from ob.add_returns [OF ok] None show ?thesis
    by (auto simp: a ob_ok_def ob_consistent_def)
qed

theorem add_order_rejects_exactly_witness:
  "add_order None (ex_B0 8) = Some (Inl ORDER_INVALID, (ex_B0 8))"
proof -
  note f = ex_book_facts [of "[ex_order 1 SELL LIMIT 5 100, ex_order 2 BUY LIMIT 8 101]", folded ex_B0_def]
  show ?thesis
    using add_order_rejects_exactly [of "ex_B0 8" None] f by (simp add: add_error_def)
qed

text \<open>
  The slot of an incoming order that is filled at once is lost: the order is neither
  in the book nor in the lookup, and its slot has not been given back to the pool.
\<close>

theorem filled_incoming_order_leaks_its_slot:
  assumes ok: "ob_ok B" and inc: "ob_incoming a B = Some (buy, market, e)"
    and add: "add_order (Some a) B = Some (r, B')" and filled: "o_remaining (ord B' a) = 0"
  shows "a \<notin> live B' \<and> (\<forall>i. map_of (bk_lookup B') i \<noteq> Some a) \<and> a \<notin> set (mp_free (bk_pool B')) \<and>
         a < mp_slots (bk_pool B')"
proof -
  obtain fs where ad: "added a B fs B'"
    using add_order_accepted [OF ok inc add] by blast
  have fr: "fresh a B" using inc by (auto simp: ob_incoming_def split: if_splits)
  have inv': "book_inv {} B'" using ad by (simp add: added_def)
  have "a \<notin> live B'" using ad filled by (simp add: added_def)
  moreover have "a \<notin> set (mp_free (bk_pool B'))" using ad fr by (auto simp: added_def fresh_def)
  moreover have "a < mp_slots (bk_pool B')"
    using ad fr slots_eq [of B'] inv' by (simp add: added_def fresh_def book_inv_def)
  moreover have "map_of (bk_lookup B') i \<noteq> Some a" for i
    using inv' \<open>a \<notin> live B'\<close> by (auto simp: book_inv_def)
  ultimately show ?thesis by blast
qed

theorem filled_incoming_order_leaks_its_slot_witness:
  "\<exists>B2. add_order (Some 1) (ex_B1 3) = Some (Inr (), B2) \<and> 1 \<notin> live B2 \<and> 1 \<notin> set (mp_free (bk_pool B2))"
proof -
  note B1 = ex_rested3
  obtain B2 where B2: "add_order (Some 1) (ex_B1 3) = Some (Inr (), B2)"
    using ob.add_returns [OF B1(3,5)] by auto
  obtain fs q es where m: "match_ref (ref_accepts True False 101) 3 (view (ex_B1 3) False) = (fs, q, es)"
    and q: "unat (o_remaining (ord B2 1)) = q"
    using add_order_accepted [OF B1(3,5) B2] by fastforce
  have "q = 0" using m B1(4) by (simp add: ref_accepts_def)
  then have z: "o_remaining (ord B2 1) = 0" using q by (simp add: unat_eq_0)
  show ?thesis
    using filled_incoming_order_leaks_its_slot [OF B1(3,5) B2 z] B2 by blast
qed

text \<open>
  What a market order cannot trade is not cancelled: when the other side is used up,
  the remainder rests on the order's own side at whatever price the order carries.
\<close>

theorem market_order_remainder_rests:
  assumes ok: "ob_ok B" and inc: "ob_incoming a B = Some (buy, True, e)"
    and add: "add_order (Some a) B = Some (r, B')" and left: "o_remaining (ord B' a) \<noteq> 0"
  shows "(fst e, entry_price e, unat (o_remaining (ord B' a))) \<in> set (view B' buy) \<and>
         view B' (\<not> buy) = []"
proof -
  obtain fs q es where m: "match_ref (ref_accepts buy True (entry_price e)) (entry_qty e) (view B (\<not> buy)) = (fs, q, es)"
    and v: "view B' (\<not> buy) = es"
      "view B' buy = (if q = 0 then view B buy else insert_ref buy (fst e, entry_price e, q) (view B buy))"
    and q: "unat (o_remaining (ord B' a)) = q"
    by (rule add_order_accepted [OF ok inc add])
  have "q \<noteq> 0" using q left unat_eq_zero by blast
  with match_ref_stops [OF m] have "es = []" by (simp add: ref_accepts_def)
  with v q \<open>q \<noteq> 0\<close> show ?thesis by simp
qed

text \<open>A market order to sell, with no price, into an empty book.\<close>

theorem market_order_remainder_rests_witness:
  "\<exists>B'. add_order (Some 0) (ex_book [ex_order 1 SELL MARKET 5 0, default_order]) = Some (Inr (), B') \<and>
        (1, 0, 5) \<in> set (view B' False)"
proof -
  let ?B = "ex_book [ex_order 1 SELL MARKET 5 0, default_order]"
  note f = ex_book_facts [of "[ex_order 1 SELL MARKET 5 0, default_order]"]
  have inc: "ob_incoming 0 ?B = Some (False, True, (1, 0, 5))" using f by (simp add: ob_incoming_def)
  have ok: "ob_ok ?B" using f by simp
  obtain B' where B': "add_order (Some 0) ?B = Some (Inr (), B')"
    using ob.add_returns [OF ok inc] by blast
  obtain fs q es where m: "match_ref (ref_accepts False True 0) 5 (view ?B True) = (fs, q, es)"
    and q: "unat (o_remaining (ord B' 0)) = q"
    using add_order_accepted [OF ok inc B'] by fastforce
  have q5: "unat (o_remaining (ord B' 0)) = 5" using m f q by simp
  then have "o_remaining (ord B' 0) \<noteq> 0" by auto
  from market_order_remainder_rests [OF ok inc B' this] B' q5 show ?thesis by auto
qed

text \<open>
  Claim C40. Shutting the book down empties it, marks every resting order cancelled and gives
  every slot that the book held back to the pool, each exactly once; from then on it rejects
  every order and every cancellation with \<open>SYSTEM_SHUTDOWN\<close>.
\<close>

theorem shutdown_releases_every_order:
  assumes inv: "book_inv {} B"
  shows "book_inv {} (ob_shutdown B) \<and> view (ob_shutdown B) = (\<lambda>d. []) \<and> order_count (ob_shutdown B) = 0 \<and>
     set (mp_free (bk_pool (ob_shutdown B))) = set (mp_free (bk_pool B)) \<union> live B \<and>
     distinct (mp_free (bk_pool (ob_shutdown B))) \<and>
     (\<forall>p\<in>live B. o_status (ord (ob_shutdown B) p) = CANCELLED) \<and>
     add_order optr (ob_shutdown B) = Some (Inl SYSTEM_SHUTDOWN, ob_shutdown B) \<and>
     cancel_order i (ob_shutdown B) = (Inl SYSTEM_SHUTDOWN, ob_shutdown B)"
proof -
  note sp = shutdown_spec [OF inv]
  have "distinct (mp_free (bk_pool (ob_shutdown B)))"
    using sp(1) by (simp add: book_inv_def mp_inv_def)
  then show ?thesis
    using sp by (simp add: order_count_def add_order_def cancel_order_def)
qed

theorem shutdown_releases_every_order_witness:
  "book_inv {} (ob_shutdown (ex_B1 8)) \<and> view (ob_shutdown (ex_B1 8)) = (\<lambda>d. [])"
  using shutdown_releases_every_order [of "ex_B1 8" None 0] ex_rested8(3) by (simp add: ob_ok_def)

text \<open>
  The depth snapshot lists, per side and best first, the price, the total quantity and
  the number of orders of each level, as many levels as the caller asks for, the array holds and
  the side has.
\<close>

theorem depth_snapshot_lists_best_levels:
  assumes inv: "book_inv {} B" and out: "length (ds_bids out) = 20" "length (ds_asks out) = 20"
    and s: "s = get_depth m B out"
  shows "unat (ds_bid_levels s) = min (length (bk_bids B)) (min (unat m) 20) \<and>
     take (unat (ds_bid_levels s)) (ds_bids s) = map depth_of (take (unat (ds_bid_levels s)) (bk_bids B)) \<and>
     unat (ds_ask_levels s) = min (length (bk_asks B)) (min (unat m) 20) \<and>
     take (unat (ds_ask_levels s)) (ds_asks s) = map depth_of (take (unat (ds_ask_levels s)) (bk_asks B)) \<and>
     (\<forall>l\<in>set (bk_bids B) \<union> set (bk_asks B).
        d_order_count (depth_of l) = of_nat (length (fl_live l)) \<and>
        d_quantity (depth_of l) = of_nat (total_qty (map (\<lambda>x. entry_of (ord B x)) (fl_live l))))"
proof -
  have lok: "level_ok (mp_pool (bk_pool B)) d l" if "l \<in> set (lad d B)" for d l
    using inv that by (simp add: book_inv_def ladder_ok_def)
  have ne: "\<not> fl_empty l" if "l \<in> set (lad d B)" for d l
    using lok [OF that] by (auto simp: level_ok_def fl_empty_def)
  have b: "\<forall>l\<in>set (bk_bids B). \<not> fl_empty l" and a: "\<forall>l\<in>set (bk_asks B). \<not> fl_empty l"
    using ne [of _ True] ne [of _ False] by (auto simp: lad_def)
  obtain bs nb where db: "depth_loop m (bk_bids B) (ds_bids out) 0 = (bs, nb)" by fastforce
  obtain as na where da: "depth_loop m (bk_asks B) (ds_asks out) 0 = (as, na)" by fastforce
  note lb = depth_loop_spec [OF b out(1) _ db] and la = depth_loop_spec [OF a out(2) _ da]
  have lv: "d_order_count (depth_of l) = of_nat (length (fl_live l)) \<and>
        d_quantity (depth_of l) = of_nat (total_qty (map (\<lambda>x. entry_of (ord B x)) (fl_live l)))"
    if l: "l \<in> set (lad d B)" for d l
  proof -
    have "length (fl_live l) < 2 ^ 64"
      using lok [OF l] by (auto simp: level_ok_def fl_live_def)
    then have "take_bit 64 (length (fl_live l)) = length (fl_live l)"
      by (simp only: take_bit_nat_eq_self_iff)
    then have "ucast (fl_size l) = (of_nat (length (fl_live l)) :: u32)"
      using fl_size_live [of l] lok [OF l] ne [OF l] by (simp add: level_ok_def unsigned_of_nat)
    then show ?thesis using level_total_view [OF lok [OF l]] by (simp add: depth_of_def)
  qed
  show ?thesis
    using lb la lv [of _ True] lv [of _ False] by (auto simp: s get_depth_def db da lad_def)
qed

theorem depth_snapshot_lists_best_levels_witness:
  "\<exists>out. unat (ds_ask_levels (get_depth 10 (ex_B1 8) out)) = min (length (bk_asks (ex_B1 8))) (min 10 20)"
proof -
  define z :: depth_level where "z = \<lparr>d_price = 0, d_quantity = 0, d_order_count = 0\<rparr>"
  define out where "out = \<lparr>ds_bids = replicate 20 z, ds_asks = replicate 20 z, ds_bid_levels = 0, ds_ask_levels = 0\<rparr>"
  have "book_inv {} (ex_B1 8)" using ex_rested8(3) by (simp add: ob_ok_def)
  from depth_snapshot_lists_best_levels [OF this _ _ refl, of out 10] show ?thesis
    by (intro exI [of _ out]) (simp add: out_def)
qed

end
