(* ===== verification/RTES_Engine_Props.thy ===== *)
theory RTES_Engine_Props
  imports RTES_Engine RTES_Book_Props
begin

text \<open>
  The properties of the matching engine: requests are handled one by one in the order of
  their submission, each keeps the engine's invariant and is counted once, the worker's last
  drain ends with an empty ring, and every event is either published in order or counted as
  dropped.
\<close>

section \<open>What the counters and the queues leave alone\<close>

lemma ctx_frame [simp, frame]:
  "book_inv X (B\<lparr>bk_ctx := c\<rparr>) = book_inv X B" "uncrossed (B\<lparr>bk_ctx := c\<rparr>) = uncrossed B"
  "ob_consistent (B\<lparr>bk_ctx := c\<rparr>) = ob_consistent B" "fresh a (B\<lparr>bk_ctx := c\<rparr>) = fresh a B"
  "book_bound n (B\<lparr>bk_ctx := c\<rparr>) = book_bound n B" "view (B\<lparr>bk_ctx := c\<rparr>) = view B"
  "live (B\<lparr>bk_ctx := c\<rparr>) = live B" "best_bid (B\<lparr>bk_ctx := c\<rparr>) = best_bid B"
  "best_ask (B\<lparr>bk_ctx := c\<rparr>) = best_ask B"
proof -
  show i: "book_inv X (B\<lparr>bk_ctx := c\<rparr>) = book_inv X B" for X by (simp add: book_inv_def live_def)
  show u: "uncrossed (B\<lparr>bk_ctx := c\<rparr>) = uncrossed B"
    by (simp add: uncrossed_def best_bid_def best_ask_def)
  show "ob_consistent (B\<lparr>bk_ctx := c\<rparr>) = ob_consistent B" by (simp add: ob_consistent_def i u)
qed (simp_all add: fresh_def live_def book_bound_def view_def side_view_def best_bid_def best_ask_def fun_eq_iff)

lemma set_ctx_frame [simp, frame]:
  "en_input (set_ctx c E) = en_input E" "en_ctx (set_ctx c E) = c"
  "set_ctx c (E\<lparr>en_input := q\<rparr>) = (set_ctx c E)\<lparr>en_input := q\<rparr>"
  "bk_callback (en_book (set_ctx c E)) = bk_callback (en_book E)"
  "bk_trades (en_book (set_ctx c E)) = bk_trades (en_book E)"
  "bk_pool (en_book (set_ctx c E)) = bk_pool (en_book E)"
  "ob_consistent (en_book (set_ctx c E)) = ob_consistent (en_book E)"
  "fresh a (en_book (set_ctx c E)) = fresh a (en_book E)"
  "book_bound n (en_book (set_ctx c E)) = book_bound n (en_book E)"
  "view (en_book (set_ctx c E)) = view (en_book E)"
  "bbo_changed p r (set_ctx c E) = bbo_changed p r E"
  by (simp_all add: set_ctx_def bbo_changed_def)

lemma set_ctx_id: "set_ctx (en_ctx E) E = E"
  by (simp add: set_ctx_def)

text \<open>A change of the counters or of the market data queue, by count or publication.\<close>

lemma count_publish_ctx:
  "\<exists>c. count_stats f E = set_ctx c E" "\<exists>c. publish_bbo_update E = set_ctx c E"
proof -
  show "\<exists>c. publish_bbo_update E = set_ctx c E"
    using set_ctx_id [of E] by (auto simp: publish_bbo_update_def Let_def split: option.splits) metis
qed (auto simp: count_stats_def)

lemma count_input: "count_stats f (E\<lparr>en_input := q\<rparr>) = (count_stats f E)\<lparr>en_input := q\<rparr>"
  by (simp add: count_stats_def)

lemma publish_input: "publish_bbo_update (E\<lparr>en_input := q\<rparr>) = (publish_bbo_update E)\<lparr>en_input := q\<rparr>"
  by (simp add: publish_bbo_update_def Let_def split: option.splits)

lemma changed_input [simp]: "bbo_changed p r (E\<lparr>en_input := q\<rparr>) = bbo_changed p r E"
  by (simp add: bbo_changed_def)

lemma book_then_input: "E\<lparr>en_input := q, en_book := B\<rparr> = E\<lparr>en_book := B, en_input := q\<rparr>"
  by (cases E) simp

lemma new_order_input:
  "process_new_order a (E\<lparr>en_input := q\<rparr>) = map_option (\<lambda>E. E\<lparr>en_input := q\<rparr>) (process_new_order a E)"
  by (auto simp: process_new_order_def Let_def book_then_input count_input publish_input
    split: option.splits sum.splits prod.splits)

lemma cancel_input:
  "process_cancel i c (E\<lparr>en_input := q\<rparr>) = (process_cancel i c E)\<lparr>en_input := q\<rparr>"
  by (simp add: process_cancel_def Let_def book_then_input count_input publish_input
    split: prod.splits sum.splits)

lemma handle_input:
  "handle_request r (E\<lparr>en_input := q\<rparr>) = map_option (\<lambda>E. E\<lparr>en_input := q\<rparr>) (handle_request r E)"
  by (simp add: handle_request_def new_order_input cancel_input split: order_request.splits)


section \<open>Publication\<close>

text \<open>
  \<open>published evs c c'\<close>: from \<open>c\<close> to \<open>c'\<close> the events were offered to the market data queue in
  order; those for which there was room are in it, behind what was there, and the others
  are counted.
\<close>

definition md_ok :: "engine_ctx \<Rightarrow> bool" where
  "md_ok c \<longleftrightarrow> (\<forall>q. ec_md c = Some q \<longrightarrow> mq_inv q)"

definition published :: "md_event list \<Rightarrow> engine_ctx \<Rightarrow> engine_ctx \<Rightarrow> bool" where
  "published evs c c' \<longleftrightarrow>
     (case ec_md c of
        None \<Rightarrow> ec_md c' = None \<and> ls_md_drops (ec_stats c') = ls_md_drops (ec_stats c)
      | Some q \<Rightarrow> \<exists>q'. ec_md c' = Some q' \<and> mq_inv q' \<and> mq_cap q' = mq_cap q \<and>
          mq_contents q' = mq_contents q @ take (mq_cap q - length (mq_contents q)) evs \<and>
          ls_md_drops (ec_stats c') =
            ls_md_drops (ec_stats c) + of_nat (length evs - (mq_cap q - length (mq_contents q))))"

lemma published_ok: "md_ok c \<Longrightarrow> published evs c c' \<Longrightarrow> md_ok c'"
  by (auto simp: published_def md_ok_def split: option.splits)

lemma published_nil:
  "md_ok c \<Longrightarrow> ec_md c' = ec_md c \<Longrightarrow> ls_md_drops (ec_stats c') = ls_md_drops (ec_stats c) \<Longrightarrow>
     published [] c c'"
  by (auto simp: published_def md_ok_def split: option.splits)

lemma published_trans:
  assumes "published xs c c1" "published ys c1 c2"
  shows "published (xs @ ys) c c2"
proof (cases "ec_md c")
  case (Some q)
  let ?r = "mq_cap q - length (mq_contents q)"
  obtain q1 where q1: "ec_md c1 = Some q1" "mq_cap q1 = mq_cap q"
    "mq_contents q1 = mq_contents q @ take ?r xs"
    "ls_md_drops (ec_stats c1) = ls_md_drops (ec_stats c) + of_nat (length xs - ?r)"
    using assms(1) Some by (auto simp: published_def simp del: length_mq_contents)
  have r1: "mq_cap q1 - length (mq_contents q1) = ?r - length xs"
    unfolding q1(2,3) by (simp del: length_mq_contents)
  have "length xs - ?r + (length ys - (?r - length xs)) = length (xs @ ys) - ?r" by simp
  then have d: "(of_nat (length xs - ?r) :: u64) + of_nat (length ys - (?r - length xs)) =
      of_nat (length (xs @ ys) - ?r)" by (metis of_nat_add)
  obtain q2 where q2: "ec_md c2 = Some q2" "mq_inv q2" "mq_cap q2 = mq_cap q"
    "mq_contents q2 = mq_contents q1 @ take (?r - length xs) ys"
    "ls_md_drops (ec_stats c2) = ls_md_drops (ec_stats c1) + of_nat (length ys - (?r - length xs))"
    using assms(2) q1(1,2) r1 by (auto simp: published_def simp del: length_mq_contents)
  have "ls_md_drops (ec_stats c2) = ls_md_drops (ec_stats c) + of_nat (length (xs @ ys) - ?r)"
    using q1(4) q2(5) d by (simp only: add.assoc)
  moreover have "mq_contents q2 = mq_contents q @ take ?r (xs @ ys)"
    using q1(3) q2(4) by (simp del: length_mq_contents)
  ultimately show ?thesis
    using Some q2(1-3) by (simp add: published_def del: length_mq_contents length_append)
qed (use assms in \<open>auto simp: published_def split: option.splits\<close>)

lemma push_event_spec:
  assumes "mq_inv q" "ec_md c = Some q"
  shows "published [ev] c (push_event ev q c)" "ec_symbol (push_event ev q c) = ec_symbol c"
    "\<exists>d. ec_stats (push_event ev q c) = (ec_stats c)\<lparr>ls_md_drops := d\<rparr>"
proof -
  obtain b q' where p: "mq_try_push ev q = (b, q')" by force
  note sp = mq.push_spec [OF assms(1) p]
  show "published [ev] c (push_event ev q c)"
    using sp assms by (auto simp: published_def push_event_def p upd_stats_def simp del: length_mq_contents)
  have "ec_stats (push_event ev q c) = (ec_stats c)\<lparr>ls_md_drops :=
      (if b then ls_md_drops (ec_stats c) else ls_md_drops (ec_stats c) + 1)\<rparr>"
    by (simp add: push_event_def p upd_stats_def)
  then show "\<exists>d. ec_stats (push_event ev q c) = (ec_stats c)\<lparr>ls_md_drops := d\<rparr>" by blast
  show "ec_symbol (push_event ev q c) = ec_symbol c"
    by (simp add: push_event_def p upd_stats_def Let_def)
qed

lemma on_trade_spec:
  assumes ok: "md_ok c"
  shows "published [MD_TRADE (ec_symbol c) t] c (on_trade_internal t c)"
    "ec_symbol (on_trade_internal t c) = ec_symbol c"
    "\<exists>d. ec_stats (on_trade_internal t c) =
       (ec_stats c)\<lparr>ls_trades_executed := ls_trades_executed (ec_stats c) + 1, ls_md_drops := d\<rparr>"
proof -
  let ?c = "upd_stats (\<lambda>s. s\<lparr>ls_trades_executed := ls_trades_executed s + 1\<rparr>) c"
  have c: "ec_md ?c = ec_md c" "ec_symbol ?c = ec_symbol c"
    "ec_stats ?c = (ec_stats c)\<lparr>ls_trades_executed := ls_trades_executed (ec_stats c) + 1\<rparr>"
    by (simp_all add: upd_stats_def)
  have "published [MD_TRADE (ec_symbol c) t] c (on_trade_internal t c) \<and>
    ec_symbol (on_trade_internal t c) = ec_symbol c \<and>
    (\<exists>d. ec_stats (on_trade_internal t c) =
       (ec_stats c)\<lparr>ls_trades_executed := ls_trades_executed (ec_stats c) + 1, ls_md_drops := d\<rparr>)"
  proof (cases "ec_md c")
    case None
    have "\<exists>d. ec_stats ?c = (ec_stats c)\<lparr>ls_trades_executed := ls_trades_executed (ec_stats c) + 1, ls_md_drops := d\<rparr>"
      unfolding c(3) by (rule exI [of _ "ls_md_drops (ec_stats c)"]) simp
    with None c show ?thesis
      by (simp add: on_trade_internal_def publish_trade_def published_def)
  next
    case (Some q)
    then have q: "mq_inv q" "ec_md ?c = Some q" using ok c by (simp_all add: md_ok_def)
    note sp = push_event_spec [OF q, of "MD_TRADE (ec_symbol c) t"]
    have eq: "on_trade_internal t c = push_event (MD_TRADE (ec_symbol c) t) q ?c"
      using q c by (simp add: on_trade_internal_def publish_trade_def)
    have "published [] c ?c" using ok c by (intro published_nil) simp_all
    from published_trans [OF this sp(1)] sp(2,3) c show ?thesis
      unfolding eq by simp
  qed
  then show "published [MD_TRADE (ec_symbol c) t] c (on_trade_internal t c)"
    "ec_symbol (on_trade_internal t c) = ec_symbol c"
    "\<exists>d. ec_stats (on_trade_internal t c) =
       (ec_stats c)\<lparr>ls_trades_executed := ls_trades_executed (ec_stats c) + 1, ls_md_drops := d\<rparr>"
    by blast+
qed

lemma on_trades_spec:
  "md_ok c \<Longrightarrow>
     published (map (MD_TRADE (ec_symbol c)) ts) c (fold on_trade_internal ts c) \<and>
     ec_symbol (fold on_trade_internal ts c) = ec_symbol c \<and>
     (\<exists>d. ec_stats (fold on_trade_internal ts c) =
        (ec_stats c)\<lparr>ls_trades_executed := ls_trades_executed (ec_stats c) + of_nat (length ts),
           ls_md_drops := d\<rparr>)"
proof (induction ts arbitrary: c)
  case Nil
  have "\<exists>d. ec_stats c = (ec_stats c)\<lparr>ls_trades_executed := ls_trades_executed (ec_stats c) + 0, ls_md_drops := d\<rparr>"
    by (rule exI [of _ "ls_md_drops (ec_stats c)"]) simp
  then show ?case using published_nil [OF Nil, of c] by simp
next
  case (Cons t ts)
  let ?c = "on_trade_internal t c"
  note sp = on_trade_spec [OF Cons.prems, of t]
  have ok: "md_ok ?c" by (rule published_ok [OF Cons.prems sp(1)])
  from sp(3) obtain d where d: "ec_stats ?c =
      (ec_stats c)\<lparr>ls_trades_executed := ls_trades_executed (ec_stats c) + 1, ls_md_drops := d\<rparr>" by blast
  have "published (map (MD_TRADE (ec_symbol c)) (t # ts)) c (fold on_trade_internal ts ?c)"
    using published_trans [OF sp(1)] Cons.IH [OF ok] sp(2) by simp
  moreover obtain d' where "ec_stats (fold on_trade_internal ts ?c) =
      (ec_stats c)\<lparr>ls_trades_executed := ls_trades_executed (ec_stats c) + of_nat (length (t # ts)), ls_md_drops := d'\<rparr>"
    using Cons.IH [OF ok] d by (auto simp: add.assoc)
  ultimately show ?case using Cons.IH [OF ok] sp(2) by auto
qed


section \<open>Requests\<close>

text \<open>
  The orders that pending requests hand over are slots taken from the pool, each once, and
  not in the book.
\<close>

fun pending :: "order_request list \<Rightarrow> nat list" where
  "pending [] = []"
| "pending (NEW_ORDER (Some a) # rs) = a # pending rs"
| "pending (r # rs) = pending rs"

lemma pending_app: "pending (rs @ rs') = pending rs @ pending rs'"
  by (induction rs rule: pending.induct) auto

definition ready :: "order_request list \<Rightarrow> engine \<Rightarrow> bool" where
  "ready rs E \<longleftrightarrow>
     ob_consistent (en_book E) \<and> bk_callback (en_book E) = Some on_trade_internal \<and>
     md_ok (en_ctx E) \<and> distinct (pending rs) \<and> (\<forall>a\<in>set (pending rs). fresh a (en_book E))"

definition handled :: "engine \<Rightarrow> u64" where
  "handled E = ls_orders_accepted (en_stats E) + ls_orders_rejected (en_stats E) +
     ls_cancels_accepted (en_stats E) + ls_cancels_rejected (en_stats E)"

definition bbo_event :: "engine \<Rightarrow> md_event" where
  "bbo_event E = MD_BBO (ec_symbol (en_ctx E))
     \<lparr>bd_bid_price = best_bid (en_book E), bd_bid_quantity = bid_quantity (en_book E),
      bd_ask_price = best_ask (en_book E), bd_ask_quantity = ask_quantity (en_book E)\<rparr>"

text \<open>What the engine shows of one request, whatever its outcome.\<close>

definition outcome :: "engine \<Rightarrow> engine \<Rightarrow> bool" where
  "outcome E E' \<longleftrightarrow>
     handled E' = handled E + 1 \<and> ec_symbol (en_ctx E') = ec_symbol (en_ctx E) \<and>
     ls_total_processed (en_stats E') = ls_total_processed (en_stats E) \<and>
     (\<exists>ts. bk_trades (en_book E') = bk_trades (en_book E) @ ts \<and>
        ls_trades_executed (en_stats E') = ls_trades_executed (en_stats E) + of_nat (length ts) \<and>
        published
          (map (MD_TRADE (ec_symbol (en_ctx E))) ts @
             (if bbo_changed (best_bid (en_book E)) (best_ask (en_book E)) E' then [bbo_event E'] else []))
          (en_ctx E) (en_ctx E'))"

lemma add_order_cases:
  assumes ok: "ob_consistent B" and a: "fresh a B" and room: "book_room B"
  obtains (rejected) e where "add_error (Some a) B = Some e" "add_order (Some a) B = Some (Inl e, B)"
  | (accepted) fs q B' where "add_error (Some a) B = None" "add_order (Some a) B = Some (Inr (), B')"
      "added a B fs B'" "ob_consistent B'"
      "ref_add (o_side (ord B a) = BUY) (o_type (ord B a) = MARKET) (entry_of (ord B a)) (view B) =
         (fs, q, view B')"
proof (cases "add_error (Some a) B")
  case (Some e)
  with that(1) show ?thesis by (auto simp: add_error_def add_order_def split: if_splits)
next
  case None
  then have c: "\<not> bk_shutdown B" "o_remaining (ord B a) \<noteq> 0" "map_of (bk_lookup B) (o_id (ord B a)) = None"
    by (auto simp: add_error_def split: if_splits)
  have inv: "book_inv {} B" using ok by (simp add: ob_consistent_def)
  obtain fs q V where ref: "ref_add (o_side (ord B a) = BUY) (o_type (ord B a) = MARKET)
      (entry_of (ord B a)) (view B) = (fs, q, V)" by (metis prod_cases3)
  obtain B' where B': "add_order (Some a) B = Some (Inr (), B')" "added a B fs B'" "view B' = V"
    by (rule add_order_ref [OF inv c(1) a c(2,3) room ref])
  have "ob_consistent B'" using a by (intro add_order_consistent [OF ok _ room B'(1)]) simp
  with that(2) None B' ref show ?thesis by simp
qed

text \<open>
  \<open>aside S B B'\<close>: from \<open>B\<close> to \<open>B'\<close> no slot outside the book and \<open>S\<close> was touched, and the
  book took nothing but slots of \<open>S\<close>. Books that share a pool do not disturb one another.
\<close>

definition aside :: "nat set \<Rightarrow> 'c book \<Rightarrow> 'c book \<Rightarrow> bool" where
  "aside S B B' \<longleftrightarrow> slots_of B' = slots_of B \<and> live B' \<subseteq> live B \<union> S \<and>
     (\<forall>x. x \<notin> live B \<union> S \<longrightarrow> ord B' x = ord B x \<and>
        (x \<in> set (mp_free (bk_pool B')) \<longleftrightarrow> x \<in> set (mp_free (bk_pool B))))"

lemma aside_refl [simp]: "aside S B B"
  by (simp add: aside_def)

lemma aside_trans: "aside S B B1 \<Longrightarrow> aside T B1 B2 \<Longrightarrow> aside (S \<union> T) B B2"
  by (auto simp: aside_def)

lemma aside_mono: "aside S B B' \<Longrightarrow> S \<subseteq> T \<Longrightarrow> aside T B B'"
  by (auto simp: aside_def)

lemma aside_ctx [simp]:
  "aside S B (B'\<lparr>bk_ctx := c\<rparr>) = aside S B B'" "aside S B (en_book (set_ctx c E)) = aside S B (en_book E)"
  by (simp_all add: aside_def set_ctx_def)

lemma added_aside: "added a B fs B' \<Longrightarrow> aside {a} B B'"
  by (auto simp: added_def aside_def)

lemma added_fresh:
  assumes "added a B fs B'" "fresh b B" "b \<noteq> a"
  shows "fresh b B'"
  using assms by (auto simp: added_def fresh_def)

text \<open>Publishing the best bid and offer, or not, after the book has changed.\<close>

lemma publish_bbo_spec:
  assumes ok: "md_ok (en_ctx E)"
    and E': "E' = (if ch then publish_bbo_update E else E)"
  shows "published (if ch then [bbo_event E'] else []) (en_ctx E) (en_ctx E')"
    "ec_symbol (en_ctx E') = ec_symbol (en_ctx E)" "\<exists>d. en_stats E' = (en_stats E)\<lparr>ls_md_drops := d\<rparr>"
proof -
  have ev: "bbo_event (publish_bbo_update E) = bbo_event E"
    if "ec_symbol (en_ctx (publish_bbo_update E)) = ec_symbol (en_ctx E)"
    using that count_publish_ctx(2) [of E]
    by (auto simp: bbo_event_def set_ctx_def bid_quantity_def ask_quantity_def)
  have "published (if ch then [bbo_event E'] else []) (en_ctx E) (en_ctx E') \<and>
    ec_symbol (en_ctx E') = ec_symbol (en_ctx E) \<and> (\<exists>d. en_stats E' = (en_stats E)\<lparr>ls_md_drops := d\<rparr>)"
  proof (cases "ch \<and> ec_md (en_ctx E) \<noteq> None")
    case True
    then obtain q where q: "ec_md (en_ctx E) = Some q" "mq_inv q" using ok by (auto simp: md_ok_def)
    then have eq: "en_ctx (publish_bbo_update E) = push_event (bbo_event E) q (en_ctx E)"
      by (simp add: publish_bbo_update_def bbo_event_def Let_def)
    note sp = push_event_spec [OF q(2,1), of "bbo_event E"]
    show ?thesis using True sp ev unfolding E' by (simp add: eq)
  next
    case False
    then have "E' = E \<or> (ec_md (en_ctx E) = None \<and> E' = E)"
      unfolding E' by (auto simp: publish_bbo_update_def)
    then have eq: "E' = E" by blast
    have "\<exists>d. en_stats E = (en_stats E)\<lparr>ls_md_drops := d\<rparr>"
      by (rule exI [of _ "ls_md_drops (en_stats E)"]) simp
    moreover have "published (if ch then [bbo_event E] else []) (en_ctx E) (en_ctx E)"
      using False published_nil [OF ok] by (auto simp: published_def)
    ultimately show ?thesis unfolding eq by blast
  qed
  then show "published (if ch then [bbo_event E'] else []) (en_ctx E) (en_ctx E')"
    "ec_symbol (en_ctx E') = ec_symbol (en_ctx E)" "\<exists>d. en_stats E' = (en_stats E)\<lparr>ls_md_drops := d\<rparr>"
    by blast+
qed


text \<open>How an accepted request ends: it is counted, and the best prices are published if they moved.\<close>

definition conclude :: "(local_stats \<Rightarrow> local_stats) \<Rightarrow> engine_ctx book \<Rightarrow> engine \<Rightarrow> engine" where
  "conclude f B E =
     (let E1 = count_stats f (E\<lparr>en_book := B\<rparr>)
      in if bbo_changed (best_bid (en_book E)) (best_ask (en_book E)) E1 then publish_bbo_update E1 else E1)"

lemma conclude_spec:
  assumes md: "md_ok (bk_ctx B)" and f: "\<And>s. ls_md_drops (f s) = ls_md_drops s"
    and E': "E' = conclude f B E"
  shows "\<exists>c. en_book E' = B\<lparr>bk_ctx := c\<rparr>" "md_ok (en_ctx E')"
    "published (if bbo_changed (best_bid (en_book E)) (best_ask (en_book E)) E' then [bbo_event E'] else [])
       (bk_ctx B) (en_ctx E')"
    "ec_symbol (en_ctx E') = ec_symbol (bk_ctx B)"
    "\<exists>d. en_stats E' = (f (ec_stats (bk_ctx B)))\<lparr>ls_md_drops := d\<rparr>"
proof -
  define E1 where "E1 = count_stats f (E\<lparr>en_book := B\<rparr>)"
  define ch where "ch = bbo_changed (best_bid (en_book E)) (best_ask (en_book E)) E1"
  have E'1: "E' = (if ch then publish_bbo_update E1 else E1)"
    unfolding E' conclude_def Let_def by (simp add: ch_def E1_def)
  obtain c1 where c1: "en_book E1 = B\<lparr>bk_ctx := c1\<rparr>" by (simp add: E1_def count_stats_def set_ctx_def)
  have e1: "ec_md (en_ctx E1) = ec_md (bk_ctx B)" "ec_symbol (en_ctx E1) = ec_symbol (bk_ctx B)"
    "en_stats E1 = f (ec_stats (bk_ctx B))"
    by (simp_all add: E1_def count_stats_def upd_stats_def set_ctx_def)
  have md1: "md_ok (en_ctx E1)" using md e1(1) by (simp add: md_ok_def)
  note pb = publish_bbo_spec [OF md1 E'1]
  obtain c where c: "E' = set_ctx c E1"
    using count_publish_ctx(2) [of E1] set_ctx_id [of E1] E'1 by metis
  show "\<exists>c. en_book E' = B\<lparr>bk_ctx := c\<rparr>" by (simp add: c set_ctx_def c1) blast
  show "md_ok (en_ctx E')" by (rule published_ok [OF md1 pb(1)])
  have "published [] (bk_ctx B) (en_ctx E1)" using md e1 f by (intro published_nil) simp_all
  from published_trans [OF this pb(1)]
  show "published (if bbo_changed (best_bid (en_book E)) (best_ask (en_book E)) E' then [bbo_event E'] else [])
       (bk_ctx B) (en_ctx E')" by (simp add: c ch_def)
  show "ec_symbol (en_ctx E') = ec_symbol (bk_ctx B)" using pb(2) e1(2) by simp
  show "\<exists>d. en_stats E' = (f (ec_stats (bk_ctx B)))\<lparr>ls_md_drops := d\<rparr>" using pb(3) unfolding e1(3) .
qed

lemma new_order_accepted:
  assumes rd: "ready (NEW_ORDER (Some a) # rs) E"
    and acc: "add_order (Some a) (en_book E) = Some (Inr (), B')" "added a (en_book E) fs B'" "ob_consistent B'"
  shows "\<exists>E'. process_new_order (Some a) E = Some E' \<and> ready rs E' \<and> outcome E E' \<and>
     (\<exists>c. en_book E' = B'\<lparr>bk_ctx := c\<rparr>)"
proof -
  let ?B = "en_book E" and ?ts = "trades_from (en_book E) a fs"
  define E' where "E' = conclude (\<lambda>s. s\<lparr>ls_orders_accepted := ls_orders_accepted s + 1\<rparr>) B' E"
  have md: "md_ok (en_ctx E)" and cb: "bk_callback ?B = Some on_trade_internal"
    using rd by (auto simp: ready_def)
  note tr = on_trades_spec [OF md, of ?ts]
  have ctx: "bk_ctx B' = fold on_trade_internal ?ts (en_ctx E)" "bk_trades B' = bk_trades ?B @ ?ts"
    "bk_callback B' = Some on_trade_internal"
    using acc(2) cb by (simp_all add: added_def)
  have md1: "md_ok (bk_ctx B')" using published_ok [OF md] tr unfolding ctx(1) by blast
  note cn = conclude_spec [OF md1 _ E'_def, simplified]
  obtain c where c: "en_book E' = B'\<lparr>bk_ctx := c\<rparr>" using cn(1) by blast
  have run: "process_new_order (Some a) E = Some E'"
    using acc(1) by (simp add: process_new_order_def Let_def E'_def conclude_def)
  have "ready rs E'"
    using rd acc(3) added_fresh [OF acc(2)] cn(2) ctx(3) c by (auto simp: ready_def)
  moreover have "outcome E E'"
  proof -
    obtain d d' where d: "ec_stats (bk_ctx B') = (en_stats E)\<lparr>ls_trades_executed :=
        ls_trades_executed (en_stats E) + of_nat (length ?ts), ls_md_drops := d\<rparr>"
      "en_stats E' = (ec_stats (bk_ctx B'))\<lparr>ls_orders_accepted := ls_orders_accepted (ec_stats (bk_ctx B')) + 1,
         ls_md_drops := d'\<rparr>"
      using tr cn(5) unfolding ctx(1) by blast
    have "published (map (MD_TRADE (ec_symbol (en_ctx E))) ?ts @
        (if bbo_changed (best_bid ?B) (best_ask ?B) E' then [bbo_event E'] else [])) (en_ctx E) (en_ctx E')"
      using published_trans [OF _ cn(3)] tr unfolding ctx(1) by blast
    then show ?thesis
      using cn(4) tr d ctx c unfolding outcome_def handled_def by auto
  qed
  ultimately show ?thesis using run c by blast
qed

lemma new_order_rejected:
  assumes rd: "ready (NEW_ORDER (Some a) # rs) E" and rej: "add_order (Some a) (en_book E) = Some (Inl e, en_book E)"
  shows "\<exists>E'. process_new_order (Some a) E = Some E' \<and> ready rs E' \<and> outcome E E' \<and>
     (\<forall>n. book_bound n (en_book E) \<longrightarrow> book_bound n (en_book E')) \<and> view (en_book E') = view (en_book E) \<and>
     mp_free (bk_pool (en_book E')) = a # mp_free (bk_pool (en_book E)) \<and>
     ord (en_book E') a = (ord (en_book E) a)\<lparr>o_status := REJECTED\<rparr> \<and>
     (\<forall>x. x \<noteq> a \<longrightarrow> ord (en_book E') x = ord (en_book E) x) \<and>
     bk_shutdown (en_book E') = bk_shutdown (en_book E) \<and> aside {a} (en_book E) (en_book E')"
proof -
  let ?B = "en_book E"
  define c where "c = upd_stats (\<lambda>s. s\<lparr>ls_orders_rejected := ls_orders_rejected s + 1\<rparr>) (en_ctx E)"
  define P where "P = mp_deallocate (Some a) (bk_pool (upd_ord a (\<lambda>x. x\<lparr>o_status := REJECTED\<rparr>) ?B))"
  define E' where "E' = E\<lparr>en_book := ?B\<lparr>bk_ctx := c, bk_pool := P\<rparr>\<rparr>"
  have ok: "ob_consistent ?B" "fresh a ?B" "md_ok (en_ctx E)"
    using rd by (simp_all add: ready_def)
  then have inv: "mp_inv (bk_pool ?B)" "a < slots_of ?B" "a \<notin> set (mp_free (bk_pool ?B))" "a \<notin> live ?B"
    by (simp_all add: ob_consistent_def book_inv_def fresh_def)
  have sl: "slots_of ?B = mp_slots (bk_pool ?B)" using inv(1) by (simp add: mp_inv_def mp_slots_def)
  have run: "process_new_order (Some a) E = Some E'"
    using rej by (simp add: process_new_order_def Let_def count_stats_def set_ctx_def E'_def free_ord_def
      upd_ord_def P_def c_def ord_def)
  have P: "mp_inv P" "mp_free P = a # mp_free (bk_pool ?B)"
    "mp_pool P = (mp_pool (bk_pool ?B))[a := (ord ?B a)\<lparr>o_status := REJECTED\<rparr>]"
    using mp_deallocate_ok [of "bk_pool (upd_ord a (\<lambda>x. x\<lparr>o_status := REJECTED\<rparr>) ?B)" a] inv sl
    by (simp_all add: P_def) (simp add: upd_ord_def)
  have other: "mp_pool P ! x = ord ?B x" if "x \<noteq> a" for x using that P(3) by (simp add: ord_def)
  have "\<forall>p\<in>live ?B. p \<notin> set (mp_free P) \<and> mp_pool P ! p = ord (?B\<lparr>bk_ctx := c\<rparr>) p"
  proof
    fix p assume p: "p \<in> live ?B"
    then have "p \<noteq> a" "p \<notin> set (mp_free (bk_pool ?B))"
      using inv ok(1) by (auto simp: ob_consistent_def book_inv_def)
    then show "p \<notin> set (mp_free P) \<and> mp_pool P ! p = ord (?B\<lparr>bk_ctx := c\<rparr>) p"
      using P(2) other by simp
  qed
  then have con: "ob_consistent (en_book E')"
    using ob_consistent_others [of "?B\<lparr>bk_ctx := c\<rparr>" P] ok(1) P by (simp add: E'_def)
  have lv: "live (en_book E') = live ?B" "lad d (en_book E') = lad d ?B" for d
    by (simp_all add: E'_def live_def lad_def)
  have fr: "fresh b (en_book E')" if "fresh b ?B" "b \<noteq> a" for b
    using that P lv by (simp add: fresh_def E'_def)
  have md: "md_ok (en_ctx E')" using ok(3) by (simp add: E'_def c_def upd_stats_def md_ok_def)
  have "ready rs E'"
    using rd con fr md by (auto simp: ready_def E'_def)
  moreover have "outcome E E'"
  proof -
    have "best_bid (en_book E') = best_bid ?B" "best_ask (en_book E') = best_ask ?B"
      by (simp_all add: E'_def best_bid_def best_ask_def)
    moreover have "published [] (en_ctx E) (en_ctx E')"
      using ok(3) by (intro published_nil) (simp_all add: E'_def c_def upd_stats_def)
    ultimately show ?thesis
      by (simp add: outcome_def bbo_changed_def)
        (simp add: handled_def E'_def c_def upd_stats_def)
  qed
  moreover have "ord (en_book E') a = (ord ?B a)\<lparr>o_status := REJECTED\<rparr>"
    using P(3) inv(2) by (simp add: E'_def ord_def)
  moreover have "view (en_book E') = view ?B"
  proof -
    have "ord (en_book E') x = ord ?B x" if "x \<in> live ?B" for x
      using that inv(4) other [of x] by (auto simp: E'_def ord_def)
    then have "view (en_book E') d = view ?B d" for d
      by (simp add: view_def side_view_def lv live_lad [of ?B d])
    then show ?thesis by (rule ext)
  qed
  moreover have "aside {a} ?B (en_book E')"
    using P lv(1) other by (auto simp: aside_def E'_def ord_def)
  ultimately show ?thesis
    using run P(2) lv other by (intro exI [of _ E']) (simp add: E'_def book_bound_def ord_def)
qed


lemma erase_set: "set (erase i xs) \<subseteq> set xs"
  unfolding erase_def by (auto dest: in_set_takeD in_set_dropD)

lemma fb_remove_set: "set (fb_remove d p ls) \<subseteq> set ls"
  using erase_set [of "lower_bound_for d p ls" ls] by (simp add: fb_remove_def Let_def)

lemma remove_from_book_bound:
  assumes "book_bound n B"
  shows "book_bound n (remove_from_book a B)"
proof -
  have upd: "book_bound n (set_lad d ls B)" if "\<forall>l\<in>set ls. length (l_orders l) \<le> n" for d ls
    using assms that by (auto simp: book_bound_def)
  have er: "length (erase i xs) \<le> length xs" for i and xs :: "nat list"
    by (simp add: erase_def)
  have put: "\<forall>l\<in>set ((lad d B)[k := m]). length (l_orders l) \<le> n"
    if "length (l_orders m) \<le> length (l_orders (lad d B ! k))" for d k m
  proof (cases "k < length (lad d B)")
    case True
    then have "length (l_orders (lad d B ! k)) \<le> n"
      using assms nth_mem [OF True] unfolding book_bound_def by blast
    then have "length (l_orders m) \<le> n" using that by simp
    then show ?thesis
      using assms by (auto simp: book_bound_def dest!: set_update_subset_insert [THEN subsetD])
  qed (use assms in \<open>simp add: book_bound_def list_update_beyond\<close>)
  have "book_bound n (set_lad d ((lad d B)[k := m]) B)"
    "book_bound n (set_lad d (fb_remove d p ((lad d B)[k := m])) B)"
    if "length (l_orders m) \<le> length (l_orders (lad d B ! k))" for d k m p
    using put [OF that] fb_remove_set [of d p "(lad d B)[k := m]"] by (auto intro!: upd)
  then show ?thesis
    unfolding remove_from_book_def Let_def by (simp split: option.split add: assms er)
qed


lemma cancel_order_bound:
  assumes "book_bound n B" "cancel_order i B = (r, B')"
  shows "book_bound n B'"
proof -
  have "book_bound n (free_ord a (upd_ord a f C)) = book_bound n C" for a f and C :: "'a book"
    by (simp add: book_bound_def)
  then show ?thesis
    using assms remove_from_book_bound [OF assms(1)]
    by (auto simp: cancel_order_def Let_def split: if_splits option.splits)
qed

lemma cancel_known:
  assumes rd: "ready (CANCEL_ORDER i w # rs) E" and up: "\<not> bk_shutdown (en_book E)"
    and lk: "map_of (bk_lookup (en_book E)) i = Some a"
  shows "ready rs (process_cancel i w E) \<and> outcome E (process_cancel i w E) \<and>
     (\<forall>n. book_bound n (en_book E) \<longrightarrow> book_bound n (en_book (process_cancel i w E))) \<and>
     view (en_book (process_cancel i w E)) = ref_cancel i (view (en_book E)) \<and>
     (\<forall>x. x \<notin> live (en_book E) \<longrightarrow> ord (en_book (process_cancel i w E)) x = ord (en_book E) x) \<and>
     \<not> bk_shutdown (en_book (process_cancel i w E)) \<and> aside {} (en_book E) (en_book (process_cancel i w E))"
proof -
  let ?B = "en_book E"
  have ok: "ob_consistent ?B" "md_ok (en_ctx E)" "bk_callback ?B = Some on_trade_internal"
    using rd by (simp_all add: ready_def)
  then have inv: "book_inv {} ?B" by (simp add: ob_consistent_def)
  obtain B' where B': "cancel_order i ?B = (Inr (), B')" "book_inv {} B'" "view B' = ref_cancel i (view ?B)"
    "mp_free (bk_pool B') = a # mp_free (bk_pool ?B)" "bk_lookup B' = AList.delete i (bk_lookup ?B)"
    "bk_trades B' = bk_trades ?B" "bk_ctx B' = en_ctx E" "bk_callback B' = bk_callback ?B"
    "slots_of B' = slots_of ?B" "\<forall>x. x \<noteq> a \<longrightarrow> ord B' x = ord ?B x" "\<not> bk_shutdown B'"
    by (rule cancel_order_ref [OF inv up lk]) metis
  have con: "ob_consistent B'" by (rule cancel_order_consistent [OF ok(1) B'(1)])
  have a: "a \<in> live ?B" using inv lk by (simp add: book_inv_def)
  have lv: "x \<in> live ?B" if "x \<in> live B'" for x
  proof (cases "x = a")
    case False
    have "map_of (bk_lookup B') (o_id (ord B' x)) = Some x" using B'(2) that by (simp add: book_inv_def)
    then have "map_of (bk_lookup ?B) (o_id (ord ?B x)) = Some x"
      using B'(5,10) False by (auto simp: delete_conv' restrict_map_def split: if_splits)
    then show ?thesis using inv by (simp add: book_inv_def)
  qed (use a in simp)
  define E' where "E' = conclude (\<lambda>s. s\<lparr>ls_cancels_accepted := ls_cancels_accepted s + 1\<rparr>) B' E"
  have run: "process_cancel i w E = E'"
    using B'(1) by (simp add: process_cancel_def Let_def E'_def conclude_def)
  have md1: "md_ok (bk_ctx B')" using ok(2) B'(7) by simp
  note cn = conclude_spec [OF md1 _ E'_def, simplified]
  obtain c where c: "en_book E' = B'\<lparr>bk_ctx := c\<rparr>" using cn(1) by blast
  have fr: "fresh b B'" if "fresh b ?B" for b
    using that lv a B'(4,9) by (auto simp: fresh_def)
  have kept: "\<forall>x. x \<notin> live ?B \<longrightarrow> ord B' x = ord ?B x" using B'(10) a by metis
  have "ready rs E'" using rd con fr cn(2) B'(8) c by (auto simp: ready_def)
  moreover have "outcome E E'"
    using cn(3-5) B'(6,7) c unfolding outcome_def handled_def
    by (auto intro!: exI [of _ "[]"])
  moreover have "aside {} ?B B'" using lv kept a B'(4,9) by (auto simp: aside_def)
  then have "aside {} ?B (en_book E')" by (simp add: c aside_def)
  ultimately show ?thesis
    using cancel_order_bound [OF _ B'(1)] B'(3,11) kept c unfolding run by simp
qed


lemma cancel_unknown:
  assumes rd: "ready (CANCEL_ORDER i w # rs) E"
    and no: "bk_shutdown (en_book E) \<or> map_of (bk_lookup (en_book E)) i = None"
  shows "\<exists>c. process_cancel i w E = set_ctx c E \<and> ready rs (set_ctx c E) \<and> outcome E (set_ctx c E)"
proof -
  let ?f = "\<lambda>s. s\<lparr>ls_cancels_rejected := ls_cancels_rejected s + 1\<rparr>"
  let ?c = "upd_stats ?f (en_ctx E)"
  have "\<exists>e. cancel_order i (en_book E) = (Inl e, en_book E)"
    using no by (cases "bk_shutdown (en_book E)") (auto simp: cancel_order_def)
  then obtain e where "cancel_order i (en_book E) = (Inl e, en_book E)" by blast
  then have run: "process_cancel i w E = set_ctx ?c E"
    by (simp add: process_cancel_def Let_def count_stats_def)
  have md: "md_ok (en_ctx E)" using rd by (simp add: ready_def)
  then have "md_ok ?c" by (simp add: md_ok_def upd_stats_def)
  then have "ready rs (set_ctx ?c E)" using rd by (simp add: ready_def)
  moreover have "published [] (en_ctx E) ?c"
    using md by (intro published_nil) (simp_all add: upd_stats_def)
  then have "outcome E (set_ctx ?c E)"
    by (simp add: outcome_def) (simp add: bbo_changed_def handled_def upd_stats_def)
  ultimately show ?thesis using run by blast
qed

section \<open>The engine refines a reference book\<close>

text \<open>
  The reference takes the requests as the client sees them: an order with its side, type and
  entry, or the id to cancel. An order without quantity or with an id on the book changes nothing.
\<close>

datatype ref_request = Ref_New bool bool entry | Ref_Cancel OrderID | Ref_None

definition abs_request :: "engine \<Rightarrow> order_request \<Rightarrow> ref_request" where
  "abs_request E r =
     (case r of
        NEW_ORDER None \<Rightarrow> Ref_None
      | NEW_ORDER (Some a) \<Rightarrow>
          Ref_New (o_side (ord (en_book E) a) = BUY) (o_type (ord (en_book E) a) = MARKET)
            (entry_of (ord (en_book E) a))
      | CANCEL_ORDER i _ \<Rightarrow> Ref_Cancel i)"

definition ref_ids :: "ref_book \<Rightarrow> OrderID set" where
  "ref_ids V = fst ` (set (V True) \<union> set (V False))"

fun ref_handle :: "ref_request \<Rightarrow> ref_book \<Rightarrow> ref_book" where
  "ref_handle (Ref_New buy market e) V =
     (if entry_qty e = 0 \<or> fst e \<in> ref_ids V then V else snd (snd (ref_add buy market e V)))"
| "ref_handle (Ref_Cancel i) V = ref_cancel i V"
| "ref_handle Ref_None V = V"

text \<open>
  \<open>served rs rs' n E E'\<close>: from \<open>E\<close> to \<open>E'\<close> the engine has handled \<open>rs\<close> and is ready for
  \<open>rs'\<close>, whose orders it has not touched, and no slot but its own and those of \<open>rs\<close>.
\<close>

definition served :: "order_request list \<Rightarrow> order_request list \<Rightarrow> nat \<Rightarrow> engine \<Rightarrow> engine \<Rightarrow> bool" where
  "served rs rs' n E E' \<longleftrightarrow>
     ready rs' E' \<and> \<not> bk_shutdown (en_book E') \<and>
     view (en_book E') = fold ref_handle (map (abs_request E) rs) (view (en_book E)) \<and>
     handled E' = handled E + of_nat (length rs) \<and>
     (\<forall>r\<in>set rs'. abs_request E' r = abs_request E r) \<and>
     book_bound (n + length rs) (en_book E') \<and> aside (set (pending rs)) (en_book E) (en_book E')"

lemma served_trans:
  assumes "served rs (rs1 @ rs2) n E E1" "served rs1 rs2 (n + length rs) E1 E2"
  shows "served (rs @ rs1) rs2 n E E2"
proof -
  have "map (abs_request E1) rs1 = map (abs_request E) rs1" using assms(1) by (auto simp: served_def)
  then have "fold ref_handle (map (abs_request E1) rs1) V = fold ref_handle (map (abs_request E) rs1) V" for V
    by (simp only:)
  moreover have "aside (set (pending (rs @ rs1))) (en_book E) (en_book E2)"
    using assms aside_trans by (auto simp: served_def pending_app)
  ultimately show ?thesis using assms by (auto simp: served_def add.assoc)
qed

lemma served_ctx: "md_ok c \<Longrightarrow> handled (set_ctx c E') = handled E' \<Longrightarrow>
    served rs rs' n E E' \<Longrightarrow> served rs rs' n E (set_ctx c E')"
proof -
  have "abs_request (set_ctx c E') r = abs_request E' r" for r
    by (auto simp: abs_request_def set_ctx_def split: order_request.splits option.splits)
  moreover have "bk_shutdown (en_book (set_ctx c E')) = bk_shutdown (en_book E')" by (simp add: set_ctx_def)
  ultimately show "md_ok c \<Longrightarrow> handled (set_ctx c E') = handled E' \<Longrightarrow>
    served rs rs' n E E' \<Longrightarrow> served rs rs' n E (set_ctx c E')"
    by (simp add: served_def ready_def)
qed

lemma abs_unchanged:
  assumes "\<forall>b\<in>set (pending rs). ord (en_book E') b = ord (en_book E) b" "r \<in> set rs"
  shows "abs_request E' r = abs_request E r"
proof -
  have "a \<in> set (pending rs)" if "NEW_ORDER (Some a) \<in> set rs" for a
    using that by (induction rs rule: pending.induct) auto
  then show ?thesis
    using assms by (auto simp: abs_request_def split: order_request.splits option.splits)
qed

lemma lookup_ref_ids:
  assumes "ob_consistent B"
  shows "map_of (bk_lookup B) i \<noteq> None \<longleftrightarrow> i \<in> ref_ids (view B)"
  using lookup_view [of B i] assms by (auto simp: ref_ids_def ob_consistent_def)

text \<open>
  One request at a time: with room in the levels, every pending request returns, is served as
  the reference serves it, and has the stated outcome.
\<close>

lemma handle_new_served:
  assumes rd: "ready (NEW_ORDER (Some a) # rs) E" and up: "\<not> bk_shutdown (en_book E)"
    and bd: "book_bound n (en_book E)" "n \<le> 2 ^ 32 - 2"
  shows "\<exists>E'. process_new_order (Some a) E = Some E' \<and> served [NEW_ORDER (Some a)] rs n E E' \<and> outcome E E'"
proof -
  let ?B = "en_book E"
  have ok: "ob_consistent ?B" "fresh a ?B" "a \<notin> set (pending rs)"
    and others: "\<And>b. b \<in> set (pending rs) \<Longrightarrow> fresh b ?B" using rd by (auto simp: ready_def)
  have room: "book_room ?B" unfolding book_room_def using bd by (rule book_bound_mono)
  have hd: "handled E' = handled E + 1" if "outcome E E'" for E' using that by (simp add: outcome_def)
  have err: "add_error (Some a) ?B = None \<longleftrightarrow>
      \<not> (entry_qty (entry_of (ord ?B a)) = 0 \<or> fst (entry_of (ord ?B a)) \<in> ref_ids (view ?B))"
    using up lookup_ref_ids [OF ok(1), of "o_id (ord ?B a)"]
    by (auto simp: add_error_def entry_of_def unat_eq_0)
  from ok(1,2) room show ?thesis
  proof (cases rule: add_order_cases)
    case (rejected e)
    from new_order_rejected [OF rd rejected(2)] obtain E' where
      E': "process_new_order (Some a) E = Some E'" "ready rs E'" "outcome E E'" "book_bound n (en_book E')"
        "view (en_book E') = view ?B" "\<forall>x. x \<noteq> a \<longrightarrow> ord (en_book E') x = ord ?B x"
        "\<not> bk_shutdown (en_book E')" "aside {a} ?B (en_book E')"
      using bd(1) up by blast
    have "\<forall>b\<in>set (pending rs). ord (en_book E') b = ord ?B b" using E'(6) ok(3) by metis
    from abs_unchanged [OF this] have "served [NEW_ORDER (Some a)] rs n E E'"
      using E' err rejected(1) hd [OF E'(3)] book_bound_mono [OF E'(4), of "Suc n"]
      by (auto simp: served_def abs_request_def)
    with E' show ?thesis by blast
  next
    case (accepted fs q B')
    from new_order_accepted [OF rd accepted(2-4)] obtain E' c where
      E': "process_new_order (Some a) E = Some E'" "ready rs E'" "outcome E E'" "en_book E' = B'\<lparr>bk_ctx := c\<rparr>"
      by blast
    have "b \<noteq> a \<and> b \<notin> live ?B" if "b \<in> set (pending rs)" for b
      using ok(3) others [OF that] that by (auto simp: fresh_def)
    then have "\<forall>b\<in>set (pending rs). ord (en_book E') b = ord ?B b"
      using accepted(3) E'(4) by (simp add: added_def)
    from abs_unchanged [OF this] have "served [NEW_ORDER (Some a)] rs n E E'"
      using E' err accepted hd [OF E'(3)] bd(1) up added_aside [OF accepted(3)]
      by (auto simp: served_def abs_request_def added_def)
    with E' show ?thesis by blast
  qed
qed


lemma ref_cancel_absent: "i \<notin> ref_ids V \<Longrightarrow> ref_cancel i V = V"
proof -
  assume "i \<notin> ref_ids V"
  then have "filter (\<lambda>e. fst e \<noteq> i) (V d) = V d" for d
    by (cases d) (auto simp: ref_ids_def intro!: filter_True)
  then show ?thesis by (auto simp: ref_cancel_def)
qed

lemma handle_cancel_served:
  assumes rd: "ready (CANCEL_ORDER i w # rs) E" and up: "\<not> bk_shutdown (en_book E)"
    and bd: "book_bound n (en_book E)"
  shows "served [CANCEL_ORDER i w] rs n E (process_cancel i w E) \<and> outcome E (process_cancel i w E)"
proof -
  let ?B = "en_book E"
  have ok: "ob_consistent ?B" and others: "\<And>b. b \<in> set (pending rs) \<Longrightarrow> b \<notin> live ?B"
    using rd by (auto simp: ready_def fresh_def)
  have hd: "handled E' = handled E + 1" if "outcome E E'" for E' using that by (simp add: outcome_def)
  show ?thesis
  proof (cases "map_of (bk_lookup ?B) i")
    case None
    obtain c where c: "process_cancel i w E = set_ctx c E" "ready rs (set_ctx c E)" "outcome E (set_ctx c E)"
      using cancel_unknown [OF rd] None by blast
    have "ref_cancel i (view ?B) = view ?B"
      using lookup_ref_ids [OF ok, of i] None by (intro ref_cancel_absent) simp
    moreover have "abs_request (set_ctx c E) r = abs_request E r" for r
      by (auto simp: abs_request_def set_ctx_def split: order_request.splits option.splits)
    moreover have "bk_shutdown (en_book (set_ctx c E)) = bk_shutdown ?B" by (simp add: set_ctx_def)
    ultimately show ?thesis
      using c hd [OF c(3)] up book_bound_mono [OF bd, of "Suc n"] by (simp add: served_def abs_request_def)
  next
    case (Some a)
    note k = cancel_known [OF rd up Some]
    have "\<forall>b\<in>set (pending rs). ord (en_book (process_cancel i w E)) b = ord ?B b" using k others by blast
    from abs_unchanged [OF this] show ?thesis
      using k hd bd book_bound_mono [of n _ "Suc n"] by (auto simp: served_def abs_request_def)
  qed
qed

lemma handle_served:
  assumes "ready (r # rs) E" "r \<noteq> NEW_ORDER None" "\<not> bk_shutdown (en_book E)"
    and "book_bound n (en_book E)" "n \<le> 2 ^ 32 - 2"
  shows "\<exists>E'. handle_request r E = Some E' \<and> served [r] rs n E E' \<and> outcome E E'"
proof (cases r)
  case (NEW_ORDER optr)
  with assms(2) obtain a where "r = NEW_ORDER (Some a)" by auto
  with handle_new_served [of a rs E n] assms show ?thesis by (simp add: handle_request_def)
next
  case (CANCEL_ORDER i w)
  with handle_cancel_served [of i w rs E n] assms show ?thesis by (simp add: handle_request_def)
qed

fun handle_all :: "order_request list \<Rightarrow> engine \<Rightarrow> engine option" where
  "handle_all [] E = Some E"
| "handle_all (r # rs) E = Option.bind (handle_request r E) (handle_all rs)"

lemma handle_all_input:
  "handle_all rs (E\<lparr>en_input := q\<rparr>) = map_option (\<lambda>E. E\<lparr>en_input := q\<rparr>) (handle_all rs E)"
  by (induction rs arbitrary: E) (auto simp: handle_input split: bind_splits)

lemma handle_all_served:
  assumes "ready (rs @ rs') E" "NEW_ORDER None \<notin> set rs" "\<not> bk_shutdown (en_book E)"
    and "book_bound n (en_book E)" "n + length rs \<le> 2 ^ 32 - 1"
  shows "\<exists>E'. handle_all rs E = Some E' \<and> served rs rs' n E E' \<and>
     ls_total_processed (en_stats E') = ls_total_processed (en_stats E)"
  using assms
proof (induction rs arbitrary: n E)
  case Nil
  then show ?case by (simp add: served_def)
next
  case (Cons r rs)
  have "n \<le> 2 ^ 32 - 2" using Cons.prems(5) by simp
  with handle_served [of r "rs @ rs'" E n] Cons.prems obtain E1 where
    E1: "handle_request r E = Some E1" "served [r] (rs @ rs') n E E1" "outcome E E1" by auto
  have "\<exists>E'. handle_all rs E1 = Some E' \<and> served rs rs' (Suc n) E1 E' \<and>
      ls_total_processed (en_stats E') = ls_total_processed (en_stats E1)"
    using E1(2) Cons.prems(2,5) by (intro Cons.IH) (simp_all add: served_def)
  with E1 served_trans [OF E1(2)] show ?case by (auto simp: outcome_def)
qed

section \<open>Batches\<close>

lemma drain_loop_handles:
  assumes "sq_inv (en_input E)" "handle_all (take n (sq_contents (en_input E))) E = Some E1"
  shows "\<exists>q. drain_loop n E = Some (min n (length (sq_contents (en_input E))), E1\<lparr>en_input := q\<rparr>) \<and>
           sq_inv q \<and> sq_contents q = drop n (sq_contents (en_input E))"
  using assms
proof (induction n arbitrary: E E1)
  case 0
  then show ?case by (intro exI [of _ "en_input E"]) simp
next
  case (Suc n)
  show ?case
  proof (cases "sq_contents (en_input E)")
    case Nil
    with sq.pop_nil [OF Suc.prems(1)] Suc.prems(2) show ?thesis by (auto simp del: length_sq_contents)
  next
    case (Cons r rs)
    from sq.pop_cons [OF Suc.prems(1) Cons] obtain q where
      q: "sq_pop (en_input E) = (Some r, q)" "sq_inv q" "sq_contents q = rs" by blast
    obtain E2 where E2: "handle_request r E = Some E2" "handle_all (take n rs) E2 = Some E1"
      using Suc.prems(2) Cons by (auto split: bind_splits)
    let ?E2 = "E2\<lparr>en_input := q\<rparr>"
    have "handle_all (take n (sq_contents (en_input ?E2))) ?E2 = Some (E1\<lparr>en_input := q\<rparr>)"
      using E2(2) q(3) by (simp add: handle_all_input)
    from Suc.IH [OF _ this] q(2,3) obtain q' where
      "drain_loop n ?E2 = Some (min n (length rs), E1\<lparr>en_input := q'\<rparr>)" "sq_inv q'" "sq_contents q' = drop n rs"
      by (auto simp del: length_sq_contents)
    then show ?thesis
      using q(1) E2(1) Cons by (intro exI [of _ q']) (simp add: handle_input del: length_sq_contents)
  qed
qed

text \<open>
  A batch: the oldest requests in the ring, at most \<open>BATCH_SIZE\<close> of them, are served and
  counted.
\<close>

lemma drain_batch_serves:
  assumes q: "sq_inv (en_input E)" and rs: "sq_contents (en_input E) = rs" and rd: "ready rs E"
    and "NEW_ORDER None \<notin> set rs" "\<not> bk_shutdown (en_book E)"
    and "book_bound n (en_book E)" "n + length rs \<le> 2 ^ 32 - 1"
  shows "\<exists>E'. drain_batch E = Some (min BATCH_SIZE (length rs), E') \<and>
     served (take BATCH_SIZE rs) (drop BATCH_SIZE rs) n E E' \<and>
     sq_inv (en_input E') \<and> sq_contents (en_input E') = drop BATCH_SIZE rs \<and>
     ls_total_processed (en_stats E') = ls_total_processed (en_stats E) + of_nat (min BATCH_SIZE (length rs))"
proof -
  have "NEW_ORDER None \<notin> set (take BATCH_SIZE rs)" using assms(4) by (meson in_set_takeD)
  moreover have "n + length (take BATCH_SIZE rs) \<le> 2 ^ 32 - 1" using assms(7) by simp
  ultimately obtain E1 where E1: "handle_all (take BATCH_SIZE rs) E = Some E1"
    "served (take BATCH_SIZE rs) (drop BATCH_SIZE rs) n E E1"
    "ls_total_processed (en_stats E1) = ls_total_processed (en_stats E)"
    using handle_all_served [of "take BATCH_SIZE rs" "drop BATCH_SIZE rs" E n] assms(3,5,6)
    unfolding append_take_drop_id by blast
  obtain p where p: "drain_loop BATCH_SIZE E = Some (min BATCH_SIZE (length rs), E1\<lparr>en_input := p\<rparr>)"
    "sq_inv p" "sq_contents p = drop BATCH_SIZE rs"
    using drain_loop_handles [OF q, of BATCH_SIZE E1] E1(1) rs by auto
  define c where "c = upd_stats (\<lambda>s. s\<lparr>ls_total_processed := ls_total_processed s + of_nat (min BATCH_SIZE (length rs))\<rparr>) (en_ctx E1)"
  have md: "md_ok c" "handled (set_ctx c E1) = handled E1"
    using E1(2) by (simp_all add: c_def served_def ready_def md_ok_def handled_def upd_stats_def)
  have "drain_batch E = Some (min BATCH_SIZE (length rs), (set_ctx c E1)\<lparr>en_input := p\<rparr>)"
    by (simp add: drain_batch_def p(1) count_stats_def c_def)
  moreover have "served (take BATCH_SIZE rs) (drop BATCH_SIZE rs) n E ((set_ctx c E1)\<lparr>en_input := p\<rparr>)"
    using served_ctx [OF md E1(2)]
    by (simp add: served_def ready_def handled_def abs_request_def split: order_request.splits option.splits)
  moreover have "ls_total_processed (en_stats ((set_ctx c E1)\<lparr>en_input := p\<rparr>)) =
      ls_total_processed (en_stats E) + of_nat (min BATCH_SIZE (length rs))"
    using E1(3) by (simp add: c_def upd_stats_def)
  ultimately show ?thesis using p by (intro exI [of _ "(set_ctx c E1)\<lparr>en_input := p\<rparr>"]) simp
qed


lemma drain_rest_serves:
  assumes "sq_inv (en_input E)" "sq_contents (en_input E) = rs" "ready rs E"
    and "NEW_ORDER None \<notin> set rs" "\<not> bk_shutdown (en_book E)"
    and "book_bound n (en_book E)" "n + length rs \<le> 2 ^ 32 - 1"
  shows "\<exists>E'. drain_rest E = Some E' \<and> served rs [] n E E' \<and>
     sq_inv (en_input E') \<and> sq_contents (en_input E') = [] \<and>
     ls_total_processed (en_stats E') = ls_total_processed (en_stats E) + of_nat (length rs)"
  using assms
proof (induction "length rs" arbitrary: rs n E rule: less_induct)
  case less
  let ?k = "min BATCH_SIZE (length rs)"
  obtain E1 where E1: "drain_batch E = Some (?k, E1)" "served (take BATCH_SIZE rs) (drop BATCH_SIZE rs) n E E1"
    "sq_inv (en_input E1)" "sq_contents (en_input E1) = drop BATCH_SIZE rs"
    "ls_total_processed (en_stats E1) = ls_total_processed (en_stats E) + of_nat ?k"
    using drain_batch_serves [OF less.prems] by blast
  show ?case
  proof (cases "rs = []")
    case True
    with E1 show ?thesis by (subst drain_rest.simps) (auto simp: BATCH_SIZE_def)
  next
    case False
    then have k: "0 < ?k" "length (drop BATCH_SIZE rs) < length rs" by (simp_all add: BATCH_SIZE_def)
    have "NEW_ORDER None \<notin> set (drop BATCH_SIZE rs)" using less.prems(4) by (meson in_set_dropD)
    moreover have "ready (drop BATCH_SIZE rs) E1" "\<not> bk_shutdown (en_book E1)"
      "book_bound (n + length (take BATCH_SIZE rs)) (en_book E1)"
      using E1(2) by (simp_all add: served_def)
    moreover have "n + length (take BATCH_SIZE rs) + length (drop BATCH_SIZE rs) \<le> 2 ^ 32 - 1"
      using less.prems(7) by simp
    ultimately obtain E' where E': "drain_rest E1 = Some E'"
      "served (drop BATCH_SIZE rs) [] (n + length (take BATCH_SIZE rs)) E1 E'"
      "sq_inv (en_input E')" "sq_contents (en_input E') = []"
      "ls_total_processed (en_stats E') = ls_total_processed (en_stats E1) + of_nat (length (drop BATCH_SIZE rs))"
      using less.hyps [OF k(2) E1(3,4)] by blast
    have "served rs [] n E E'"
      using served_trans [of "take BATCH_SIZE rs" "drop BATCH_SIZE rs" "[]" n E E1 E'] E1(2) E'(2) by simp
    moreover have "?k + length (drop BATCH_SIZE rs) = length rs" by simp
    then have "ls_total_processed (en_stats E') = ls_total_processed (en_stats E) + of_nat (length rs)"
      using E1(5) E'(5) by (metis of_nat_add add.assoc)
    moreover have "?k \<noteq> 0" using k(1) by linarith
    then have "drain_rest E = Some E'"
      by (subst drain_rest.simps) (simp only: E1(1) E'(1) option.case prod.case if_False)
    ultimately show ?thesis using E' by blast
  qed
qed

section \<open>Submission\<close>

lemma en_new_ready:
  assumes "mp_inv P"
  shows "ready [] (en_new symb P clk)" "sq_inv (en_input (en_new symb P clk))"
    "sq_contents (en_input (en_new symb P clk)) = []" "book_bound 0 (en_book (en_new symb P clk))"
    "\<not> bk_shutdown (en_book (en_new symb P clk))" "view (en_book (en_new symb P clk)) = (\<lambda>_. [])"
proof -
  show "ready [] (en_new symb P clk)"
    using ob_new_consistent [OF assms] by (simp add: ready_def en_new_def) (simp add: ob_new_def md_ok_def)
  show "sq_inv (en_input (en_new symb P clk))" "sq_contents (en_input (en_new symb P clk)) = []"
    using sq_inv_new [of QUEUE_CAPACITY "NEW_ORDER None"] by (simp_all add: en_new_def QUEUE_CAPACITY_def)
  have "lad d (en_book (en_new symb P clk)) = []" for d by (simp add: en_new_def ob_new_def lad_def)
  then show "book_bound 0 (en_book (en_new symb P clk))" "view (en_book (en_new symb P clk)) = (\<lambda>_. [])"
    by (simp_all add: book_bound_def view_def side_view_def)
qed (simp add: en_new_def ob_new_def)

text \<open>
  What the submitter sees: a request is refused only when the ring is full; an accepted one is
  behind the others, and the engine stays ready if the order is a slot that it does not hold.
\<close>

lemma submit_request_spec:
  assumes q: "sq_inv (en_input E)" and rd: "ready (sq_contents (en_input E)) E"
    and new: "\<forall>a. r = NEW_ORDER (Some a) \<longrightarrow> fresh a (en_book E) \<and> a \<notin> set (pending (sq_contents (en_input E)))"
    and sub: "submit_request r E = (b, E')"
  shows "sq_inv (en_input E') \<and> b = (length (sq_contents (en_input E)) < sq_cap (en_input E)) \<and>
    sq_contents (en_input E') = (if b then sq_contents (en_input E) @ [r] else sq_contents (en_input E)) \<and>
    ready (sq_contents (en_input E')) E' \<and> view (en_book E') = view (en_book E)"
proof -
  obtain q' where p: "sq_push r (en_input E) = (b, q')"
    using sub by (auto simp: submit_request_def Let_def split: prod.splits if_splits)
  note sp = sq.push_spec [OF q p]
  have pend: "pending (xs @ [r]) = pending xs @ pending [r]" for xs by (rule pending_app)
  have ready': "ready rs (E\<lparr>en_input := q'\<rparr>) = ready rs E" for rs by (simp add: ready_def)
  show ?thesis
  proof (cases b)
    case True
    then have "E' = E\<lparr>en_input := q'\<rparr>" using sub p by (simp add: submit_request_def)
    moreover have "pending [r] = [] \<or> (\<exists>a. r = NEW_ORDER (Some a) \<and> pending [r] = [a])"
      by (cases "[r]" rule: pending.cases) auto
    then have "ready (sq_contents (en_input E) @ [r]) E"
      using rd new by (auto simp: ready_def pend)
    ultimately show ?thesis using sp True ready' by simp
  next
    case False
    then obtain c where c: "E' = set_ctx c (E\<lparr>en_input := q'\<rparr>)" "ec_md c = ec_md (en_ctx E)"
      using sub p by (auto simp: submit_request_def count_stats_def upd_stats_def)
    then have "ready rs E' = ready rs E" for rs by (simp add: ready_def md_ok_def)
    then show ?thesis using sp False rd c by simp
  qed
qed

definition ex_engine :: "Quantity \<Rightarrow> order_request list \<Rightarrow> engine" where
  "ex_engine n rs = (en_start (en_new [65] (ex_pool [ex_order 1 SELL LIMIT n 100, ex_order 2 BUY LIMIT 8 101]) of_nat))
     \<lparr>en_input := snd (push_all sq_push rs (sq_new (NEW_ORDER None) QUEUE_CAPACITY))\<rparr>"

lemma ex_engine_facts:
  assumes "length rs \<le> 100" "distinct (pending rs)" "set (pending rs) \<subseteq> {0, 1}"
  shows "en_running (ex_engine n rs)" "sq_inv (en_input (ex_engine n rs))"
    "sq_contents (en_input (ex_engine n rs)) = rs" "ready rs (ex_engine n rs)"
    "\<not> bk_shutdown (en_book (ex_engine n rs))" "book_bound 0 (en_book (ex_engine n rs))"
    "view (en_book (ex_engine n rs)) = (\<lambda>_. [])" "ord (en_book (ex_engine n rs)) 0 = ex_order 1 SELL LIMIT n 100"
    "ord (en_book (ex_engine n rs)) 1 = ex_order 2 BUY LIMIT 8 101"
proof -
  let ?os = "[ex_order 1 SELL LIMIT n 100, ex_order 2 BUY LIMIT 8 101]"
  let ?E = "en_new [65] (ex_pool ?os) of_nat"
  have P: "mp_inv (ex_pool ?os)" "mp_free (ex_pool ?os) = [2, 3]"
    "mp_pool (ex_pool ?os) = ?os @ [default_order, default_order]"
    using ex_pool_inv [of ?os] by simp_all
  note new = en_new_ready [OF P(1), of "[65]" of_nat]
  have bk: "en_book (ex_engine n rs) = en_book ?E" by (simp add: ex_engine_def en_start_def en_new_def)
  have q0: "sq_inv (sq_new (NEW_ORDER None) QUEUE_CAPACITY)" "sq_contents (sq_new (NEW_ORDER None) QUEUE_CAPACITY) = []"
    "65536 \<le> sq_cap (sq_new (NEW_ORDER None) QUEUE_CAPACITY)"
    using sq_inv_new [of QUEUE_CAPACITY "NEW_ORDER None"] by (simp_all add: QUEUE_CAPACITY_def)
  show "sq_inv (en_input (ex_engine n rs))" "sq_contents (en_input (ex_engine n rs)) = rs"
    using sq.push_all_spec [OF q0(1), of rs] q0(2,3) assms(1) by (auto simp: ex_engine_def)
  have pool: "bk_pool (en_book ?E) = ex_pool ?os" "live (en_book ?E) = {}"
    by (simp_all add: en_new_def ob_new_def live_def)
  have "fresh a (en_book ?E)" if "a \<in> set (pending rs)" for a
    using that assms(3) by (auto simp: fresh_def pool P)
  then show "ready rs (ex_engine n rs)" using new(1) assms(2) by (simp add: ready_def bk)
  show "ord (en_book (ex_engine n rs)) 0 = ex_order 1 SELL LIMIT n 100"
    "ord (en_book (ex_engine n rs)) 1 = ex_order 2 BUY LIMIT 8 101"
    by (simp_all add: bk ord_def pool P)
  show "en_running (ex_engine n rs)" by (simp add: ex_engine_def en_start_def en_new_def)
  show "\<not> bk_shutdown (en_book (ex_engine n rs))" "book_bound 0 (en_book (ex_engine n rs))"
    "view (en_book (ex_engine n rs)) = (\<lambda>_. [])"
    using new(4-6) unfolding bk by simp_all
qed

section \<open>Properties\<close>

text \<open>
  Claim C6. Stopping an engine serves everything that was submitted. The worker's last loop
  ends with an empty ring, and the two sides of the book are what the reference book makes of
  the pending requests taken one by one in the order of their submission; each request is
  counted once as accepted or rejected, and the published counters are those of the worker.
\<close>

theorem engine_stop_serves_all_in_order:
  assumes "en_running E" "sq_inv (en_input E)" "sq_contents (en_input E) = rs" "ready rs E"
    and "NEW_ORDER None \<notin> set rs" "\<not> bk_shutdown (en_book E)"
    and "book_bound n (en_book E)" "n + length rs \<le> 2 ^ 32 - 1"
  shows "\<exists>E'. en_stop E = Some E' \<and> sq_contents (en_input E') = [] \<and>
     view (en_book E') = fold ref_handle (map (abs_request E) rs) (view (en_book E)) \<and>
     handled E' = handled E + of_nat (length rs) \<and>
     ls_total_processed (en_stats E') = ls_total_processed (en_stats E) + of_nat (length rs) \<and>
     ob_consistent (en_book E') \<and>
     es_orders_accepted (get_stats E') = ls_orders_accepted (en_stats E') \<and>
     es_orders_rejected (get_stats E') = ls_orders_rejected (en_stats E')"
proof -
  let ?E = "E\<lparr>en_running := False\<rparr>"
  have "ready rs ?E" using assms(4) by (simp add: ready_def)
  then obtain E' where E': "drain_rest ?E = Some E'" "served rs [] n ?E E'" "sq_contents (en_input E') = []"
    "ls_total_processed (en_stats E') = ls_total_processed (en_stats ?E) + of_nat (length rs)"
    using drain_rest_serves [of ?E rs n] assms(2,3,5-8) by auto
  let ?F = "flush_stats E'"
  have "en_stop E = Some ?F" using assms(1) E'(1) by (simp add: en_stop_def run_exit_def)
  moreover have "en_book ?F = en_book E'" "en_input ?F = en_input E'" by (simp_all add: flush_stats_def)
  moreover have "abs_request ?E = abs_request E"
    by (auto simp: abs_request_def fun_eq_iff split: order_request.splits option.splits)
  moreover have "handled ?E = handled E" by (simp add: handled_def)
  ultimately show ?thesis
    using E' by (intro exI [of _ ?F]) (simp add: served_def ready_def handled_def get_stats_def, simp add: flush_stats_def)
qed


theorem engine_stop_serves_all_in_order_witness:
  "\<exists>E'. en_stop (ex_engine 5 [NEW_ORDER (Some 0), NEW_ORDER (Some 1), CANCEL_ORDER 1 []]) = Some E' \<and>
     view (en_book E') = (\<lambda>d. if d then [(2, 101, 3)] else [])"
proof -
  let ?rs = "[NEW_ORDER (Some 0), NEW_ORDER (Some 1), CANCEL_ORDER 1 []]"
  note f = ex_engine_facts [of ?rs 5, simplified]
  have "fold ref_handle (map (abs_request (ex_engine 5 ?rs)) ?rs) (\<lambda>_. []) = (\<lambda>d. if d then [(2, 101, 3)] else [])"
    by (simp add: abs_request_def f ref_ids_def ref_add_def insert_ref_def ref_accepts_def ref_cancel_def fun_eq_iff)
  with engine_stop_serves_all_in_order [OF f(1-4) _ f(5,6)] f(7) show ?thesis by auto
qed




text \<open>
  An order that the book rejects leaves the book as it was; the engine marks it as
  rejected and gives its slot back to the pool, where it is the next one handed out.
\<close>

theorem engine_rejection_returns_the_slot:
  assumes "ready (NEW_ORDER (Some a) # rs) E" "book_room (en_book E)"
    and "add_error (Some a) (en_book E) = Some e"
  shows "\<exists>E'. process_new_order (Some a) E = Some E' \<and> view (en_book E') = view (en_book E) \<and>
     mp_free (bk_pool (en_book E')) = a # mp_free (bk_pool (en_book E)) \<and>
     o_status (ord (en_book E') a) = REJECTED \<and>
     fst (mp_allocate (bk_pool (en_book E'))) = Some a"
proof -
  have ok: "ob_consistent (en_book E)" "fresh a (en_book E)" using assms(1) by (simp_all add: ready_def)
  from ok assms(2) have "add_order (Some a) (en_book E) = Some (Inl e, en_book E)"
    by (cases rule: add_order_cases) (use assms(3) in auto)
  from new_order_rejected [OF assms(1) this] obtain E' where
    E': "process_new_order (Some a) E = Some E'" "ready rs E'" "view (en_book E') = view (en_book E)"
      "mp_free (bk_pool (en_book E')) = a # mp_free (bk_pool (en_book E))"
      "ord (en_book E') a = (ord (en_book E) a)\<lparr>o_status := REJECTED\<rparr>" by blast
  then have "mp_inv (bk_pool (en_book E'))" by (simp add: ready_def ob_consistent_def book_inv_def)
  from mp_allocate_some [OF this E'(4)] have "fst (mp_allocate (bk_pool (en_book E'))) = Some a" by auto
  with E' show ?thesis by auto
qed

theorem engine_rejection_returns_the_slot_witness:
  "\<exists>E'. process_new_order (Some 0) (ex_engine 0 [NEW_ORDER (Some 0)]) = Some E' \<and>
     fst (mp_allocate (bk_pool (en_book E'))) = Some 0"
proof -
  note f = ex_engine_facts [of "[NEW_ORDER (Some 0)]" 0, simplified]
  have "book_room (en_book (ex_engine 0 [NEW_ORDER (Some 0)]))"
    unfolding book_room_def using f(6) by (rule book_bound_mono) simp
  moreover have "add_error (Some 0) (en_book (ex_engine 0 [NEW_ORDER (Some 0)])) = Some ORDER_INVALID"
    by (simp add: add_error_def f)
  ultimately show ?thesis using engine_rejection_returns_the_slot [OF f(4)] by blast
qed

text \<open>
  The engine cancels for anyone. The header promises that the client of a cancel
  request is checked against the order; the engine removes the order whoever asks.
\<close>

theorem engine_cancel_ignores_the_client:
  assumes "ready (CANCEL_ORDER i w # rs) E" "\<not> bk_shutdown (en_book E)"
    and "map_of (bk_lookup (en_book E)) i = Some a" "o_client (ord (en_book E) a) \<noteq> w"
  shows "i \<in> ref_ids (view (en_book E)) \<and>
     view (en_book (process_cancel i w E)) = ref_cancel i (view (en_book E)) \<and>
     i \<notin> ref_ids (view (en_book (process_cancel i w E)))"
proof -
  have "ob_consistent (en_book E)" using assms(1) by (simp add: ready_def)
  then have "i \<in> ref_ids (view (en_book E))" using lookup_ref_ids assms(3) by blast
  moreover have "i \<notin> ref_ids (ref_cancel i V)" for V by (auto simp: ref_ids_def ref_cancel_def)
  ultimately show ?thesis using cancel_known [OF assms(1-3)] by simp
qed


theorem engine_cancel_ignores_the_client_witness:
  "\<exists>E a w. map_of (bk_lookup (en_book E)) 1 = Some a \<and> o_client (ord (en_book E) a) \<noteq> w \<and>
     1 \<notin> ref_ids (view (en_book (process_cancel 1 w E)))"
proof -
  let ?E = "ex_engine 5 [NEW_ORDER (Some 0)]"
  note f = ex_engine_facts [of "[NEW_ORDER (Some 0)]" 5, simplified]
  obtain E where "served [NEW_ORDER (Some 0)] [] 0 ?E E"
    using handle_served [OF f(4) _ f(5,6)] by auto
  then have E: "ready [] E" "\<not> bk_shutdown (en_book E)" "1 \<in> ref_ids (view (en_book E))"
    by (simp_all add: served_def abs_request_def f ref_ids_def ref_add_def insert_ref_def)
  then obtain a where a: "map_of (bk_lookup (en_book E)) 1 = Some a"
    using lookup_ref_ids [of "en_book E" 1] by (auto simp: ready_def)
  obtain w where w: "o_client (ord (en_book E) a) \<noteq> w" by (metis list.distinct(1))
  have "ready [CANCEL_ORDER 1 w] E" using E(1) by (simp add: ready_def)
  from engine_cancel_ignores_the_client [OF this E(2) a w] a w show ?thesis by blast
qed

end
