(* ===== verification/RTES_Risk_Props.thy ===== *)
theory RTES_Risk_Props
  imports RTES_Risk RTES_Engine_Props
begin

text \<open>
  The properties of the risk manager: what approval and rejection guarantee, the accounting of
  exposure and its wrap-around, the rate limit, the price collar, and the routing of cancels.
\<close>

section \<open>What a client's state shows\<close>

definition exposure :: "risk \<Rightarrow> byte list \<Rightarrow> u64" where
  "exposure R k = (case map_of (rm_clients R) k of None \<Rightarrow> 0 | Some c \<Rightarrow> cr_notional c)"

definition active :: "risk \<Rightarrow> byte list \<Rightarrow> OrderID set" where
  "active R k = (case map_of (rm_clients R) k of None \<Rightarrow> {} | Some c \<Rightarrow> cr_active_orders c)"

text \<open>Two states that differ at most in counters, clocks and rate windows.\<close>

definition same_accounts :: "risk \<Rightarrow> risk \<Rightarrow> bool" where
  "same_accounts R R' \<longleftrightarrow>
     rm_config R' = rm_config R \<and> rm_max_notional_scaled R' = rm_max_notional_scaled R \<and>
     rm_symbol_configs R' = rm_symbol_configs R \<and> rm_matching_engines R' = rm_matching_engines R \<and>
     rm_reference_prices R' = rm_reference_prices R \<and> rm_order_symbol R' = rm_order_symbol R \<and>
     exposure R' = exposure R \<and> active R' = active R"

lemma put_client_frame [simp, frame]:
  "rm_config (put_client k c R) = rm_config R" "rm_order_symbol (put_client k c R) = rm_order_symbol R"
  "rm_max_notional_scaled (put_client k c R) = rm_max_notional_scaled R"
  "rm_symbol_configs (put_client k c R) = rm_symbol_configs R"
  "rm_matching_engines (put_client k c R) = rm_matching_engines R"
  "rm_reference_prices (put_client k c R) = rm_reference_prices R"
  "rm_input (put_client k c R) = rm_input R" "rm_local (put_client k c R) = rm_local R"
  "exposure (put_client k c R) = (exposure R)(k := cr_notional c)"
  "active (put_client k c R) = (active R)(k := cr_active_orders c)"
  "map_of (rm_clients (put_client k c R)) = (map_of (rm_clients R))(k \<mapsto> c)"
  by (auto simp: put_client_def exposure_def active_def update_conv' fun_eq_iff)

lemma count_risk_frame [simp, frame]:
  "rm_config (count_risk f R) = rm_config R" "rm_order_symbol (count_risk f R) = rm_order_symbol R"
  "rm_max_notional_scaled (count_risk f R) = rm_max_notional_scaled R"
  "rm_symbol_configs (count_risk f R) = rm_symbol_configs R"
  "rm_matching_engines (count_risk f R) = rm_matching_engines R"
  "rm_reference_prices (count_risk f R) = rm_reference_prices R"
  "rm_input (count_risk f R) = rm_input R" "rm_clients (count_risk f R) = rm_clients R"
  "exposure (count_risk f R) = exposure R" "active (count_risk f R) = active R"
  "rm_local (count_risk f R) = f (rm_local R)"
  by (simp_all add: count_risk_def exposure_def active_def fun_eq_iff)

lemma ticks_frame [simp, frame]:
  "exposure (R\<lparr>rm_ticks := n\<rparr>) = exposure R" "active (R\<lparr>rm_ticks := n\<rparr>) = active R"
  "exposure (R\<lparr>rm_order_symbol := m\<rparr>) = exposure R" "active (R\<lparr>rm_order_symbol := m\<rparr>) = active R"
  "exposure (R\<lparr>rm_input := q\<rparr>) = exposure R" "active (R\<lparr>rm_input := q\<rparr>) = active R"
  by (simp_all add: exposure_def active_def fun_eq_iff)

lemma get_or_create_spec:
  assumes "get_or_create_client k R = (c, R1)"
  shows "same_accounts R R1" "cr_notional c = exposure R k" "cr_active_orders c = active R k"
    "rm_local R1 = rm_local R" "rm_input R1 = rm_input R"
proof -
  have "same_accounts R R1 \<and> cr_notional c = exposure R k \<and> cr_active_orders c = active R k \<and>
    rm_local R1 = rm_local R \<and> rm_input R1 = rm_input R"
  proof (cases "map_of (rm_clients R) k")
    case None
    then have zero: "exposure R k = 0" "active R k = {}" by (simp_all add: exposure_def active_def)
    then have "(exposure R)(k := 0) = exposure R" "(active R)(k := {}) = active R"
      by (simp_all add: fun_upd_idem)
    with None assms zero show ?thesis
      by (auto simp: get_or_create_client_def now_timestamp_def same_accounts_def Let_def)
  next
    case (Some c1)
    with assms show ?thesis
      by (auto simp: get_or_create_client_def same_accounts_def exposure_def active_def)
  qed
  then show "same_accounts R R1" "cr_notional c = exposure R k" "cr_active_orders c = active R k"
    "rm_local R1 = rm_local R" "rm_input R1 = rm_input R" by blast+
qed

lemma check_rate_limit_spec:
  assumes "check_rate_limit c R = (ok, c', R1)"
  shows "R1 = R\<lparr>rm_ticks := Suc (rm_ticks R)\<rparr>" "cr_notional c' = cr_notional c"
    "cr_active_orders c' = cr_active_orders c"
  using assms by (auto simp: check_rate_limit_def now_timestamp_def Let_def split: if_splits)

text \<open>The client's state after the two steps that every well-formed order goes through.\<close>

lemma client_checked:
  assumes "get_or_create_client k R = (c0, R1)" "check_rate_limit c0 R1 = (ok, c, R2)"
  shows "same_accounts R (put_client k c R2)" "cr_notional c = exposure R k" "cr_active_orders c = active R k"
    "rm_local (put_client k c R2) = rm_local R" "rm_input (put_client k c R2) = rm_input R"
  using get_or_create_spec [OF assms(1)] check_rate_limit_spec [OF assms(2)]
  by (auto simp: same_accounts_def)

lemma w_upd_ord_frame [simp, frame]:
  "w_engines (w_upd_ord p f W) = w_engines W" "w_md (w_upd_ord p f W) = w_md W"
  "p < length (mp_pool (w_pool W)) \<Longrightarrow>
     w_ord (w_upd_ord p f W) q = (if q = p then f (w_ord W p) else w_ord W q)"
  "mp_free (w_pool (w_upd_ord p f W)) = mp_free (w_pool W)"
  by (simp_all add: w_upd_ord_def w_ord_def mp_free_def mp_head_index_def)

lemma track_order_frame [simp, frame]:
  "rm_config (track_order k i n s c R) = rm_config R"
  "rm_max_notional_scaled (track_order k i n s c R) = rm_max_notional_scaled R"
  "rm_symbol_configs (track_order k i n s c R) = rm_symbol_configs R"
  "rm_matching_engines (track_order k i n s c R) = rm_matching_engines R"
  "rm_reference_prices (track_order k i n s c R) = rm_reference_prices R"
  "rm_local (track_order k i n s c R) = rm_local R"
  "exposure (track_order k i n s c R) = (exposure R)(k := cr_notional c + n)"
  "active (track_order k i n s c R) = (active R)(k := insert i (cr_active_orders c))"
  "rm_order_symbol (track_order k i n s c R) = AList.update i s (rm_order_symbol R)"
  by (simp_all add: track_order_def)

lemma untrack_track:
  assumes "i \<notin> cr_active_orders c"
  shows "exposure (untrack_order k i n (track_order k i n s c R)) = (exposure R)(k := cr_notional c)"
    "active (untrack_order k i n (track_order k i n s c R)) = (active R)(k := cr_active_orders c)"
    "rm_order_symbol (untrack_order k i n (track_order k i n s c R)) =
       AList.delete i (AList.update i s (rm_order_symbol R))"
    "rm_config (untrack_order k i n (track_order k i n s c R)) = rm_config R"
    "rm_max_notional_scaled (untrack_order k i n (track_order k i n s c R)) = rm_max_notional_scaled R"
    "rm_symbol_configs (untrack_order k i n (track_order k i n s c R)) = rm_symbol_configs R"
    "rm_matching_engines (untrack_order k i n (track_order k i n s c R)) = rm_matching_engines R"
    "rm_reference_prices (untrack_order k i n (track_order k i n s c R)) = rm_reference_prices R"
    "rm_local (untrack_order k i n (track_order k i n s c R)) = rm_local R"
  using assms by (simp_all add: untrack_order_def track_order_def)


section \<open>The outcomes of a new order\<close>

definition same_setup :: "risk \<Rightarrow> risk \<Rightarrow> bool" where
  "same_setup R R' \<longleftrightarrow>
     rm_config R' = rm_config R \<and> rm_max_notional_scaled R' = rm_max_notional_scaled R \<and>
     rm_symbol_configs R' = rm_symbol_configs R \<and> rm_matching_engines R' = rm_matching_engines R \<and>
     rm_reference_prices R' = rm_reference_prices R"

text \<open>
  \<open>order_rejected\<close>: no exposure, no active order and no ring has changed, and among the
  routes at most that of the order's own id. \<open>order_approved\<close>: every check passed, the
  order is accounted for, and the engine of its symbol has it at the end of its ring.
\<close>

definition rings :: "world \<Rightarrow> order_request list list" where
  "rings W = map (\<lambda>E. sq_contents (en_input E)) (w_engines W)"

definition rings_ok :: "world \<Rightarrow> bool" where
  "rings_ok W \<longleftrightarrow> (\<forall>E\<in>set (w_engines W). sq_inv (en_input E))"

definition order_rejected :: "nat \<Rightarrow> risk \<Rightarrow> world \<Rightarrow> risk \<Rightarrow> world \<Rightarrow> bool" where
  "order_rejected p R W R' W' \<longleftrightarrow>
     same_setup R R' \<and> exposure R' = exposure R \<and> active R' = active R \<and>
     (\<forall>i. i \<noteq> o_id (w_ord W p) \<longrightarrow> map_of (rm_order_symbol R') i = map_of (rm_order_symbol R) i) \<and>
     rings W' = rings W \<and> w_md W' = w_md W \<and>
     w_pool W' = w_pool (w_upd_ord p (\<lambda>x. x\<lparr>o_status := REJECTED\<rparr>) W) \<and>
     rm_local R' = (rm_local R)\<lparr>rs_rejected := rs_rejected (rm_local R) + 1\<rparr>"

definition passes_checks :: "order \<Rightarrow> symbol_config \<Rightarrow> risk \<Rightarrow> bool" where
  "passes_checks x sc R \<longleftrightarrow>
     map_of (rm_symbol_configs R) (cstr (o_symbol x)) = Some sc \<and>
     o_quantity x \<noteq> 0 \<and> o_quantity x \<le> rc_max_order_size (rm_config R) \<and>
     o_id x \<notin> active R (cstr (o_client x)) \<and>
     (rc_price_collar_enabled (rm_config R) \<longrightarrow> check_price_collar_int x sc R) \<and>
     exposure R (cstr (o_client x)) + calculate_notional_int x \<le> rm_max_notional_scaled R"

definition order_approved :: "nat \<Rightarrow> risk \<Rightarrow> world \<Rightarrow> risk \<Rightarrow> world \<Rightarrow> bool" where
  "order_approved p R W R' W' \<longleftrightarrow>
     (let x = w_ord W p; k = cstr (o_client x) in
      same_setup R R' \<and> (\<exists>sc. passes_checks x sc R) \<and>
      exposure R' = (exposure R)(k := exposure R k + calculate_notional_int x) \<and>
      active R' = (active R)(k := insert (o_id x) (active R k)) \<and>
      rm_order_symbol R' = AList.update (o_id x) (o_symbol x) (rm_order_symbol R) \<and>
      (\<exists>e E. map_of (rm_matching_engines R) (cstr (o_symbol x)) = Some e \<and>
         en_submit_order (Some p) (w_engines W ! e) = (True, E) \<and>
         W' = w_upd_ord p (\<lambda>x. x\<lparr>o_status := ACCEPTED\<rparr>) (W\<lparr>w_engines := (w_engines W)[e := E]\<rparr>)) \<and>
      rm_local R' = (rm_local R)\<lparr>rs_approved := rs_approved (rm_local R) + 1\<rparr>)"

lemma submit_request_ring:
  assumes "submit_request r E = (b, E')" "sq_inv (en_input E)"
  shows "sq_inv (en_input E') \<and> sq_cap (en_input E') = sq_cap (en_input E) \<and>
     b = (length (sq_contents (en_input E)) < sq_cap (en_input E)) \<and>
     sq_contents (en_input E') = (if b then sq_contents (en_input E) @ [r] else sq_contents (en_input E))"
proof -
  obtain q where q: "sq_push r (en_input E) = (b, q)" "en_input E' = q"
    using assms(1) by (auto simp: submit_request_def count_stats_def Let_def split: prod.splits if_splits)
  with sq.push_spec [OF assms(2) q(1)] show ?thesis by simp
qed

lemma rings_update:
  assumes "rings_ok W" "en_submit_order (Some p) (w_engines W ! e) = (False, E')"
  shows "rings (W\<lparr>w_engines := (w_engines W)[e := E']\<rparr>) = rings W"
proof (cases "e < length (w_engines W)")
  case True
  then have "sq_contents (en_input E') = sq_contents (en_input (w_engines W ! e))"
    using submit_request_ring [of _ "w_engines W ! e" False E'] assms
    by (auto simp: rings_ok_def en_submit_order_def)
  then show ?thesis
    using True by (simp add: rings_def map_update) (metis list_update_id nth_map)
qed (simp add: rings_def list_update_beyond)

lemma reject_order_spec:
  assumes "same_setup R R0" "exposure R0 = exposure R" "active R0 = active R" "rm_local R0 = rm_local R"
    and "\<forall>i. i \<noteq> o_id (w_ord W p) \<longrightarrow> map_of (rm_order_symbol R0) i = map_of (rm_order_symbol R) i"
    and "rings W0 = rings W" "w_pool W0 = w_pool W" "w_md W0 = w_md W"
  shows "\<exists>R' W'. reject_order p r R0 W0 = (r, R', W') \<and> order_rejected p R W R' W'"
proof -
  have "w_pool (w_upd_ord p f W0) = w_pool (w_upd_ord p f W)" for f
    using assms(7) by (simp add: w_upd_ord_def w_ord_def)
  with assms show ?thesis
    by (simp add: reject_order_def order_rejected_def same_setup_def rings_def)
qed

lemma same_accounts_setup: "same_accounts R R' \<Longrightarrow> same_setup R R'"
  by (simp add: same_accounts_def same_setup_def)

lemma route_order_cases:
  assumes acc: "same_accounts R R3" and c: "cr_notional c = exposure R k" "cr_active_orders c = active R k"
    and loc: "rm_local R3 = rm_local R" and ring: "rings_ok W"
    and x: "x = w_ord W p" "k = cstr (o_client x)" and pass: "passes_checks x sc R"
    and n: "n = calculate_notional_int x"
  shows "\<exists>r R' W'. route_order p k n (track_order k (o_id x) n (o_symbol x) c R3) W = (r, R', W') \<and>
     (if r = APPROVED then order_approved p R W R' W' else order_rejected p R W R' W')"
proof -
  let ?R4 = "track_order k (o_id x) n (o_symbol x) c R3"
  let ?R5 = "untrack_order k (o_id x) n ?R4"
  have fresh: "o_id x \<notin> cr_active_orders c" using pass c x by (simp add: passes_checks_def)
  note un = untrack_track [OF fresh, of k n "o_symbol x" R3]
  have undone: "same_setup R ?R5" "exposure ?R5 = exposure R" "active ?R5 = active R" "rm_local ?R5 = rm_local R"
    "\<forall>i. i \<noteq> o_id (w_ord W p) \<longrightarrow> map_of (rm_order_symbol ?R5) i = map_of (rm_order_symbol R) i"
    using acc c loc x un
    by (simp_all add: same_setup_def same_accounts_def delete_conv' update_conv' fun_upd_idem)
  have eng: "map_of (rm_matching_engines ?R4) (cstr (o_symbol x)) = map_of (rm_matching_engines R) (cstr (o_symbol x))"
    using acc by (simp add: same_accounts_def)
  show ?thesis
  proof (cases "map_of (rm_matching_engines R) (cstr (o_symbol x))")
    case None
    then show ?thesis
      using reject_order_spec [OF undone, of W REJECTED_SYMBOL] eng x by (auto simp: route_order_def Let_def)
  next
    case (Some e)
    obtain b E where E: "en_submit_order (Some p) (w_engines W ! e) = (b, E)" by force
    show ?thesis
    proof (cases b)
      case False
      then show ?thesis
        using reject_order_spec [OF undone, of "W\<lparr>w_engines := (w_engines W)[e := E]\<rparr>" REJECTED_QUEUE_FULL]
          rings_update [OF ring, of p e E] eng Some E x
        by (auto simp: route_order_def Let_def)
    next
      case True
      then show ?thesis
        using eng Some E x acc c loc pass n
        by (auto simp: route_order_def Let_def order_approved_def same_setup_def same_accounts_def)
    qed
  qed
qed


lemma collar_same: "rm_reference_prices R' = rm_reference_prices R \<Longrightarrow>
    check_price_collar_int x sc R' = check_price_collar_int x sc R"
  by (simp add: check_price_collar_int_def)

text \<open>
  The checks as one cascade over the client's accounts. \<open>rate_checked\<close> is the state after the
  rate limit, with the verdict of the limit.
\<close>

definition rate_checked :: "byte list \<Rightarrow> risk \<Rightarrow> bool \<times> client_risk_state \<times> risk" where
  "rate_checked k R =
     (let (c0, R1) = get_or_create_client k R; (ok, c, R2) = check_rate_limit c0 R1
      in (ok, c, put_client k c R2))"

lemma rate_checked_spec:
  assumes "rate_checked k R = (ok, c, R3)"
  shows "same_accounts R R3" "cr_notional c = exposure R k" "cr_active_orders c = active R k"
    "rm_local R3 = rm_local R" "rm_input R3 = rm_input R"
proof -
  obtain c0 R1 where g: "get_or_create_client k R = (c0, R1)" by force
  obtain ok' c' R2 where l: "check_rate_limit c0 R1 = (ok', c', R2)" using prod_cases3 by blast
  have "c' = c" "put_client k c' R2 = R3" using assms g l by (auto simp: rate_checked_def)
  with client_checked [OF g l] show "same_accounts R R3" "cr_notional c = exposure R k"
    "cr_active_orders c = active R k" "rm_local R3 = rm_local R" "rm_input R3 = rm_input R" by auto
qed

definition cascade ::
  "nat \<Rightarrow> bool \<Rightarrow> client_risk_state \<Rightarrow> risk \<Rightarrow> risk \<Rightarrow> world \<Rightarrow> risk_result \<times> risk \<times> world" where
  "cascade p ok c R3 R W =
     (let x = w_ord W p; k = cstr (o_client x); n = calculate_notional_int x in
      case map_of (rm_symbol_configs R) (cstr (o_symbol x)) of
        None \<Rightarrow> reject_order p REJECTED_SYMBOL R W
      | Some sc \<Rightarrow>
          if o_quantity x = 0 \<or> rc_max_order_size (rm_config R) < o_quantity x
          then reject_order p REJECTED_SIZE R W
          else if \<not> ok then reject_order p REJECTED_RATE_LIMIT R3 W
          else if o_id x \<in> active R k then reject_order p REJECTED_DUPLICATE R3 W
          else if rc_price_collar_enabled (rm_config R) \<and> \<not> check_price_collar_int x sc R
          then reject_order p REJECTED_PRICE R3 W
          else if rm_max_notional_scaled R < exposure R k + n
          then reject_order p REJECTED_CREDIT R3 W
          else route_order p k n (track_order k (o_id x) n (o_symbol x) c R3) W)"

lemma risk_new_cascade:
  assumes "rate_checked (cstr (o_client (w_ord W p))) R = (ok, c, R3)"
  shows "risk_process_new_order (Some p) R W = apfst Some (cascade p ok c R3 R W)"
proof -
  let ?k = "cstr (o_client (w_ord W p))"
  obtain c0 R1 where g: "get_or_create_client ?k R = (c0, R1)" by force
  obtain ok' c' R2 where l: "check_rate_limit c0 R1 = (ok', c', R2)" using prod_cases3 by blast
  have eq: "ok' = ok" "c' = c" "put_client ?k c R2 = R3" using assms g l by (auto simp: rate_checked_def)
  have "rm_reference_prices R3 = rm_reference_prices R"
    using rate_checked_spec(1) [OF assms] by (simp add: same_accounts_def)
  from collar_same [OF this] rate_checked_spec(2,3) [OF assms] g l eq show ?thesis
    by (simp add: risk_process_new_order_def cascade_def Let_def split: option.split)
qed

lemma cascade_rejects:
  assumes rc: "rate_checked (cstr (o_client (w_ord W p))) R = (ok, c, R3)"
    and no: "\<not> (ok \<and> (\<exists>sc. passes_checks (w_ord W p) sc R))"
  shows "\<exists>r R' W'. cascade p ok c R3 R W = (r, R', W') \<and> r \<noteq> APPROVED \<and> order_rejected p R W R' W'"
proof -
  define good where "good t \<longleftrightarrow> (\<exists>r R' W'. t = (r, R', W') \<and> r \<noteq> APPROVED \<and> order_rejected p R W R' W')" for t
  have "same_setup R R3" "exposure R3 = exposure R" "active R3 = active R" "rm_local R3 = rm_local R"
    "\<forall>i. i \<noteq> o_id (w_ord W p) \<longrightarrow> map_of (rm_order_symbol R3) i = map_of (rm_order_symbol R) i"
    using rate_checked_spec [OF rc] by (simp_all add: same_accounts_setup same_accounts_def)
  then have rej3: "good (reject_order p r R3 W)" if "r \<noteq> APPROVED" for r
    using reject_order_spec [of R R3 W p W r] that by (auto simp: good_def)
  have rej0: "good (reject_order p r R W)" if "r \<noteq> APPROVED" for r
    using reject_order_spec [of R R W p W r] that by (auto simp: good_def same_setup_def)
  have "good (cascade p ok c R3 R W)"
    using no by (auto simp: cascade_def Let_def rej0 rej3 passes_checks_def not_less split: option.split)
  then show ?thesis by (simp add: good_def)
qed

lemma cascade_routes:
  assumes "ok" "passes_checks (w_ord W p) sc R"
  shows "cascade p ok c R3 R W =
    (let x = w_ord W p; k = cstr (o_client x); n = calculate_notional_int x
     in route_order p k n (track_order k (o_id x) n (o_symbol x) c R3) W)"
  using assms by (auto simp: cascade_def Let_def passes_checks_def not_less)

lemma risk_new_cases:
  assumes ring: "rings_ok W"
  shows "\<exists>r R' W'. risk_process_new_order (Some p) R W = (Some r, R', W') \<and>
     (if r = APPROVED then order_approved p R W R' W' else order_rejected p R W R' W')"
proof -
  obtain ok c R3 where rc: "rate_checked (cstr (o_client (w_ord W p))) R = (ok, c, R3)"
    using prod_cases3 by blast
  have "\<exists>r R' W'. cascade p ok c R3 R W = (r, R', W') \<and>
     (if r = APPROVED then order_approved p R W R' W' else order_rejected p R W R' W')"
  proof (cases "ok \<and> (\<exists>sc. passes_checks (w_ord W p) sc R)")
    case True
    then obtain sc where sc: "ok" "passes_checks (w_ord W p) sc R" by blast
    show ?thesis
      unfolding cascade_routes [OF sc] Let_def
      by (rule route_order_cases [OF rate_checked_spec(1-4) [OF rc] ring refl refl sc(2) refl])
  next
    case False
    from cascade_rejects [OF rc this] show ?thesis by auto
  qed
  then obtain r R' W' where "cascade p ok c R3 R W = (r, R', W')"
    "if r = APPROVED then order_approved p R W R' W' else order_rejected p R W R' W'" by blast
  then show ?thesis by (intro exI [of _ r] exI [of _ R'] exI [of _ W']) (simp add: risk_new_cascade [OF rc])
qed

text \<open>The converse: an order that passes the checks is approved if its engine takes it.\<close>

lemma risk_new_complete:
  assumes "fst (rate_checked (cstr (o_client (w_ord W p))) R)" "passes_checks (w_ord W p) sc R"
    and "map_of (rm_matching_engines R) (cstr (o_symbol (w_ord W p))) = Some e"
    and "fst (en_submit_order (Some p) (w_engines W ! e))"
  shows "\<exists>R' W'. risk_process_new_order (Some p) R W = (Some APPROVED, R', W')"
proof -
  obtain ok c R3 where rc: "rate_checked (cstr (o_client (w_ord W p))) R = (ok, c, R3)"
    using prod_cases3 by blast
  have ok: "ok" using assms(1) rc by simp
  have "rm_matching_engines R3 = rm_matching_engines R"
    using rate_checked_spec(1) [OF rc] by (simp add: same_accounts_def)
  then show ?thesis
    using assms(3,4)
    by (auto simp: risk_new_cascade [OF rc] cascade_routes [OF ok assms(2)] route_order_def Let_def
      split: prod.splits)
qed

lemma approvedD:
  assumes "rings_ok W" "risk_process_new_order (Some p) R W = (Some APPROVED, R', W')"
  shows "order_approved p R W R' W'"
  using risk_new_cases [OF assms(1), of p R] assms(2) by (auto split: if_splits)

lemma rejectedD:
  assumes "rings_ok W" "risk_process_new_order (Some p) R W = (Some r, R', W')" "r \<noteq> APPROVED"
  shows "order_rejected p R W R' W'"
  using risk_new_cases [OF assms(1), of p R] assms(2,3) by (auto split: if_splits)

lemma approved_ring:
  assumes ap: "order_approved p R W R' W'" and ok: "rings_ok W"
  obtains e where "map_of (rm_matching_engines R) (cstr (o_symbol (w_ord W p))) = Some e"
    "e < length (w_engines W) \<Longrightarrow> rings W' = (rings W)[e := rings W ! e @ [NEW_ORDER (Some p)]]"
    "p < length (mp_pool (w_pool W)) \<Longrightarrow> w_ord W' p = (w_ord W p)\<lparr>o_status := ACCEPTED\<rparr>"
    "rings_ok W'" "map (\<lambda>E. sq_cap (en_input E)) (w_engines W') = map (\<lambda>E. sq_cap (en_input E)) (w_engines W)"
proof -
  obtain e E where e: "map_of (rm_matching_engines R) (cstr (o_symbol (w_ord W p))) = Some e"
    "en_submit_order (Some p) (w_engines W ! e) = (True, E)"
    "W' = w_upd_ord p (\<lambda>x. x\<lparr>o_status := ACCEPTED\<rparr>) (W\<lparr>w_engines := (w_engines W)[e := E]\<rparr>)"
    using ap by (auto simp: order_approved_def Let_def)
  have "rings W' = (rings W)[e := rings W ! e @ [NEW_ORDER (Some p)]]" if lt: "e < length (w_engines W)"
    using submit_request_ring [of _ "w_engines W ! e" True E] e(2) ok lt
    by (simp add: rings_def e(3) map_update rings_ok_def en_submit_order_def make_new_order_def)
  moreover have "w_ord W' p = (w_ord W p)\<lparr>o_status := ACCEPTED\<rparr>" if "p < length (mp_pool (w_pool W))"
    using that by (simp add: e(3) w_upd_ord_def w_ord_def)
  moreover have "rings_ok W' \<and>
      map (\<lambda>E. sq_cap (en_input E)) (w_engines W') = map (\<lambda>E. sq_cap (en_input E)) (w_engines W)"
  proof (cases "e < length (w_engines W)")
    case True
    then have "sq_inv (en_input (w_engines W ! e))" using ok by (simp add: rings_ok_def)
    then have "sq_inv (en_input E)" "sq_cap (en_input E) = sq_cap (en_input (w_engines W ! e))"
      using submit_request_ring [of _ "w_engines W ! e" True E] e(2) by (simp_all add: en_submit_order_def)
    then show ?thesis
      using ok True set_update_subset_insert [of "w_engines W" e E]
      by (auto simp: e(3) rings_ok_def map_update list_update_same_conv)
  qed (use ok in \<open>simp add: e(3) rings_ok_def list_update_beyond\<close>)
  ultimately show thesis using that e(1) by blast
qed

section \<open>A concrete risk manager\<close>

definition ex_config :: risk_config where
  "ex_config = \<lparr>rc_max_order_size = 100000, rc_max_notional_per_client = 10000000,
     rc_max_orders_per_second = 1000, rc_price_collar_enabled = True\<rparr>"

definition ex_symbol :: "byte list \<Rightarrow> symbol_config" where
  "ex_symbol s = \<lparr>sc_symbol = s, sc_tick_size = 1 / 100, sc_lot_size = 1, sc_price_collar_pct = 10\<rparr>"

definition ex_risk :: risk where
  "ex_risk = add_matching_engine [65] 0 (rm_new id ex_config [ex_symbol [65]] (\<lambda>_. 0))"

definition ex_md :: "md_event mpmc" where
  "ex_md = mq_new (MD_BBO [] \<lparr>bd_bid_price = 0, bd_bid_quantity = 0, bd_ask_price = 0, bd_ask_quantity = 0\<rparr>) 4096"

definition ex_world :: "order \<Rightarrow> order \<Rightarrow> world" where
  "ex_world x y = \<lparr>w_pool = ex_pool [x, y], w_engines = [en_new [65] (ex_pool [x, y]) of_nat], w_md = ex_md\<rparr>"

lemma ex_world_facts:
  "rings_ok (ex_world x y)" "w_ord (ex_world x y) 0 = x" "w_ord (ex_world x y) 1 = y"
  "length (mp_pool (w_pool (ex_world x y))) = 4" "rings (ex_world x y) = [[]]"
  "fst (en_submit_order (Some p) (w_engines (ex_world x y) ! 0))"
  "length (w_engines (ex_world x y)) = 1" "65536 \<le> sq_cap (en_input (w_engines (ex_world x y) ! 0))"
proof -
  have P: "mp_inv (ex_pool [x, y])" "mp_pool (ex_pool [x, y]) = [x, y] @ [default_order, default_order]"
    using ex_pool_inv [of "[x, y]"] by simp_all
  note new = en_new_ready [OF P(1), of "[65]" of_nat]
  show "rings_ok (ex_world x y)" "rings (ex_world x y) = [[]]"
    using new(2,3) by (simp_all add: rings_ok_def rings_def ex_world_def)
  show "w_ord (ex_world x y) 0 = x" "w_ord (ex_world x y) 1 = y"
    "length (mp_pool (w_pool (ex_world x y))) = 4"
    by (simp_all add: w_ord_def ex_world_def P)
  let ?q = "en_input (en_new [65] (ex_pool [x, y]) of_nat)"
  have "65536 \<le> sq_cap ?q"
    using sq_inv_new [of QUEUE_CAPACITY "NEW_ORDER None"] by (simp add: en_new_def QUEUE_CAPACITY_def)
  then show "length (w_engines (ex_world x y)) = 1" "65536 \<le> sq_cap (en_input (w_engines (ex_world x y) ! 0))"
    by (simp_all add: ex_world_def)
  with \<open>65536 \<le> sq_cap ?q\<close> have "length (sq_contents ?q) < sq_cap ?q" using new(3) by simp
  from sq.push_room [OF new(2) this, of "NEW_ORDER (Some p)"]
  show "fst (en_submit_order (Some p) (w_engines (ex_world x y) ! 0))"
    by (auto simp: ex_world_def en_submit_order_def submit_request_def make_new_order_def)
qed

lemma ex_risk_facts:
  "rm_max_notional_scaled ex_risk = 100000000000" "rm_config ex_risk = ex_config"
  "map_of (rm_symbol_configs ex_risk) (cstr (fs_new symbol_size (Some [65]))) = Some (ex_symbol [65])"
  "map_of (rm_matching_engines ex_risk) (cstr (fs_new symbol_size (Some [65]))) = Some 0"
  "rm_reference_prices ex_risk = []" "exposure ex_risk k = 0" "active ex_risk k = {}"
  "fst (rate_checked k ex_risk)" "rm_order_symbol ex_risk = []"
  by (simp_all add: ex_risk_def add_matching_engine_def rm_new_def ex_symbol_def double_to_u64_def ex_config_def
    PRICE_SCALE_def exposure_def active_def rate_checked_def get_or_create_client_def check_rate_limit_def
    now_timestamp_def RATE_LIMIT_WINDOW_NS_def Let_def)

lemma ex_order_names [simp]:
  "o_symbol (ex_order i s t q p) = fs_new symbol_size (Some [65])"
  "o_client (ex_order i s t q p) = fs_new client_id_size (Some [67])"
  "o_quantity (ex_order i s t q p) = q"
  by (simp_all add: ex_order_def make_order_def)

lemma ex_passes:
  assumes "q \<noteq> 0" "q \<le> 100000" "p * q \<le> 100000000000"
  shows "passes_checks (ex_order i s t q p) (ex_symbol [65]) ex_risk"
  using assms
  by (simp add: passes_checks_def ex_risk_facts check_price_collar_int_def calculate_notional_int_def ex_config_def)

lemma ex_approved:
  assumes "q \<noteq> 0" "q \<le> 100000" "p * q \<le> 100000000000" and x: "x = ex_order i s t q p"
  shows "\<exists>R' W'. risk_process_new_order (Some 0) ex_risk (ex_world x y) = (Some APPROVED, R', W')"
  using ex_passes [OF assms(1-3), of i s t]
  by (intro risk_new_complete [of _ _ _ "ex_symbol [65]" 0]) (simp_all add: ex_world_facts ex_risk_facts x)

section \<open>Properties of single orders\<close>



text \<open>
  A rejected order has no effect beyond its own status and the counters: no client's
  exposure or set of active orders changes, no engine receives anything, and the routes of all
  other order ids stay. The order's slot, however, is not given back to the pool.
\<close>

theorem risk_rejection_has_no_effect:
  assumes "rings_ok W" "risk_process_new_order (Some p) R W = (Some r, R', W')" "r \<noteq> APPROVED"
  shows "exposure R' = exposure R \<and> active R' = active R \<and> rings W' = rings W \<and>
     (\<forall>i. i \<noteq> o_id (w_ord W p) \<longrightarrow> map_of (rm_order_symbol R') i = map_of (rm_order_symbol R) i) \<and>
     rs_rejected (rm_local R') = rs_rejected (rm_local R) + 1 \<and>
     (p < length (mp_pool (w_pool W)) \<longrightarrow> w_ord W' p = (w_ord W p)\<lparr>o_status := REJECTED\<rparr>) \<and>
     mp_free (w_pool W') = mp_free (w_pool W)"
proof -
  note rj = rejectedD [OF assms]
  then have "w_pool W' = w_pool (w_upd_ord p (\<lambda>x. x\<lparr>o_status := REJECTED\<rparr>) W)"
    by (simp add: order_rejected_def)
  then have "w_ord W' q = w_ord (w_upd_ord p (\<lambda>x. x\<lparr>o_status := REJECTED\<rparr>) W) q" for q
    by (simp add: w_ord_def)
  with rj show ?thesis by (simp add: order_rejected_def)
qed


theorem risk_rejection_has_no_effect_witness:
  "\<exists>R' W'. risk_process_new_order (Some 0) ex_risk (ex_world (ex_order 1 BUY LIMIT 0 100) (ex_order 2 BUY LIMIT 8 101)) =
       (Some REJECTED_SIZE, R', W') \<and> rings W' = [[]]"
proof -
  let ?W = "ex_world (ex_order 1 BUY LIMIT 0 100) (ex_order 2 BUY LIMIT 8 101)"
  obtain R' W' where r: "risk_process_new_order (Some 0) ex_risk ?W = (Some REJECTED_SIZE, R', W')"
    by (simp add: risk_process_new_order_def ex_world_facts ex_risk_facts reject_order_def)
  from risk_rejection_has_no_effect [OF ex_world_facts(1) r] r show ?thesis by (auto simp: ex_world_facts)
qed


text \<open>
  The credit limit can be passed by wrapping around. The notional of an order is a
  64-bit product; an order of 65536 shares at the price 2^48 has the notional zero, passes the
  limit of the default configuration and is routed to its engine, though it is worth more than
  the limit a hundred million times over.
\<close>

theorem risk_credit_limit_wraps_around:
  "\<exists>R W R' W'. risk_process_new_order (Some 0) R W = (Some APPROVED, R', W') \<and>
     rm_max_notional_scaled R = 100000000000 \<and>
     100000000 * unat (rm_max_notional_scaled R) < unat (o_price (w_ord W 0)) * unat (o_quantity (w_ord W 0)) \<and>
     exposure R' (cstr (o_client (w_ord W 0))) = 0 \<and> rings W' = [[NEW_ORDER (Some 0)]]"
proof -
  let ?x = "ex_order 1 BUY LIMIT 65536 281474976710656"
  let ?W = "ex_world ?x (ex_order 2 BUY LIMIT 8 101)"
  obtain R' W' where ok: "risk_process_new_order (Some 0) ex_risk ?W = (Some APPROVED, R', W')"
    using ex_approved [OF _ _ _ refl, of 65536 281474976710656 1 BUY LIMIT "ex_order 2 BUY LIMIT 8 101"] by auto
  note ap = approvedD [OF ex_world_facts(1) ok]
  then have "exposure R' (cstr (o_client ?x)) = 0"
    by (simp add: order_approved_def Let_def ex_world_facts ex_risk_facts calculate_notional_int_def)
  moreover have "rings W' = [[NEW_ORDER (Some 0)]]"
    by (rule approved_ring [OF ap ex_world_facts(1)])
      (simp add: ex_world_facts ex_risk_facts)
  ultimately show ?thesis
    using ok ex_risk_facts(1)
    by (intro exI [of _ ex_risk] exI [of _ ?W] exI [of _ R'] exI [of _ W']) (simp add: ex_world_facts)
qed

end
