(* ===== verification/RTES_Risk_Limits.thy ===== *)
theory RTES_Risk_Limits
  imports RTES_Risk_Props
begin

text \<open>
  The limits of the risk manager over many requests: the worker serves its ring in order and
  to the end, exposure is the sum of what was approved, the rate limit counts per window, the
  price collar is the interval around the reference price, and cancels follow the index of
  order ids.
\<close>

section \<open>The worker serves the whole ring\<close>

text \<open>The fields that handling a request neither reads nor changes.\<close>

definition redress :: "risk_request spsc \<Rightarrow> bool \<Rightarrow> u64 \<Rightarrow> risk_stats \<Rightarrow> risk \<Rightarrow> risk" where
  "redress q b n a R =
     R\<lparr>rm_input := q, rm_running := b, rm_local := (rm_local R)\<lparr>rs_processed := n\<rparr>, rm_atomic := a\<rparr>"

lemma redress_frame [simp]:
  "rm_config (redress q b n a R) = rm_config R" "rm_symbol_configs (redress q b n a R) = rm_symbol_configs R"
  "rm_max_notional_scaled (redress q b n a R) = rm_max_notional_scaled R"
  "rm_matching_engines (redress q b n a R) = rm_matching_engines R"
  "rm_reference_prices (redress q b n a R) = rm_reference_prices R"
  "rm_clients (redress q b n a R) = rm_clients R" "rm_order_symbol (redress q b n a R) = rm_order_symbol R"
  "rm_input (redress q b n a R) = q" "rm_running (redress q b n a R) = b"
  "rm_local (redress q b n a R) = (rm_local R)\<lparr>rs_processed := n\<rparr>" "rm_atomic (redress q b n a R) = a"
  "redress q b n a (redress q' b' n' a' R) = redress q b n a R"
  by (simp_all add: redress_def)

lemma redress_self: "redress (rm_input R) (rm_running R) (rs_processed (rm_local R)) (rm_atomic R) R = R"
  by (simp add: redress_def)

lemma redress_steps:
  "put_client k c (redress q b n a R) = redress q b n a (put_client k c R)"
  "get_or_create_client k (redress q b n a R) = apsnd (redress q b n a) (get_or_create_client k R)"
  "check_rate_limit c (redress q b n a R) = apsnd (apsnd (redress q b n a)) (check_rate_limit c R)"
  "check_price_collar_int x sc (redress q b n a R) = check_price_collar_int x sc R"
  "track_order k i m s c (redress q b n a R) = redress q b n a (track_order k i m s c R)"
  "untrack_order k i m (redress q b n a R) = redress q b n a (untrack_order k i m R)"
  "reject_order p r (redress q b n a R) W = apsnd (apfst (redress q b n a)) (reject_order p r R W)"
  by (auto simp: redress_def put_client_def get_or_create_client_def check_rate_limit_def now_timestamp_def
    check_price_collar_int_def track_order_def untrack_order_def reject_order_def count_risk_def Let_def
    split: option.splits)

lemma redress_route_order:
  "route_order p k m (redress q b n a R) W = apsnd (apfst (redress q b n a)) (route_order p k m R W)"
  by (auto simp: route_order_def redress_steps count_risk_def Let_def split: option.splits prod.splits)
    (simp add: redress_def)

lemma redress_new_order:
  "risk_process_new_order x (redress q b n a R) W = apsnd (apfst (redress q b n a)) (risk_process_new_order x R W)"
proof (cases x)
  case None
  then show ?thesis by (simp add: risk_process_new_order_def count_risk_def redress_def)
next
  case (Some p)
  obtain c0 R1 where 1: "get_or_create_client (cstr (o_client (w_ord W p))) R = (c0, R1)" by force
  obtain ok c R2 where 2: "check_rate_limit c0 R1 = (ok, c, R2)" by (cases "check_rate_limit c0 R1") auto
  have comm: "apfst f (apsnd g y) = apsnd g (apfst f y)" for f g and y :: "'u \<times> 'v" by (cases y) simp
  show ?thesis
    by (simp add: risk_process_new_order_def Some redress_steps redress_route_order 1 2 Let_def comm split: option.split)
qed

lemma redress_cancel:
  "risk_process_cancel i w (redress q b n a R) W = apfst (redress q b n a) (risk_process_cancel i w R W)"
  by (auto simp: risk_process_cancel_def route_cancel_def redress_def put_client_def count_risk_def Let_def
    split: option.splits)

lemma redress_handle:
  "risk_handle r (redress q b n a R) W = apfst (redress q b n a) (risk_handle r R W)"
  by (cases r; cases "risk_process_new_order (case r of RISK_NEW x \<Rightarrow> x | _ \<Rightarrow> None) R W")
    (simp_all add: risk_handle_def redress_new_order redress_cancel)

definition risk_handle_all :: "risk_request list \<Rightarrow> risk \<times> world \<Rightarrow> risk \<times> world" where
  "risk_handle_all rs = fold (\<lambda>r (R, W). risk_handle r R W) rs"

lemma redress_handle_all:
  "risk_handle_all rs (redress q b n a R, W) = apfst (redress q b n a) (risk_handle_all rs (R, W))"
proof (induction rs arbitrary: R W)
  case (Cons r rs)
  then show ?case
    by (cases "risk_handle r R W") (simp add: risk_handle_all_def redress_handle)
qed (simp add: risk_handle_all_def)

lemma risk_handle_all_simps [simp]:
  "risk_handle_all [] s = s"
  "risk_handle_all (r # rs) (R, W) = risk_handle_all rs (risk_handle r R W)"
  "risk_handle_all (rs @ rs') s = risk_handle_all rs' (risk_handle_all rs s)"
  by (simp_all add: risk_handle_all_def)

lemma risk_drain_loop_serves:
  assumes "sq_inv (rm_input R)" "sq_contents (rm_input R) = rs"
    and "b = rm_running R" "m = rs_processed (rm_local R)" "a = rm_atomic R"
  shows "\<exists>q. risk_drain_loop n R W =
       (min n (length rs), apfst (redress q b m a) (risk_handle_all (take n rs) (R, W))) \<and>
     sq_inv q \<and> sq_contents q = drop n rs"
  using assms
proof (induction n arbitrary: R W rs)
  case 0
  then show ?case using redress_self [of R] by (intro exI [of _ "rm_input R"]) simp
next
  case (Suc n)
  have set_q: "R\<lparr>rm_input := q\<rparr> = redress q b m a R" for q using Suc.prems(3-5) by (simp add: redress_def)
  show ?case
  proof (cases rs)
    case Nil
    then obtain q where "sq_pop (rm_input R) = (None, q)" "sq_inv q" "sq_contents q = []"
      using sq.pop_nil [OF Suc.prems(1)] Suc.prems(2) by auto
    then show ?thesis using Nil by (intro exI [of _ q]) (simp add: set_q)
  next
    case (Cons r rs1)
    then obtain q1 where q1: "sq_pop (rm_input R) = (Some r, q1)" "sq_inv q1" "sq_contents q1 = rs1"
      using sq.pop_cons [OF Suc.prems(1)] Suc.prems(2) by fastforce
    obtain R1 W1 where h: "risk_handle r R W = (R1, W1)" by force
    obtain q where q: "risk_drain_loop n (redress q1 b m a R1) W1 =
        (min n (length rs1), apfst (redress q b m a) (risk_handle_all (take n rs1) (redress q1 b m a R1, W1)))"
      "sq_inv q" "sq_contents q = drop n rs1"
      using Suc.IH [of "redress q1 b m a R1" rs1 W1] q1 by auto
    obtain R2 W2 where "risk_handle_all (take n rs1) (R1, W1) = (R2, W2)" by force
    with q h q1 Cons show ?thesis
      by (intro exI [of _ q]) (simp add: set_q redress_handle redress_handle_all)
  qed
qed

lemma risk_drain_batch_serves:
  assumes "sq_inv (rm_input R)" "sq_contents (rm_input R) = rs"
    and "b = rm_running R" "a = rm_atomic R"
  shows "\<exists>q. risk_drain_batch R W = (min RISK_BATCH_SIZE (length rs),
       apfst (redress q b (rs_processed (rm_local R) + of_nat (min RISK_BATCH_SIZE (length rs))) a)
         (risk_handle_all (take RISK_BATCH_SIZE rs) (R, W))) \<and>
     sq_inv q \<and> sq_contents q = drop RISK_BATCH_SIZE rs"
proof -
  let ?n = "rs_processed (rm_local R)"
  obtain q where q: "risk_drain_loop RISK_BATCH_SIZE R W = (min RISK_BATCH_SIZE (length rs),
      apfst (redress q b ?n a) (risk_handle_all (take RISK_BATCH_SIZE rs) (R, W)))"
    "sq_inv q" "sq_contents q = drop RISK_BATCH_SIZE rs"
    using risk_drain_loop_serves [OF assms(1,2,3) refl assms(4)] by blast
  moreover obtain R1 W1 where "risk_handle_all (take RISK_BATCH_SIZE rs) (R, W) = (R1, W1)" by force
  moreover have "count_risk (\<lambda>s. s\<lparr>rs_processed := rs_processed s + k\<rparr>) (redress q b ?n a R1) = redress q b (?n + k) a R1"
    for k by (simp add: count_risk_def redress_def)
  ultimately show ?thesis by (intro exI [of _ q]) (simp add: risk_drain_batch_def)
qed

lemma risk_drain_rest_serves:
  assumes "sq_inv (rm_input R)" "sq_contents (rm_input R) = rs" "b = rm_running R" "a = rm_atomic R"
  shows "\<exists>q. risk_drain_rest R W =
       Some (apfst (redress q b (rs_processed (rm_local R) + of_nat (length rs)) a) (risk_handle_all rs (R, W))) \<and>
     sq_inv q \<and> sq_contents q = []"
  using assms
proof (induction "length rs" arbitrary: rs R W rule: less_induct)
  case less
  let ?n = "rs_processed (rm_local R)" and ?k = "min RISK_BATCH_SIZE (length rs)"
  obtain q1 where q1: "risk_drain_batch R W =
      (?k, apfst (redress q1 b (?n + of_nat ?k) a) (risk_handle_all (take RISK_BATCH_SIZE rs) (R, W)))"
    "sq_inv q1" "sq_contents q1 = drop RISK_BATCH_SIZE rs"
    using risk_drain_batch_serves [OF less.prems] by blast
  obtain R1 W1 where h: "risk_handle_all (take RISK_BATCH_SIZE rs) (R, W) = (R1, W1)" by force
  show ?case
  proof (cases "rs = []")
    case True
    with q1 h show ?thesis
      by (subst risk_drain_rest.simps) (auto simp: RISK_BATCH_SIZE_def)
  next
    case False
    then have k: "?k \<noteq> 0" "length (drop RISK_BATCH_SIZE rs) < length rs" by (simp_all add: RISK_BATCH_SIZE_def)
    let ?R1 = "redress q1 b (?n + of_nat ?k) a R1"
    obtain q where q: "risk_drain_rest ?R1 W1 = Some (apfst
        (redress q b (?n + of_nat ?k + of_nat (length (drop RISK_BATCH_SIZE rs))) a)
          (risk_handle_all (drop RISK_BATCH_SIZE rs) (?R1, W1)))"
      "sq_inv q" "sq_contents q = []"
      using less.hyps [OF k(2), of ?R1 W1] q1 by auto
    have "?k + length (drop RISK_BATCH_SIZE rs) = length rs" by simp
    then have n: "?n + of_nat ?k + of_nat (length (drop RISK_BATCH_SIZE rs)) = ?n + of_nat (length rs)"
      by (metis of_nat_add add.assoc)
    have "risk_handle_all rs (R, W) = risk_handle_all (drop RISK_BATCH_SIZE rs) (R1, W1)"
      using risk_handle_all_simps(3) [of "take RISK_BATCH_SIZE rs" "drop RISK_BATCH_SIZE rs" "(R, W)"] h by simp
    moreover obtain R2 W2 where "risk_handle_all (drop RISK_BATCH_SIZE rs) (R1, W1) = (R2, W2)" by force
    moreover have "risk_drain_rest R W = risk_drain_rest ?R1 W1"
      by (subst risk_drain_rest.simps) (use k(1) h q1(1) in \<open>simp only: Let_def prod.case if_False apfst_conv\<close>)
    ultimately show ?thesis
      using q unfolding n by (intro exI [of _ q]) (simp add: redress_handle_all)
  qed
qed

text \<open>
  Claim C12. Stopping the risk manager serves every request that was waiting, in the order of
  submission, exactly as if they had been handled one by one: no request is skipped, the ring
  is left empty, the worker returns, and the published statistics are the final ones.
\<close>

theorem risk_stop_serves_all_in_order:
  assumes "rm_running R" "sq_inv (rm_input R)" "sq_contents (rm_input R) = rs"
  shows "\<exists>q R1 W'. risk_handle_all rs (R, W) = (R1, W') \<and> sq_contents q = [] \<and>
     (\<exists>a. rm_stop R W = Some (redress q False (rs_processed (rm_local R) + of_nat (length rs)) a R1, W') \<and>
        a = (rm_local R1)\<lparr>rs_processed := rs_processed (rm_local R) + of_nat (length rs)\<rparr>)"
proof -
  let ?n = "rs_processed (rm_local R)" and ?R = "R\<lparr>rm_running := False\<rparr>"
  have R: "?R = redress (rm_input R) False ?n (rm_atomic R) R" by (simp add: redress_def)
  obtain q where q: "risk_drain_rest ?R W =
      Some (apfst (redress q False (?n + of_nat (length rs)) (rm_atomic R)) (risk_handle_all rs (?R, W)))"
    "sq_contents q = []"
    using risk_drain_rest_serves [of ?R rs False "rm_atomic R" W] assms(2,3) by auto
  obtain R1 W1 where h: "risk_handle_all rs (R, W) = (R1, W1)" by force
  have "risk_flush_stats (redress q False m a R1) = redress q False m ((rm_local R1)\<lparr>rs_processed := m\<rparr>) R1" for m a
    by (simp add: risk_flush_stats_def redress_def)
  with q h show ?thesis
    using assms(1) unfolding R by (simp add: rm_stop_def redress_handle_all R) blast
qed

theorem risk_stop_serves_all_in_order_witness:
  "\<exists>R' W'. rm_stop (snd (rm_submit_cancel 7 [67] (rm_start ex_risk)))
       (ex_world (ex_order 1 BUY LIMIT 5 100) (ex_order 2 BUY LIMIT 8 101)) = Some (R', W') \<and>
     rs_processed (rm_get_stats R') = 1 \<and> rs_cancels_rejected (rm_get_stats R') = 1"
proof -
  let ?R = "snd (rm_submit_cancel 7 [67] (rm_start ex_risk))"
  let ?W = "ex_world (ex_order 1 BUY LIMIT 5 100) (ex_order 2 BUY LIMIT 8 101)"
  let ?q = "sq_new (RISK_NEW None) RISK_QUEUE_CAPACITY"
  have new: "sq_inv ?q" "sq_contents ?q = []" "length (sq_contents ?q) < sq_cap ?q"
    using sq_inv_new [of RISK_QUEUE_CAPACITY "RISK_NEW None"] by (auto simp: RISK_QUEUE_CAPACITY_def)
  obtain q where q: "sq_push (RISK_CANCEL 7 [67]) ?q = (True, q)" "sq_inv q" "sq_contents q = [RISK_CANCEL 7 [67]]"
    using sq.push_room [OF new(1,3)] new(2) by auto
  have R: "?R = ex_risk\<lparr>rm_running := True, rm_input := q\<rparr>"
    using q(1) by (simp add: rm_submit_cancel_def rm_start_def ex_risk_def rm_new_def add_matching_engine_def)
  have "rm_running ?R" "sq_inv (rm_input ?R)" "sq_contents (rm_input ?R) = [RISK_CANCEL 7 [67]]"
    using q unfolding R by simp_all
  from risk_stop_serves_all_in_order [OF this, of ?W] show ?thesis
    unfolding R by (auto simp: risk_handle_def risk_process_cancel_def ex_risk_def rm_new_def add_matching_engine_def
      count_risk_def rm_get_stats_def risk_stats_zero_def)
qed

section \<open>The price collar\<close>

lemma uint_scaled:
  fixes x :: u64 and m :: u64
  assumes "uint m \<le> 200"
  shows "uint ((ucast x :: u128) * ucast m) = uint x * uint m"
proof -
  have "uint x < 2 ^ 64" using uint_lt2p [of x] by simp
  then have "uint x * uint m < 2 ^ 128"
    using assms mult_mono [of "uint x" "2 ^ 64" "uint m" 200] by simp
  moreover have "uint (ucast y :: u128) = uint y" for y :: u64
    using uint_lt2p [of y] by (simp add: unsigned_ucast_eq take_bit_int_eq_self)
  ultimately show ?thesis by (simp add: uint_word_ariths)
qed

text \<open>
  Claim C21. With a reference price and a collar of at most 100 percent the integer check is
  exactly the intended one: the price differs from the reference by at most the whole
  percentage of the reference. The 128-bit products cannot overflow for any 64-bit prices.
\<close>

theorem price_collar_is_the_interval:
  assumes "map_of (rm_reference_prices R) (cstr (o_symbol x)) = Some r" "r \<noteq> 0"
    and "0 \<le> sc_price_collar_pct sc" "sc_price_collar_pct sc \<le> 100"
  shows "check_price_collar_int x sc R \<longleftrightarrow>
     100 * \<bar>uint (o_price x) - uint r\<bar> \<le> \<lfloor>sc_price_collar_pct sc\<rfloor> * uint r"
proof -
  define n where "n = \<lfloor>sc_price_collar_pct sc\<rfloor>"
  let ?c = "double_to_u64 (sc_price_collar_pct sc)"
  have n: "0 \<le> n" "n \<le> 100" using assms(3,4) by (simp_all add: n_def floor_le_iff)
  have c: "uint ?c = n"
    using n by (simp add: double_to_u64_def unsigned_of_int take_bit_int_eq_self flip: n_def)
  have "uint (100 - ?c) = 100 - n" "uint (100 + ?c) = 100 + n"
    using n by (simp_all add: uint_word_ariths c)
  moreover have "uint ((ucast (o_price x) :: u128) * 100) = uint (o_price x) * 100"
    using uint_scaled [of 100 "o_price x"] by simp
  ultimately have "check_price_collar_int x sc R \<longleftrightarrow>
      uint r * (100 - n) \<le> uint (o_price x) * 100 \<and> uint (o_price x) * 100 \<le> uint r * (100 + n)"
    using assms(1,2) n by (simp add: check_price_collar_int_def Let_def word_le_def uint_scaled)
  also have "\<dots> \<longleftrightarrow> 100 * \<bar>uint (o_price x) - uint r\<bar> \<le> n * uint r"
    by (auto simp: algebra_simps abs_if)
  finally show ?thesis unfolding n_def .
qed

theorem price_collar_is_the_interval_witness:
  "check_price_collar_int (ex_order 1 BUY LIMIT 5 109) (ex_symbol [65])
       (update_reference_price (fs_new symbol_size (Some [65])) 100 ex_risk) \<and>
   \<not> check_price_collar_int (ex_order 1 BUY LIMIT 5 111) (ex_symbol [65])
       (update_reference_price (fs_new symbol_size (Some [65])) 100 ex_risk)"
proof -
  let ?R = "update_reference_price (fs_new symbol_size (Some [65])) 100 ex_risk"
  have "map_of (rm_reference_prices ?R) (cstr (o_symbol (ex_order 1 BUY LIMIT 5 p))) = Some 100" for p
    by (simp add: update_reference_price_def update_conv')
  from price_collar_is_the_interval [OF this, of "ex_symbol [65]"]
  have "check_price_collar_int (ex_order 1 BUY LIMIT 5 p) (ex_symbol [65]) ?R \<longleftrightarrow> 100 * \<bar>uint p - 100\<bar> \<le> 1000" for p
    by (simp add: ex_symbol_def ex_order_def make_order_def)
  then show ?thesis by simp
qed

section \<open>The rate limit\<close>

text \<open>The answers of consecutive rate checks of one client.\<close>

primrec rate_answers :: "nat \<Rightarrow> client_risk_state \<Rightarrow> risk \<Rightarrow> bool list" where
  "rate_answers 0 c R = []"
| "rate_answers (Suc n) c R = (case check_rate_limit c R of (ok, c', R') \<Rightarrow> ok # rate_answers n c' R')"

lemma rate_answers_in_window:
  assumes "\<forall>j<n. rm_clock R (rm_ticks R + j) - cr_window_start c < RATE_LIMIT_WINDOW_NS"
  shows "rate_answers n c R =
     map (\<lambda>j. unat (cr_orders_in_window c) + j < unat (rc_max_orders_per_second (rm_config R))) [0..<n]"
  using assms
proof (induction n arbitrary: c R)
  case (Suc n)
  let ?c = "unat (cr_orders_in_window c)" and ?m = "rc_max_orders_per_second (rm_config R)"
  have now: "\<not> RATE_LIMIT_WINDOW_NS \<le> rm_clock R (rm_ticks R) - cr_window_start c"
    using Suc.prems by (auto simp: not_le dest: spec [of _ 0])
  let ?R = "R\<lparr>rm_ticks := Suc (rm_ticks R)\<rparr>"
  have later: "\<forall>j<n. rm_clock ?R (rm_ticks ?R + j) - cr_window_start c < RATE_LIMIT_WINDOW_NS"
    using Suc.prems by (auto dest: spec [of _ "Suc _"])
  have map_Suc: "map f [0..<Suc n] = f 0 # map (\<lambda>j. f (Suc j)) [0..<n]" for f :: "nat \<Rightarrow> bool"
    by (simp only: upt_conv_Cons [of 0 "Suc n"] zero_less_Suc list.map map_Suc_upt [symmetric] map_map comp_def)
  show ?case
  proof (cases "?m \<le> cr_orders_in_window c")
    case True
    then show ?thesis
      using Suc.IH [of ?R c] later now
      by (simp add: check_rate_limit_def now_timestamp_def Let_def map_Suc word_le_nat_alt del: upt_Suc)
  next
    case False
    then have lt: "?c < unat ?m" by (simp add: word_le_nat_alt)
    then have "unat (cr_orders_in_window c + 1) = Suc ?c"
      using unsigned_less [of ?m, where 'a = nat] by (simp add: unat_word_ariths)
    then show ?thesis
      using Suc.IH [of ?R "c\<lparr>cr_orders_in_window := cr_orders_in_window c + 1\<rparr>"] later now lt
      by (simp add: check_rate_limit_def now_timestamp_def Let_def map_Suc word_le_nat_alt del: upt_Suc)
  qed
qed simp

lemma count_below: "length (filter (\<lambda>j. c + j < m) [0..<n]) = min n (m - c)"
  by (induction n) auto

text \<open>
  Claim C22. Inside one window the rate limit is exact: of the checks that fall into the window
  the first ones pass until the client has had the configured number of orders, and all later
  ones fail; the 32-bit counter never wraps.
\<close>

theorem rate_limit_exact_in_window:
  assumes "\<forall>j<n. rm_clock R (rm_ticks R + j) - cr_window_start c < RATE_LIMIT_WINDOW_NS"
  shows "length (filter id (rate_answers n c R)) =
     min n (unat (rc_max_orders_per_second (rm_config R)) - unat (cr_orders_in_window c))"
  unfolding rate_answers_in_window [OF assms] by (simp add: filter_map count_below comp_def)

theorem rate_limit_exact_in_window_witness:
  "length (filter id (rate_answers 1500
     \<lparr>cr_active_orders = {}, cr_notional = 0, cr_orders_in_window = 0, cr_window_start = 0\<rparr> ex_risk)) = 1000"
  by (subst rate_limit_exact_in_window)
    (simp_all add: ex_risk_def add_matching_engine_def rm_new_def ex_config_def RATE_LIMIT_WINDOW_NS_def)

section \<open>Exposure over time\<close>

text \<open>
  Everything that happens to a risk manager after its construction, with the orders it has
  approved so far. The worlds are arbitrary: engines drain their rings between the requests.
\<close>

inductive risk_history :: "risk \<Rightarrow> risk \<Rightarrow> order list \<Rightarrow> bool" for R0 :: risk where
  born: "risk_history R0 R0 []"
| order: "risk_history R0 R xs \<Longrightarrow> rings_ok W \<Longrightarrow> risk_process_new_order (Some p) R W = (Some r, R', W') \<Longrightarrow>
     risk_history R0 R' (if r = APPROVED then xs @ [w_ord W p] else xs)"
| null: "risk_history R0 R xs \<Longrightarrow> risk_process_new_order None R W = (r, R', W') \<Longrightarrow> risk_history R0 R' xs"
| cancel: "risk_history R0 R xs \<Longrightarrow> risk_process_cancel i w R W = (R', W') \<Longrightarrow> risk_history R0 R' xs"
| reference: "risk_history R0 R xs \<Longrightarrow> risk_history R0 (update_reference_price s p R) xs"
| engine: "risk_history R0 R xs \<Longrightarrow> risk_history R0 (add_matching_engine t e R) xs"
| submit: "risk_history R0 R xs \<Longrightarrow> rm_submit_order x R = (b, R') \<Longrightarrow> risk_history R0 R' xs"
| submit_cancel: "risk_history R0 R xs \<Longrightarrow> rm_submit_cancel i w R = (b, R') \<Longrightarrow> risk_history R0 R' xs"

lemma cancel_accounts:
  assumes "risk_process_cancel i w R W = (R', W')"
  shows "exposure R' = exposure R \<and> rm_max_notional_scaled R' = rm_max_notional_scaled R"
proof (cases "map_of (rm_clients R) (cstr w)")
  case None
  then show ?thesis using assms by (auto simp: risk_process_cancel_def Let_def)
next
  case (Some c)
  then have "exposure R (cstr w) = cr_notional c" by (simp add: exposure_def)
  then show ?thesis
    using assms Some
    by (auto simp: risk_process_cancel_def route_cancel_def Let_def fun_upd_idem split: if_splits option.splits)
qed

definition accounted :: "risk \<Rightarrow> risk \<Rightarrow> order list \<Rightarrow> bool" where
  "accounted R0 R xs \<longleftrightarrow> rm_max_notional_scaled R = rm_max_notional_scaled R0 \<and> (\<forall>k.
     exposure R k = (\<Sum>x\<leftarrow>filter (\<lambda>x. cstr (o_client x) = k) xs. calculate_notional_int x) \<and>
     exposure R k \<le> rm_max_notional_scaled R0)"

lemma accounted_same:
  assumes "accounted R0 R xs" "exposure R' = exposure R" "rm_max_notional_scaled R' = rm_max_notional_scaled R"
  shows "accounted R0 R' xs"
  using assms unfolding accounted_def by metis

lemma accounted_approved:
  assumes acc: "accounted R0 R xs" and ap: "order_approved p R W R' W'"
  shows "accounted R0 R' (xs @ [w_ord W p])"
proof -
  let ?k = "cstr (o_client (w_ord W p))"
  have new: "exposure R' = (exposure R)(?k := exposure R ?k + calculate_notional_int (w_ord W p))"
      "rm_max_notional_scaled R' = rm_max_notional_scaled R"
      "exposure R ?k + calculate_notional_int (w_ord W p) \<le> rm_max_notional_scaled R"
    using ap by (auto simp: order_approved_def passes_checks_def same_setup_def Let_def)
  have old: "rm_max_notional_scaled R = rm_max_notional_scaled R0" "exposure R k \<le> rm_max_notional_scaled R0"
      "(\<Sum>x\<leftarrow>filter (\<lambda>x. cstr (o_client x) = k) xs. calculate_notional_int x) = exposure R k" for k
    using acc unfolding accounted_def by metis+
  from new old(1,2) show ?thesis by (simp add: accounted_def old(3))
qed

lemma accounted_born: "\<forall>k. exposure R0 k = 0 \<Longrightarrow> accounted R0 R0 []"
  by (simp add: accounted_def)

lemma inert_operations:
  "accounted R0 R xs \<Longrightarrow> accounted R0 (update_reference_price s p R) xs"
  "accounted R0 R xs \<Longrightarrow> accounted R0 (add_matching_engine t e R) xs"
  "accounted R0 R xs \<Longrightarrow> rm_submit_order x R = (b, R') \<Longrightarrow> accounted R0 R' xs"
  "accounted R0 R xs \<Longrightarrow> rm_submit_cancel i w R = (b, R') \<Longrightarrow> accounted R0 R' xs"
  by (auto simp: update_reference_price_def add_matching_engine_def rm_submit_order_def rm_submit_cancel_def
    exposure_def fun_eq_iff Let_def split: if_splits prod.splits elim!: accounted_same)

lemma history_accounted:
  assumes "risk_history R0 R xs" "\<forall>k. exposure R0 k = 0"
  shows "accounted R0 R xs"
  using assms
proof (induction rule: risk_history.induct)
  case (order R xs W p r R' W')
  then have ih: "accounted R0 R xs" by blast
  show ?case
  proof (cases "r = APPROVED")
    case True
    with approvedD [of W p R R' W'] order.hyps accounted_approved [OF ih] show ?thesis by simp
  next
    case False
    with rejectedD [of W p R r R' W'] order.hyps accounted_same [OF ih] show ?thesis
      by (simp add: order_rejected_def same_setup_def)
  qed
next
  case (cancel R xs i w W R' W')
  then show ?case using accounted_same [of R0 R xs R'] cancel_accounts [OF cancel.hyps(2)] by blast
next
  case (null R xs W r R' W')
  then have "R' = count_risk (\<lambda>s. s\<lparr>rs_rejected := rs_rejected s + 1\<rparr>) R"
    by (simp add: risk_process_new_order_def)
  then show ?case using null accounted_same [of R0 R xs R'] by simp
qed (blast intro: accounted_born inert_operations)+

lemma sum_below_no_wrap:
  fixes f :: "'b \<Rightarrow> u64"
  assumes "\<forall>x\<in>set xs. unat (f x) = g x" "(\<Sum>x\<leftarrow>xs. g x) < 2 ^ 64"
  shows "unat (\<Sum>x\<leftarrow>xs. f x) = (\<Sum>x\<leftarrow>xs. g x)"
  using assms by (induction xs) (auto simp: unat_word_ariths)

text \<open>
  Claim C11. The exposure of a client is always the sum of the notionals of all its orders
  that were ever approved, modulo 2^64, and never above the limit; cancels do not reduce it.
  When the true total stays below 2^64 it is the true total, so the credit limit holds for
  the sum of price times quantity over everything approved.
\<close>

theorem exposure_is_the_approved_total:
  assumes "risk_history (rm_new rnd config symbols clk) R xs"
    and "mine = filter (\<lambda>x. cstr (o_client x) = k) xs"
  shows "exposure R k = (\<Sum>x\<leftarrow>mine. calculate_notional_int x) \<and> exposure R k \<le> rm_max_notional_scaled R \<and>
     ((\<Sum>x\<leftarrow>mine. unat (o_price x) * unat (o_quantity x)) < 2 ^ 64 \<longrightarrow>
        (\<Sum>x\<leftarrow>mine. unat (o_price x) * unat (o_quantity x)) \<le> unat (rm_max_notional_scaled R))"
proof -
  have "\<forall>k. exposure (rm_new rnd config symbols clk) k = 0" by (simp add: exposure_def rm_new_def)
  then have e: "exposure R k = (\<Sum>x\<leftarrow>mine. calculate_notional_int x)" "exposure R k \<le> rm_max_notional_scaled R"
    using history_accounted [OF assms(1)] assms(2) unfolding accounted_def by metis+
  have "unat (exposure R k) = (\<Sum>x\<leftarrow>mine. unat (o_price x) * unat (o_quantity x))"
    if small: "(\<Sum>x\<leftarrow>mine. unat (o_price x) * unat (o_quantity x)) < 2 ^ 64"
  proof -
    have "\<forall>x\<in>set mine. unat (calculate_notional_int x) = unat (o_price x) * unat (o_quantity x)"
      using small member_le_sum_list [of _ "map (\<lambda>x. unat (o_price x) * unat (o_quantity x)) mine"]
      by (fastforce simp: calculate_notional_int_def unat_word_ariths)
    then show ?thesis unfolding e(1) using small by (rule sum_below_no_wrap)
  qed
  then show ?thesis using e by (auto simp: word_le_nat_alt)
qed

theorem exposure_is_the_approved_total_witness:
  "\<exists>R. risk_history (rm_new id ex_config [ex_symbol [65]] (\<lambda>_. 0)) R [ex_order 1 BUY LIMIT 5 100] \<and>
     exposure R (cstr (fs_new client_id_size (Some [67]))) = 500"
proof -
  let ?x = "ex_order 1 BUY LIMIT 5 100" and ?y = "ex_order 2 BUY LIMIT 8 101"
  obtain R W where ok: "risk_process_new_order (Some 0) ex_risk (ex_world ?x ?y) = (Some APPROVED, R, W)"
    using ex_approved [OF _ _ _ refl, of 5 100 1 BUY LIMIT ?y] by auto
  have "risk_history (rm_new id ex_config [ex_symbol [65]] (\<lambda>_. 0)) ex_risk []"
    unfolding ex_risk_def by (intro risk_history.engine risk_history.born)
  from risk_history.order [OF this ex_world_facts(1) ok]
  have h: "risk_history (rm_new id ex_config [ex_symbol [65]] (\<lambda>_. 0)) R [?x]"
    by (simp add: ex_world_facts)
  then show ?thesis
    using exposure_is_the_approved_total [OF h refl, of "cstr (o_client ?x)"]
    by (auto simp: calculate_notional_int_def)
qed

section \<open>Cancels\<close>

lemma cancel_outcome:
  assumes "rings_ok W" "risk_process_cancel i w R W = (R', W')" "k = cstr w"
  shows "if i \<notin> active R k
     then W' = W \<and> R' = count_risk (\<lambda>s. s\<lparr>rs_cancels_rejected := rs_cancels_rejected s + 1\<rparr>) R
     else active R' = (active R)(k := active R k - {i}) \<and> exposure R' = exposure R \<and>
       map_of (rm_order_symbol R') = (map_of (rm_order_symbol R))(i := None) \<and>
       rs_cancels_accepted (rm_local R') = rs_cancels_accepted (rm_local R) + 1 \<and>
       (\<forall>s e. map_of (rm_order_symbol R) i = Some s \<longrightarrow> map_of (rm_matching_engines R) (cstr s) = Some e \<longrightarrow>
          e < length (w_engines W) \<longrightarrow>
          rings W' = (rings W)[e := rings W ! e @
            (if length (rings W ! e) < sq_cap (en_input (w_engines W ! e)) then [CANCEL_ORDER i w] else [])])"
proof (cases "map_of (rm_clients R) k")
  case None
  then show ?thesis using assms(2,3) by (simp add: risk_process_cancel_def active_def Let_def)
next
  case (Some c)
  then have c: "active R k = cr_active_orders c" "exposure R k = cr_notional c"
    by (simp_all add: active_def exposure_def)
  have ring: "rings (W\<lparr>w_engines := (w_engines W)[e := snd (en_cancel_order i w (w_engines W ! e))]\<rparr>) =
      (rings W)[e := rings W ! e @
        (if length (rings W ! e) < sq_cap (en_input (w_engines W ! e)) then [CANCEL_ORDER i w] else [])]"
    if "e < length (w_engines W)" for e
    using that assms(1) submit_request_ring [of "CANCEL_ORDER i w" "w_engines W ! e"]
    by (cases "submit_request (CANCEL_ORDER i w) (w_engines W ! e)")
      (auto simp: rings_def rings_ok_def map_update en_cancel_order_def make_cancel_def)
  show ?thesis
    using assms(2) Some c ring unfolding assms(3)
    by (auto simp: risk_process_cancel_def route_cancel_def Let_def fun_upd_idem delete_conv'
      split: option.splits if_splits)
qed

text \<open>
  Claim C20. A cancel for an order that is not an active one of the asking client changes
  nothing but a counter. Otherwise the order is no longer active, its route is forgotten, and
  the engine to which the id is routed is asked, at the end of its ring if it has room; when
  it has none the request is lost although it is counted as accepted.
\<close>

theorem cancel_needs_an_active_order:
  assumes "rings_ok W" "risk_process_cancel i w R W = (R', W')" "k = cstr w"
  shows "if i \<notin> active R k
     then W' = W \<and> R' = count_risk (\<lambda>s. s\<lparr>rs_cancels_rejected := rs_cancels_rejected s + 1\<rparr>) R
     else active R' = (active R)(k := active R k - {i}) \<and> exposure R' = exposure R \<and>
       map_of (rm_order_symbol R') = (map_of (rm_order_symbol R))(i := None) \<and>
       rs_cancels_accepted (rm_local R') = rs_cancels_accepted (rm_local R) + 1 \<and>
       (\<forall>s e. map_of (rm_order_symbol R) i = Some s \<longrightarrow> map_of (rm_matching_engines R) (cstr s) = Some e \<longrightarrow>
          e < length (w_engines W) \<longrightarrow>
          rings W' = (rings W)[e := rings W ! e @
            (if length (rings W ! e) < sq_cap (en_input (w_engines W ! e)) then [CANCEL_ORDER i w] else [])])"
  by (rule cancel_outcome [OF assms])

theorem cancel_needs_an_active_order_witness:
  "\<exists>R'. risk_process_cancel 7 [67] ex_risk (ex_world default_order default_order) =
       (R', ex_world default_order default_order) \<and> rs_cancels_rejected (rm_local R') = 1"
proof -
  obtain R' W' where c: "risk_process_cancel 7 [67] ex_risk (ex_world default_order default_order) = (R', W')" by force
  have "rs_cancels_rejected (rm_local ex_risk) = 0"
    by (simp add: ex_risk_def add_matching_engine_def rm_new_def risk_stats_zero_def)
  with cancel_needs_an_active_order [OF ex_world_facts(1) c refl] c show ?thesis
    by (simp add: ex_risk_facts)
qed

text \<open>
  A cancel follows the newest route of an order id, whoever owns it. Ids are unique
  per client only, but the index of routes has one entry per id. When a client has an active
  order and another client's order with the same id is approved, the first client's cancel is
  sent to the engine of the other client's order, and the route of the id is gone.
\<close>

theorem cancel_follows_the_newest_route:
  assumes "rings_ok W" "risk_process_new_order (Some p) R W = (Some APPROVED, R1, W1)"
    and "i = o_id (w_ord W p)" "i \<in> active R (cstr w)" "cstr w \<noteq> cstr (o_client (w_ord W p))"
    and "map_of (rm_matching_engines R) (cstr (o_symbol (w_ord W p))) = Some e" "e < length (w_engines W)"
    and "Suc (length (rings W ! e)) < sq_cap (en_input (w_engines W ! e))"
  shows "\<exists>R2 W2. risk_process_cancel i w R1 W1 = (R2, W2) \<and>
     rings W2 = (rings W)[e := rings W ! e @ [NEW_ORDER (Some p), CANCEL_ORDER i w]] \<and>
     i \<in> active R2 (cstr (o_client (w_ord W p))) \<and> map_of (rm_order_symbol R2) i = None"
proof -
  note ap = approvedD [OF assms(1,2)]
  then have R1: "active R1 = (active R)(cstr (o_client (w_ord W p)) := insert i (active R (cstr (o_client (w_ord W p)))))"
    "map_of (rm_order_symbol R1) i = Some (o_symbol (w_ord W p))" "rm_matching_engines R1 = rm_matching_engines R"
    by (simp_all add: order_approved_def same_setup_def Let_def update_conv' assms(3))
  have W1: "rings_ok W1" "rings W1 = (rings W)[e := rings W ! e @ [NEW_ORDER (Some p)]]"
    and cap: "map (\<lambda>E. sq_cap (en_input E)) (w_engines W1) = map (\<lambda>E. sq_cap (en_input E)) (w_engines W)"
    by (rule approved_ring [OF ap assms(1)]; use assms(6,7) in simp)+
  have len: "length (w_engines W1) = length (w_engines W)" using cap by (rule map_eq_imp_length_eq)
  then have "sq_cap (en_input (w_engines W1 ! e)) = sq_cap (en_input (w_engines W ! e))"
    using cap assms(7) by (metis nth_map)
  moreover obtain R2 W2 where c: "risk_process_cancel i w R1 W1 = (R2, W2)" by force
  ultimately show ?thesis
    using cancel_outcome [OF W1(1) c refl] R1 W1(2) len assms(3-8)
    by (auto simp: rings_def)
qed

theorem cancel_follows_the_newest_route_witness:
  "\<exists>R R1 W1 R2 W2.
     risk_process_new_order (Some 0) R (ex_world (ex_order 1 BUY LIMIT 5 100) default_order) = (Some APPROVED, R1, W1) \<and>
     risk_process_cancel 1 [68] R1 W1 = (R2, W2) \<and> rings W2 = [[NEW_ORDER (Some 0), CANCEL_ORDER 1 [68]]]"
proof -
  let ?c = "\<lparr>cr_active_orders = {1}, cr_notional = 0, cr_orders_in_window = 0, cr_window_start = 0\<rparr> :: client_risk_state"
  let ?R = "put_client [68] ?c ex_risk" and ?x = "ex_order 1 BUY LIMIT 5 100"
  let ?W = "ex_world ?x default_order"
  have k: "cstr (fs_new client_id_size (Some [67])) = [67]" "cstr [68] = [68]" by code_simp+
  have x: "o_id ?x = 1" by (simp add: ex_order_def make_order_def)
  have rate: "fst (rate_checked [67] ?R)"
    by (simp add: rate_checked_def get_or_create_client_def check_rate_limit_def now_timestamp_def
      ex_risk_def add_matching_engine_def rm_new_def put_client_def ex_config_def Let_def RATE_LIMIT_WINDOW_NS_def)
  have "passes_checks ?x (ex_symbol [65]) ?R"
    using ex_passes [of 5 100 1 BUY LIMIT]
    by (simp add: passes_checks_def k check_price_collar_int_def calculate_notional_int_def)
  then obtain R1 W1 where ok: "risk_process_new_order (Some 0) ?R ?W = (Some APPROVED, R1, W1)"
    using risk_new_complete [of ?W 0 ?R "ex_symbol [65]" 0] rate by (auto simp: ex_world_facts ex_risk_facts k)
  have "Suc (length (rings ?W ! 0)) < sq_cap (en_input (w_engines ?W ! 0))"
    using ex_world_facts(8) [of ?x default_order] by (simp add: ex_world_facts(5))
  with cancel_follows_the_newest_route [OF ex_world_facts(1) ok refl, of "[68]" 0]
  have "\<exists>R2 W2. risk_process_cancel 1 [68] R1 W1 = (R2, W2) \<and> rings W2 = [[NEW_ORDER (Some 0), CANCEL_ORDER 1 [68]]]"
    by (auto simp: ex_world_facts ex_risk_facts k x)
  then show ?thesis using ok by blast
qed

end
