(* ===== verification/RTES_Memory_Safety.thy ===== *)
theory RTES_Memory_Safety
  imports RTES_Types
begin

text \<open>
  The safety primitives (\<^verbatim>\<open>include/rtes/memory_safety.hpp\<close>, \<^verbatim>\<open>src/memory_safety.cpp\<close>): the
  bounds-checked buffers, the bounded string, the owner of a file descriptor and the aligned
  buffer. A copy that leaves its arrays is undefined behaviour in C++; here it is the error
  \<open>Undefined\<close>, so that its absence can be proved.
\<close>

datatype buffer_error =
    Read_out_of_bounds | Write_out_of_bounds
  | Write_exceeds_capacity | Read_exceeds_used | Append_exceeds_capacity
  | String_too_long u64 | Index_out_of_range | Bad_alloc | Guard_pages_failed
  | Undefined

definition memcpy_into :: "byte list \<Rightarrow> u64 \<Rightarrow> byte list \<Rightarrow> u64 \<Rightarrow> buffer_error + byte list" where
  "memcpy_into dest offset src len =
     (if unat offset + unat len \<le> length dest \<and> unat len \<le> length src
      then Inr (take (unat offset) dest @ take (unat len) src @ drop (unat offset + unat len) dest)
      else Inl Undefined)"

definition memcpy_from :: "byte list \<Rightarrow> u64 \<Rightarrow> u64 \<Rightarrow> buffer_error + byte list" where
  "memcpy_from src offset len =
     (if unat offset + unat len \<le> length src then Inr (take (unat len) (drop (unat offset) src))
      else Inl Undefined)"

section \<open>BoundsCheckedBuffer\<close>

record checked_buffer =
  cb_bytes :: "byte list"
  cb_size :: u64

definition GUARD_SIZE :: u64 where "GUARD_SIZE = 4096"

text \<open>
  The answers of \<open>mmap\<close>, by size, and of \<open>mprotect\<close>, by distance from the start of the
  mapping, are arguments. An anonymous mapping is zero-filled; the bytes between the two guard
  pages are what the total size leaves of it.
\<close>

definition cb_new :: "(u64 \<Rightarrow> bool) \<Rightarrow> (u64 \<Rightarrow> bool) \<Rightarrow> u64 \<Rightarrow> buffer_error + checked_buffer" where
  "cb_new mmap_ok mprotect_ok sz =
     (let total_size = sz + 2 * GUARD_SIZE in
      if \<not> mmap_ok total_size then Inl Bad_alloc
      else if \<not> mprotect_ok 0 then Inl Guard_pages_failed
      else if \<not> mprotect_ok (GUARD_SIZE + sz) then Inl Guard_pages_failed
      else Inr \<lparr>cb_bytes = replicate (unat total_size - 2 * unat GUARD_SIZE) 0, cb_size = sz\<rparr>)"

definition validate_range :: "u64 \<Rightarrow> u64 \<Rightarrow> checked_buffer \<Rightarrow> bool" where
  "validate_range offset len b \<longleftrightarrow> offset \<le> cb_size b \<and> len \<le> cb_size b - offset"

definition checked_read :: "u64 \<Rightarrow> u64 \<Rightarrow> checked_buffer \<Rightarrow> buffer_error + byte list" where
  "checked_read offset len b =
     (if \<not> validate_range offset len b then Inl Read_out_of_bounds
      else memcpy_from (cb_bytes b) offset len)"

definition checked_write :: "byte list \<Rightarrow> u64 \<Rightarrow> u64 \<Rightarrow> checked_buffer \<Rightarrow> buffer_error + checked_buffer" where
  "checked_write src offset len b =
     (if \<not> validate_range offset len b then Inl Write_out_of_bounds
      else map_sum id (\<lambda>d. b\<lparr>cb_bytes := d\<rparr>) (memcpy_into (cb_bytes b) offset src len))"

section \<open>FixedSizeBuffer\<close>

record fixed_buffer =
  xb_data :: "byte list"
  xb_used :: u64

definition xb_new :: "u64 \<Rightarrow> fixed_buffer" where
  "xb_new cap = \<lparr>xb_data = replicate (unat cap) 0, xb_used = 0\<rparr>"

definition xb_write :: "u64 \<Rightarrow> byte list \<Rightarrow> u64 \<Rightarrow> fixed_buffer \<Rightarrow> buffer_error + fixed_buffer" where
  "xb_write cap src len b =
     (if cap < len then Inl Write_exceeds_capacity
      else map_sum id (\<lambda>d. b\<lparr>xb_data := d, xb_used := len\<rparr>) (memcpy_into (xb_data b) 0 src len))"

definition xb_read :: "u64 \<Rightarrow> fixed_buffer \<Rightarrow> buffer_error + byte list" where
  "xb_read len b = (if xb_used b < len then Inl Read_exceeds_used else memcpy_from (xb_data b) 0 len)"

definition xb_append :: "u64 \<Rightarrow> byte list \<Rightarrow> u64 \<Rightarrow> fixed_buffer \<Rightarrow> buffer_error + fixed_buffer" where
  "xb_append cap src len b =
     (if cap < xb_used b + len then Inl Append_exceeds_capacity
      else map_sum id (\<lambda>d. b\<lparr>xb_data := d, xb_used := xb_used b + len\<rparr>)
             (memcpy_into (xb_data b) (xb_used b) src len))"

definition xb_remaining :: "u64 \<Rightarrow> fixed_buffer \<Rightarrow> u64" where
  "xb_remaining cap b = cap - xb_used b"

definition xb_empty :: "fixed_buffer \<Rightarrow> bool" where
  "xb_empty b \<longleftrightarrow> xb_used b = 0"

definition xb_full :: "u64 \<Rightarrow> fixed_buffer \<Rightarrow> bool" where
  "xb_full cap b \<longleftrightarrow> xb_used b = cap"

definition xb_clear :: "fixed_buffer \<Rightarrow> fixed_buffer" where
  "xb_clear b = b\<lparr>xb_used := 0\<rparr>"

section \<open>BoundedString\<close>

text \<open>A string argument is the bytes before its terminator; the null pointer is None.\<close>

record bounded_string =
  bs_data :: "byte list"
  bs_length :: u64

definition bs_default :: "u64 \<Rightarrow> bounded_string" where
  "bs_default N = \<lparr>bs_data = replicate (unat N) 0, bs_length = 0\<rparr>"

definition bs_clear :: "bounded_string \<Rightarrow> bounded_string" where
  "bs_clear s = \<lparr>bs_data = (bs_data s)[0 := 0], bs_length = 0\<rparr>"

definition bs_put :: "byte list \<Rightarrow> u64 \<Rightarrow> bounded_string \<Rightarrow> buffer_error + bounded_string" where
  "bs_put str len s =
     map_sum id (\<lambda>d. \<lparr>bs_data = d[unat len := 0], bs_length = len\<rparr>) (memcpy_into (bs_data s) 0 str len)"

definition bs_assign_view :: "u64 \<Rightarrow> byte list \<Rightarrow> u64 \<Rightarrow> bounded_string \<Rightarrow> buffer_error + bounded_string" where
  "bs_assign_view N str len s =
     (if N \<le> len then Inl (String_too_long len) else bs_put str len s)"

definition bs_assign :: "u64 \<Rightarrow> byte list option \<Rightarrow> bounded_string \<Rightarrow> buffer_error + bounded_string" where
  "bs_assign N str s =
     (case str of
        None \<Rightarrow> Inr (bs_clear s)
      | Some t \<Rightarrow> bs_assign_view N (cstr t) (of_nat (length (cstr t))) s)"

definition bs_new :: "u64 \<Rightarrow> byte list option \<Rightarrow> buffer_error + bounded_string" where
  "bs_new N str = (if str = None then Inr (bs_default N) else bs_assign N str (bs_default N))"

definition bs_new_view :: "u64 \<Rightarrow> byte list \<Rightarrow> buffer_error + bounded_string" where
  "bs_new_view N sv = bs_assign_view N sv (of_nat (length sv)) (bs_default N)"

definition bs_assign_truncate :: "u64 \<Rightarrow> byte list option \<Rightarrow> bounded_string \<Rightarrow> buffer_error + bounded_string" where
  "bs_assign_truncate N str s =
     (case str of
        None \<Rightarrow> Inr (bs_clear s)
      | Some t \<Rightarrow>
          let len = (of_nat (length (cstr t)) :: u64);
              len = (if N \<le> len then N - 1 else len)
          in bs_put (cstr t) len s)"

definition bs_c_str :: "bounded_string \<Rightarrow> byte list" where
  "bs_c_str s = cstr (bs_data s)"

definition bs_max_length :: "u64 \<Rightarrow> u64" where
  "bs_max_length N = N - 1"

definition bs_empty :: "bounded_string \<Rightarrow> bool" where
  "bs_empty s \<longleftrightarrow> bs_length s = 0"

definition bs_view :: "bounded_string \<Rightarrow> byte list" where
  "bs_view s = take (unat (bs_length s)) (bs_data s)"

definition bs_eq :: "bounded_string \<Rightarrow> bounded_string \<Rightarrow> bool" where
  "bs_eq s t \<longleftrightarrow> bs_length s = bs_length t \<and>
     take (unat (bs_length s)) (bs_data s) = take (unat (bs_length s)) (bs_data t)"

definition bs_eq_cstr :: "u64 \<Rightarrow> bounded_string \<Rightarrow> byte list option \<Rightarrow> bool" where
  "bs_eq_cstr N s str =
     (case str of
        None \<Rightarrow> bs_length s = 0
      | Some t \<Rightarrow> strncmp_eq (unat N) (bs_data s) (cstr t @ [0]))"

text \<open>Copying takes the used bytes and the terminator; the rest of the target stays.\<close>

definition bs_copy_onto :: "bounded_string \<Rightarrow> bounded_string \<Rightarrow> buffer_error + bounded_string" where
  "bs_copy_onto other s =
     map_sum id (\<lambda>d. \<lparr>bs_data = d, bs_length = bs_length other\<rparr>)
       (memcpy_into (bs_data s) 0 (bs_data other) (bs_length other + 1))"

definition bs_copy :: "u64 \<Rightarrow> bounded_string \<Rightarrow> buffer_error + bounded_string" where
  "bs_copy N other = bs_copy_onto other (bs_default N)"

definition bs_move :: "u64 \<Rightarrow> bounded_string \<Rightarrow> buffer_error + bounded_string \<times> bounded_string" where
  "bs_move N other = map_sum id (\<lambda>s. (s, bs_clear other)) (bs_copy N other)"

definition bs_move_onto :: "bounded_string \<Rightarrow> bounded_string \<Rightarrow> buffer_error + bounded_string \<times> bounded_string" where
  "bs_move_onto other s = map_sum id (\<lambda>s'. (s', bs_clear other)) (bs_copy_onto other s)"

fun digits :: "nat \<Rightarrow> byte list" where
  "digits n = (if n < 10 then [of_nat (48 + n)] else digits (n div 10) @ [of_nat (48 + n mod 10)])"

declare digits.simps [simp del]

definition digits_int :: "int \<Rightarrow> byte list" where
  "digits_int i = (if i < 0 then 45 # digits (nat (- i)) else digits (nat i))"

text \<open>\<open>snprintf\<close> returns the number of characters and stores at most 20 of them and a zero.\<close>

definition bs_of_text :: "u64 \<Rightarrow> byte list \<Rightarrow> buffer_error + bounded_string" where
  "bs_of_text N text =
     (let buf = take 20 text @ [0]; len = (of_nat (length text) :: u64)
      in if text \<noteq> [] \<and> len < N then bs_assign_view N buf len (bs_default N) else Inr (bs_default N))"

definition to_bounded_string_u64 :: "u64 \<Rightarrow> u64 \<Rightarrow> buffer_error + bounded_string" where
  "to_bounded_string_u64 N val = bs_of_text N (digits (unat val))"

definition to_bounded_string_i64 :: "u64 \<Rightarrow> u64 \<Rightarrow> buffer_error + bounded_string" where
  "to_bounded_string_i64 N val = bs_of_text N (digits_int (sint val))"

section \<open>FileDescriptor\<close>

text \<open>The second component of a state is the log of the descriptors given to \<open>::close\<close>.\<close>

type_synonym 'a closing = "'a \<times> int list"

definition fd_close :: "int \<Rightarrow> int list \<Rightarrow> int closing" where
  "fd_close fd closed = (if 0 \<le> fd then (-1, closed @ [fd]) else (fd, closed))"

definition fd_valid :: "int \<Rightarrow> bool" where
  "fd_valid fd \<longleftrightarrow> 0 \<le> fd"

definition fd_release :: "int \<Rightarrow> int \<times> int" where
  "fd_release fd = (fd, -1)"

definition fd_reset :: "int \<Rightarrow> int \<Rightarrow> int list \<Rightarrow> int closing" where
  "fd_reset new_fd fd closed = (new_fd, snd (fd_close fd closed))"

definition fd_move :: "int \<Rightarrow> int \<times> int" where
  "fd_move other = (other, -1)"

definition fd_move_onto :: "int \<Rightarrow> int \<Rightarrow> int list \<Rightarrow> (int \<times> int) closing" where
  "fd_move_onto other fd closed = ((other, -1), snd (fd_close fd closed))"

section \<open>AlignedBuffer\<close>

record 'a aligned_buffer =
  ab_items :: "'a list"
  ab_count :: u64

definition round_to_alignment :: "u64 \<Rightarrow> u64 \<Rightarrow> u64" where
  "round_to_alignment alignment bytes = (bytes + alignment - 1) AND (NOT (alignment - 1))"

text \<open>The elements that fit into the bytes obtained, zero-initialised.\<close>

definition ab_new :: "bool \<Rightarrow> 'a \<Rightarrow> u64 \<Rightarrow> u64 \<Rightarrow> u64 \<Rightarrow> buffer_error + 'a aligned_buffer" where
  "ab_new alloc_ok zero item_size count alignment =
     (let bytes = item_size * count
      in if \<not> alloc_ok then Inl Bad_alloc
         else Inr \<lparr>ab_items = replicate (unat (round_to_alignment alignment bytes) div unat item_size) zero,
                   ab_count = count\<rparr>)"

definition ab_get :: "'a aligned_buffer \<Rightarrow> u64 \<Rightarrow> buffer_error + 'a" where
  "ab_get b i = (if unat i < length (ab_items b) then Inr (ab_items b ! unat i) else Inl Undefined)"

definition ab_at :: "'a aligned_buffer \<Rightarrow> u64 \<Rightarrow> buffer_error + 'a" where
  "ab_at b i = (if ab_count b \<le> i then Inl Index_out_of_range else ab_get b i)"

definition ab_move :: "'a aligned_buffer \<Rightarrow> 'a aligned_buffer \<times> 'a aligned_buffer" where
  "ab_move other = (other, \<lparr>ab_items = [], ab_count = 0\<rparr>)"

definition ab_empty :: "'a aligned_buffer \<Rightarrow> bool" where
  "ab_empty b \<longleftrightarrow> ab_count b = 0"

end
