(* ===== verification/RTES_Protocol.thy ===== *)
theory RTES_Protocol
  imports RTES_Memory_Safety
begin

text \<open>
  The wire protocol (\<^verbatim>\<open>include/rtes/protocol.hpp\<close>, \<^verbatim>\<open>src/protocol.cpp\<close>): the packed
  messages as they lie in memory on a little-endian machine, and the CRC-32 of a payload.
  A \<open>BoundedString<N>\<close> inside a message occupies its N bytes, padded to a multiple of eight,
  and the eight bytes of its length.
\<close>

section \<open>Little-endian words\<close>

fun le :: "byte list \<Rightarrow> 'a::len word" where
  "le [] = 0"
| "le (b # bs) = ucast b OR push_bit 8 (le bs)"

fun to_le :: "nat \<Rightarrow> 'a::len word \<Rightarrow> byte list" where
  "to_le 0 w = []"
| "to_le (Suc n) w = ucast w # to_le n (drop_bit 8 w)"

definition field :: "nat \<Rightarrow> nat \<Rightarrow> byte list \<Rightarrow> byte list" where
  "field offset len bs = take len (drop offset bs)"

section \<open>Messages\<close>

record message_header =
  mh_type :: u32
  mh_length :: u32
  mh_sequence :: u64
  mh_timestamp :: u64
  mh_checksum :: u32

definition make_header :: "u32 \<Rightarrow> u32 \<Rightarrow> u64 \<Rightarrow> u64 \<Rightarrow> message_header" where
  "make_header t len seq ts =
     \<lparr>mh_type = t, mh_length = len, mh_sequence = seq, mh_timestamp = ts, mh_checksum = 0\<rparr>"

definition MT_NEW_ORDER :: u32 where "MT_NEW_ORDER = 1"
definition MT_CANCEL_ORDER :: u32 where "MT_CANCEL_ORDER = 2"
definition MT_ORDER_ACK :: u32 where "MT_ORDER_ACK = 101"
definition MT_TRADE_REPORT :: u32 where "MT_TRADE_REPORT = 102"
definition MT_HEARTBEAT :: u32 where "MT_HEARTBEAT = 200"

definition sizeof_MessageHeader :: nat where "sizeof_MessageHeader = 28"
definition sizeof_NewOrderMessage :: nat where "sizeof_NewOrderMessage = 110"
definition sizeof_CancelOrderMessage :: nat where "sizeof_CancelOrderMessage = 92"
definition sizeof_OrderAckMessage :: nat where "sizeof_OrderAckMessage = 77"

definition header_of_bytes :: "byte list \<Rightarrow> message_header" where
  "header_of_bytes bs =
     \<lparr>mh_type = le (field 0 4 bs), mh_length = le (field 4 4 bs), mh_sequence = le (field 8 8 bs),
      mh_timestamp = le (field 16 8 bs), mh_checksum = le (field 24 4 bs)\<rparr>"

definition bytes_of_header :: "message_header \<Rightarrow> byte list" where
  "bytes_of_header h =
     to_le 4 (mh_type h) @ to_le 4 (mh_length h) @ to_le 8 (mh_sequence h) @
     to_le 8 (mh_timestamp h) @ to_le 4 (mh_checksum h)"

definition string_of_bytes :: "nat \<Rightarrow> byte list \<Rightarrow> bounded_string" where
  "string_of_bytes N bs = \<lparr>bs_data = take N bs, bs_length = le (field N 8 bs)\<rparr>"

definition bytes_of_string :: "bounded_string \<Rightarrow> byte list" where
  "bytes_of_string s = bs_data s @ to_le 8 (bs_length s)"

record new_order_message =
  no_header :: message_header
  no_order_id :: u64
  no_client_id :: bounded_string
  no_symbol :: bounded_string
  no_side :: u8
  no_quantity :: u64
  no_price :: u64
  no_order_type :: u8

definition new_order_of_bytes :: "byte list \<Rightarrow> new_order_message" where
  "new_order_of_bytes bs =
     \<lparr>no_header = header_of_bytes bs, no_order_id = le (field 28 8 bs),
      no_client_id = string_of_bytes 32 (drop 36 bs), no_symbol = string_of_bytes 8 (drop 76 bs),
      no_side = bs ! 92, no_quantity = le (field 93 8 bs), no_price = le (field 101 8 bs),
      no_order_type = bs ! 109\<rparr>"

definition bytes_of_new_order :: "new_order_message \<Rightarrow> byte list" where
  "bytes_of_new_order m =
     bytes_of_header (no_header m) @ to_le 8 (no_order_id m) @ bytes_of_string (no_client_id m) @
     bytes_of_string (no_symbol m) @ [no_side m] @ to_le 8 (no_quantity m) @ to_le 8 (no_price m) @
     [no_order_type m]"

record cancel_order_message =
  co_header :: message_header
  co_order_id :: u64
  co_client_id :: bounded_string
  co_symbol :: bounded_string

definition cancel_order_of_bytes :: "byte list \<Rightarrow> cancel_order_message" where
  "cancel_order_of_bytes bs =
     \<lparr>co_header = header_of_bytes bs, co_order_id = le (field 28 8 bs),
      co_client_id = string_of_bytes 32 (drop 36 bs), co_symbol = string_of_bytes 8 (drop 76 bs)\<rparr>"

definition bytes_of_cancel_order :: "cancel_order_message \<Rightarrow> byte list" where
  "bytes_of_cancel_order m =
     bytes_of_header (co_header m) @ to_le 8 (co_order_id m) @ bytes_of_string (co_client_id m) @
     bytes_of_string (co_symbol m)"

record order_ack_message =
  oa_header :: message_header
  oa_order_id :: u64
  oa_status :: u8
  oa_reason :: bounded_string

definition bytes_of_order_ack :: "order_ack_message \<Rightarrow> byte list" where
  "bytes_of_order_ack m =
     bytes_of_header (oa_header m) @ to_le 8 (oa_order_id m) @ [oa_status m] @ bytes_of_string (oa_reason m)"

definition order_ack_of_bytes :: "byte list \<Rightarrow> order_ack_message" where
  "order_ack_of_bytes bs =
     \<lparr>oa_header = header_of_bytes bs, oa_order_id = le (field 28 8 bs), oa_status = bs ! 36,
      oa_reason = string_of_bytes 32 (drop 37 bs)\<rparr>"

record trade_message =
  tm_header :: message_header
  tm_trade_id :: u64
  tm_buy_order_id :: u64
  tm_sell_order_id :: u64
  tm_symbol :: bounded_string
  tm_quantity :: u64
  tm_price :: u64
  tm_timestamp_ns :: u64

record heartbeat_message =
  hb_header :: message_header
  hb_timestamp_ns :: u64

section \<open>Checksum\<close>

definition crc_bit :: "u32 \<Rightarrow> u32" where
  "crc_bit crc = (if bit crc 0 then drop_bit 1 crc XOR 0xEDB88320 else drop_bit 1 crc)"

definition crc_byte :: "u32 \<Rightarrow> byte \<Rightarrow> u32" where
  "crc_byte crc b = (crc_bit ^^ 8) (crc XOR ucast b)"

definition calculate_checksum :: "byte list \<Rightarrow> nat \<Rightarrow> u32" where
  "calculate_checksum data len = NOT (foldl crc_byte 0xFFFFFFFF (take len data))"

definition validate_checksum :: "message_header \<Rightarrow> byte list option \<Rightarrow> bool" where
  "validate_checksum header payload =
     (if unat (mh_length header) < sizeof_MessageHeader \<or> 8192 < mh_length header then False
      else case payload of
             None \<Rightarrow> False
           | Some data \<Rightarrow>
               calculate_checksum data (unat (mh_length header) - sizeof_MessageHeader) = mh_checksum header)"

definition set_checksum :: "message_header \<Rightarrow> byte list option \<Rightarrow> message_header" where
  "set_checksum header payload =
     (if unat (mh_length header) < sizeof_MessageHeader \<or> 8192 < mh_length header then header\<lparr>mh_checksum := 0\<rparr>
      else case payload of
             None \<Rightarrow> header\<lparr>mh_checksum := 0\<rparr>
           | Some data \<Rightarrow> header\<lparr>mh_checksum :=
               calculate_checksum data (unat (mh_length header) - sizeof_MessageHeader)\<rparr>)"

section \<open>Round trips\<close>

lemma length_to_le [simp]: "length (to_le n w) = n"
  by (induction n w rule: to_le.induct) auto

lemma le_to_le: "le (to_le n w) = take_bit (8 * n) w"
proof (induction n w rule: to_le.induct)
  case (2 n w)
  show ?case
    by (rule bit_eqI) (auto simp: 2 bit_simps not_less)
qed simp

lemma le_to_le_full [simp]:
  "le (to_le 4 (w :: u32)) = w" "le (to_le 8 (x :: u64)) = x"
  by (simp_all add: le_to_le take_bit_word_eq_self)

lemma field_append [simp]:
  "offset = length xs \<Longrightarrow> len = length ys \<Longrightarrow> field offset len (xs @ ys @ zs) = ys"
  by (simp add: field_def)

lemma length_bytes_of_header [simp]: "length (bytes_of_header h) = 28"
  by (simp add: bytes_of_header_def)

end
