(* ===== verification/RTES_Gateway.thy ===== *)
theory RTES_Gateway
  imports RTES_Risk RTES_Protocol
begin

text \<open>
  The TCP gateway (\<^verbatim>\<open>include/rtes/tcp_gateway.hpp\<close>, \<^verbatim>\<open>src/tcp_gateway.cpp\<close>): connections with
  their read buffers, the framing of messages, the handling of new orders and cancels, the
  acknowledgements, and the statistics. What the operating system answers to \<open>accept\<close>,
  \<open>recv\<close> and \<open>send\<close> is an argument or part of the state; setting up sockets is left out.
\<close>

section \<open>Read buffer\<close>

definition READ_BUFFER_SIZE :: u64 where "READ_BUFFER_SIZE = 8192"

record read_buffer =
  rb_buf :: "byte list"
  rb_used :: u64

definition rb_new :: read_buffer where
  "rb_new = \<lparr>rb_buf = replicate (unat READ_BUFFER_SIZE) 0, rb_used = 0\<rparr>"

definition rb_append :: "byte list \<Rightarrow> u64 \<Rightarrow> read_buffer \<Rightarrow> buffer_error + bool \<times> read_buffer" where
  "rb_append data len b =
     (if READ_BUFFER_SIZE < rb_used b + len then Inr (False, b)
      else map_sum id (\<lambda>d. (True, b\<lparr>rb_buf := d, rb_used := rb_used b + len\<rparr>))
             (memcpy_into (rb_buf b) (rb_used b) data len))"

definition rb_consume :: "u64 \<Rightarrow> read_buffer \<Rightarrow> read_buffer" where
  "rb_consume n b =
     (if rb_used b \<le> n then b\<lparr>rb_used := 0\<rparr>
      else let used = rb_used b - n;
               moved = take (unat used) (drop (unat n) (rb_buf b))
           in b\<lparr>rb_used := used, rb_buf := moved @ drop (unat used) (rb_buf b)\<rparr>)"

definition rb_remaining :: "read_buffer \<Rightarrow> u64" where
  "rb_remaining b = READ_BUFFER_SIZE - rb_used b"

definition rb_advance_write :: "u64 \<Rightarrow> read_buffer \<Rightarrow> read_buffer" where
  "rb_advance_write n b = b\<lparr>rb_used := rb_used b + n\<rparr>"

definition rb_clear :: "read_buffer \<Rightarrow> read_buffer" where
  "rb_clear b = b\<lparr>rb_used := 0\<rparr>"

text \<open>The kernel puts received bytes behind the used ones.\<close>

definition rb_receive :: "byte list \<Rightarrow> read_buffer \<Rightarrow> read_buffer" where
  "rb_receive bytes b =
     b\<lparr>rb_buf := take (unat (rb_used b)) (rb_buf b) @ bytes @
         drop (unat (rb_used b) + length bytes) (rb_buf b)\<rparr>"

section \<open>State\<close>

definition MAX_CONNECTIONS :: nat where "MAX_CONNECTIONS = 1024"
definition MAX_MESSAGE_SIZE :: nat where "MAX_MESSAGE_SIZE = 4096"
definition GW_STATS_FLUSH_INTERVAL :: u64 where "GW_STATS_FLUSH_INTERVAL = 4096"

record connection =
  cn_fd :: int
  cn_read_buf :: read_buffer
  cn_client_id :: string
  cn_authenticated :: bool
  cn_connected :: bool
  cn_connect_time :: Timestamp
  cn_messages_received :: u32

definition connection_new :: "nat \<Rightarrow> Timestamp \<Rightarrow> connection" where
  "connection_new raw_fd now =
     \<lparr>cn_fd = int raw_fd, cn_read_buf = rb_new, cn_client_id = '''', cn_authenticated = False,
      cn_connected = True, cn_connect_time = now, cn_messages_received = 0\<rparr>"

record gw_local_stats =
  gl_connections_accepted :: u64
  gl_messages_received :: u64
  gl_messages_sent :: u64
  gl_orders_rejected :: u64
  gl_pool_exhausted :: u64
  gl_disconnections :: u64
  gl_next_sequence :: u64

record gw_atomic_stats =
  ga_connections_accepted :: u64
  ga_messages_received :: u64
  ga_messages_sent :: u64
  ga_disconnections :: u64

text \<open>
  The risk manager and the order pool are reached through pointers. \<open>gw_send_ok\<close> is whether the
  n-th \<open>send\<close> takes the bytes, \<open>gw_sent\<close> what was handed to it, \<open>gw_closed\<close> the descriptors closed.
\<close>

record gateway =
  gw_port :: u16
  gw_risk :: risk
  gw_pool :: "order mpool"
  gw_running :: bool
  gw_connections :: "connection option list"
  gw_local :: gw_local_stats
  gw_atomic :: gw_atomic_stats
  gw_clock :: "nat \<Rightarrow> Timestamp"
  gw_ticks :: nat
  gw_send_ok :: "nat \<Rightarrow> bool"
  gw_sent :: "(int \<times> byte list) list"
  gw_closed :: "int list"

definition gw_new ::
  "u16 \<Rightarrow> risk \<Rightarrow> order mpool \<Rightarrow> (nat \<Rightarrow> Timestamp) \<Rightarrow> (nat \<Rightarrow> bool) \<Rightarrow> gateway" where
  "gw_new port R P clk send_ok =
     \<lparr>gw_port = port, gw_risk = R, gw_pool = P, gw_running = False,
      gw_connections = replicate MAX_CONNECTIONS None,
      gw_local = \<lparr>gl_connections_accepted = 0, gl_messages_received = 0, gl_messages_sent = 0,
        gl_orders_rejected = 0, gl_pool_exhausted = 0, gl_disconnections = 0, gl_next_sequence = 1\<rparr>,
      gw_atomic = \<lparr>ga_connections_accepted = 0, ga_messages_received = 0, ga_messages_sent = 0, ga_disconnections = 0\<rparr>,
      gw_clock = clk, gw_ticks = 0, gw_send_ok = send_ok, gw_sent = [], gw_closed = []\<rparr>"

definition gw_count :: "(gw_local_stats \<Rightarrow> gw_local_stats) \<Rightarrow> gateway \<Rightarrow> gateway" where
  "gw_count f G = G\<lparr>gw_local := f (gw_local G)\<rparr>"

definition gw_now :: "gateway \<Rightarrow> Timestamp \<times> gateway" where
  "gw_now G = (gw_clock G (gw_ticks G), G\<lparr>gw_ticks := Suc (gw_ticks G)\<rparr>)"

section \<open>Connections\<close>

definition disconnect :: "connection \<Rightarrow> int list \<Rightarrow> connection \<times> int list" where
  "disconnect c gone =
     (let (fd, gone') = fd_close (cn_fd c) gone in (c\<lparr>cn_connected := False, cn_fd := fd\<rparr>, gone'))"

definition gw_set_conn :: "nat \<Rightarrow> connection option \<Rightarrow> gateway \<Rightarrow> gateway" where
  "gw_set_conn fd c G = G\<lparr>gw_connections := (gw_connections G)[fd := c]\<rparr>"

definition gw_release_conn :: "connection option \<Rightarrow> gateway \<Rightarrow> gateway" where
  "gw_release_conn c G =
     (case c of None \<Rightarrow> G | Some c \<Rightarrow> G\<lparr>gw_closed := snd (fd_close (cn_fd c) (gw_closed G))\<rparr>)"

definition gw_disconnect :: "nat \<Rightarrow> gateway \<Rightarrow> gateway" where
  "gw_disconnect fd G =
     (case gw_connections G ! fd of
        None \<Rightarrow> G
      | Some c \<Rightarrow> let (c', gone) = disconnect c (gw_closed G)
                  in gw_set_conn fd (Some c') (G\<lparr>gw_closed := gone\<rparr>))"

definition accept_connection :: "nat \<Rightarrow> gateway \<Rightarrow> gateway" where
  "accept_connection client_fd G =
     (if MAX_CONNECTIONS \<le> client_fd then G\<lparr>gw_closed := gw_closed G @ [int client_fd]\<rparr>
      else let (now, G1) = gw_now G;
               G2 = gw_release_conn (gw_connections G1 ! client_fd) G1;
               G3 = gw_set_conn client_fd (Some (connection_new client_fd now)) G2
           in gw_count (\<lambda>s. s\<lparr>gl_connections_accepted := gl_connections_accepted s + 1\<rparr>) G3)"

definition remove_connection :: "nat \<Rightarrow> gateway \<Rightarrow> gateway" where
  "remove_connection fd G =
     (if length (gw_connections G) \<le> fd then G
      else gw_count (\<lambda>s. s\<lparr>gl_disconnections := gl_disconnections s + 1\<rparr>)
             (gw_set_conn fd None (gw_release_conn (gw_connections G ! fd) G)))"

section \<open>Responses\<close>

definition text_bytes :: "string \<Rightarrow> byte list" where
  "text_bytes s = map of_char s"

text \<open>The reasons are literals of at most 31 characters, so the assignment does not throw.\<close>

definition ack_reason :: "string \<Rightarrow> bounded_string" where
  "ack_reason reason =
     (case bs_assign 32 (Some (text_bytes reason)) (bs_default 32) of Inr s \<Rightarrow> s | Inl e \<Rightarrow> bs_default 32)"

definition send_ack :: "int \<Rightarrow> u64 \<Rightarrow> u8 \<Rightarrow> string \<Rightarrow> gateway \<Rightarrow> gateway" where
  "send_ack fd order_id status reason G =
     (let (now, G1) = gw_now G;
          ack = \<lparr>oa_header = make_header MT_ORDER_ACK (of_nat sizeof_OrderAckMessage) (gl_next_sequence (gw_local G)) now,
                 oa_order_id = order_id, oa_status = status, oa_reason = ack_reason reason\<rparr>;
          G2 = gw_count (\<lambda>s. s\<lparr>gl_next_sequence := gl_next_sequence s + 1\<rparr>) G1;
          G3 = G2\<lparr>gw_sent := gw_sent G2 @ [(fd, bytes_of_order_ack ack)]\<rparr>
      in if gw_send_ok G (length (gw_sent G))
         then gw_count (\<lambda>s. s\<lparr>gl_messages_sent := gl_messages_sent s + 1\<rparr>) G3 else G3)"

definition send_reject :: "int \<Rightarrow> u64 \<Rightarrow> string \<Rightarrow> gateway \<Rightarrow> gateway" where
  "send_reject fd order_id reason G =
     gw_count (\<lambda>s. s\<lparr>gl_orders_rejected := gl_orders_rejected s + 1\<rparr>) (send_ack fd order_id 2 reason G)"

section \<open>Messages\<close>

definition order_of_message :: "new_order_message \<Rightarrow> Timestamp \<Rightarrow> order" where
  "order_of_message msg now =
     \<lparr>o_price = no_price msg, o_remaining = no_quantity msg, o_id = no_order_id msg, o_status = PENDING,
      o_side = side_of_u8 (no_side msg), o_type = order_type_of_u8 (no_order_type msg),
      o_quantity = no_quantity msg, o_timestamp = now,
      o_symbol = fs_new symbol_size (Some (bs_data (no_symbol msg))),
      o_client = fs_new client_id_size (Some (bs_data (no_client_id msg)))\<rparr>"

definition handle_new_order :: "int \<Rightarrow> byte list \<Rightarrow> gateway \<Rightarrow> gateway" where
  "handle_new_order fd data G =
     (if length data < sizeof_NewOrderMessage then G
      else
        let msg = new_order_of_bytes data in
        case mp_allocate (gw_pool G) of
          (None, P) \<Rightarrow>
            gw_count (\<lambda>s. s\<lparr>gl_pool_exhausted := gl_pool_exhausted s + 1\<rparr>)
              (send_reject fd (no_order_id msg) ''Order pool exhausted'' (G\<lparr>gw_pool := P\<rparr>))
        | (Some order, P) \<Rightarrow>
            let (now, G1) = gw_now (G\<lparr>gw_pool := P\<rparr>);
                P1 = P\<lparr>mp_pool := (mp_pool P)[order := order_of_message msg now]\<rparr>;
                (submitted, R) = rm_submit_order (Some order) (gw_risk G1);
                G2 = G1\<lparr>gw_pool := P1, gw_risk := R\<rparr>
            in if submitted then send_ack fd (no_order_id msg) 1 ''Accepted'' G2
               else send_reject fd (no_order_id msg) ''Risk queue full''
                      (G2\<lparr>gw_pool := mp_deallocate (Some order) (gw_pool G2)\<rparr>))"

definition handle_cancel_order :: "int \<Rightarrow> byte list \<Rightarrow> gateway \<Rightarrow> gateway" where
  "handle_cancel_order fd data G =
     (if length data < sizeof_CancelOrderMessage then G
      else
        let msg = cancel_order_of_bytes data;
            (submitted, R) = rm_submit_cancel (co_order_id msg)
              (fs_new client_id_size (Some (bs_data (co_client_id msg)))) (gw_risk G);
            G1 = G\<lparr>gw_risk := R\<rparr>
        in if submitted then send_ack fd (co_order_id msg) 1 ''Cancel submitted'' G1
           else send_reject fd (co_order_id msg) ''Cancel queue full'' G1)"

definition process_message :: "int \<Rightarrow> byte list \<Rightarrow> gateway \<Rightarrow> gateway" where
  "process_message fd data G =
     (let t = mh_type (header_of_bytes data) in
      if t = MT_NEW_ORDER then handle_new_order fd data G
      else if t = MT_CANCEL_ORDER then handle_cancel_order fd data G
      else G)"

text \<open>
  One message of the buffer of connection \<open>fd\<close>. The message is the prefix of the buffer that the
  header declares; its handlers read nothing behind it.
\<close>

definition try_process_message :: "nat \<Rightarrow> gateway \<Rightarrow> bool \<times> gateway" where
  "try_process_message fd G =
     (case gw_connections G ! fd of
        None \<Rightarrow> (False, G)
      | Some c \<Rightarrow>
          let b = cn_read_buf c in
          if unat (rb_used b) < sizeof_MessageHeader then (False, G)
          else
            let len = unat (mh_length (header_of_bytes (rb_buf b))) in
            if len < sizeof_MessageHeader \<or> MAX_MESSAGE_SIZE < len then (False, gw_disconnect fd G)
            else if unat (rb_used b) < len then (False, G)
            else
              let G1 = process_message (cn_fd c) (take len (rb_buf b)) G
              in (True, gw_set_conn fd (Some (c\<lparr>cn_read_buf := rb_consume (of_nat len) b\<rparr>)) G1))"

partial_function (option) process_loop :: "nat \<Rightarrow> gateway \<Rightarrow> gateway option" where
  "process_loop fd G =
     (let (more, G1) = try_process_message fd G
      in if more
         then process_loop fd (gw_count (\<lambda>s. s\<lparr>gl_messages_received := gl_messages_received s + 1\<rparr>) G1)
         else Some G1)"

datatype recv_result = Received "byte list" | Peer_closed | Would_block | Recv_failed

fun receive_loop :: "nat \<Rightarrow> recv_result list \<Rightarrow> gateway \<Rightarrow> gateway option" where
  "receive_loop fd [] G = Some G"
| "receive_loop fd (Received bytes # rest) G =
     (case gw_connections G ! fd of
        None \<Rightarrow> Some G
      | Some c \<Rightarrow>
          let b = rb_advance_write (of_nat (length bytes)) (rb_receive bytes (cn_read_buf c))
          in case process_loop fd (gw_set_conn fd (Some (c\<lparr>cn_read_buf := b\<rparr>)) G) of
               None \<Rightarrow> None
             | Some G1 \<Rightarrow> receive_loop fd rest G1)"
| "receive_loop fd (Peer_closed # rest) G = Some (remove_connection fd G)"
| "receive_loop fd (Would_block # rest) G = Some G"
| "receive_loop fd (Recv_failed # rest) G = Some (remove_connection fd G)"

definition handle_client_data :: "nat \<Rightarrow> recv_result list \<Rightarrow> gateway \<Rightarrow> gateway option" where
  "handle_client_data fd answers G =
     (if length (gw_connections G) \<le> fd \<or> gw_connections G ! fd = None then Some G
      else receive_loop fd answers G)"

section \<open>Threads\<close>

definition gw_flush_stats :: "gateway \<Rightarrow> gateway" where
  "gw_flush_stats G =
     G\<lparr>gw_atomic := \<lparr>ga_connections_accepted = gl_connections_accepted (gw_local G),
        ga_messages_received = gl_messages_received (gw_local G), ga_messages_sent = gl_messages_sent (gw_local G),
        ga_disconnections = gl_disconnections (gw_local G)\<rparr>\<rparr>"

definition gw_maybe_flush_stats :: "gateway \<Rightarrow> gateway" where
  "gw_maybe_flush_stats G =
     (if gl_messages_received (gw_local G) mod GW_STATS_FLUSH_INTERVAL = 0 \<and> 0 < gl_messages_received (gw_local G)
      then gw_flush_stats G else G)"

text \<open>An event of the reactor: its descriptor, whether it is an error or hang-up, whether data
  can be read, and what \<open>recv\<close> will answer.\<close>

fun worker_events :: "(nat \<times> bool \<times> bool \<times> recv_result list) list \<Rightarrow> gateway \<Rightarrow> gateway option" where
  "worker_events [] G = Some (gw_maybe_flush_stats G)"
| "worker_events ((fd, failed, readable, answers) # evs) G =
     (if failed then worker_events evs (remove_connection fd G)
      else if readable then
        (case handle_client_data fd answers G of None \<Rightarrow> None | Some G1 \<Rightarrow> worker_events evs G1)
      else worker_events evs G)"

definition gw_start :: "bool \<Rightarrow> bool \<Rightarrow> gateway \<Rightarrow> bool \<times> gateway" where
  "gw_start listen_ok epoll_ok G =
     (if gw_running G then (True, G)
      else if \<not> listen_ok \<or> \<not> epoll_ok then (False, G)
      else (True, G\<lparr>gw_running := True\<rparr>))"

fun disconnect_all :: "nat \<Rightarrow> gateway \<Rightarrow> gateway" where
  "disconnect_all 0 G = G"
| "disconnect_all (Suc n) G = gw_set_conn n None (gw_disconnect n (disconnect_all n G))"

definition gw_stop :: "gateway \<Rightarrow> gateway" where
  "gw_stop G =
     (if \<not> gw_running G then G
      else gw_flush_stats (disconnect_all (length (gw_connections G)) (G\<lparr>gw_running := False\<rparr>)))"

end
