(* ===== verification/RTES_Memory_Props.thy ===== *)
theory RTES_Memory_Props
  imports RTES_Memory_Safety
begin

text \<open>
  Properties of the safety primitives: which calls stay inside their arrays, the invariant and
  the round trips of the bounded string, and the sizes for which the checks of the buffers
  are not enough.
\<close>

section \<open>Copies\<close>

lemma memcpy_into_Inr:
  assumes "unat offset + unat len \<le> length dest" "unat len \<le> length src"
  shows "\<exists>d. memcpy_into dest offset src len = Inr d \<and> length d = length dest \<and>
     take (unat offset) d = take (unat offset) dest \<and>
     take (unat len) (drop (unat offset) d) = take (unat len) src \<and>
     drop (unat offset + unat len) d = drop (unat offset + unat len) dest"
  using assms by (auto simp: memcpy_into_def)

lemma memcpy_from_Inr:
  "unat offset + unat len \<le> length src \<Longrightarrow> memcpy_from src offset len = Inr (take (unat len) (drop (unat offset) src))"
  by (simp add: memcpy_from_def)

section \<open>The bounded string\<close>

definition bs_ok :: "u64 \<Rightarrow> bounded_string \<Rightarrow> bool" where
  "bs_ok N s \<longleftrightarrow> length (bs_data s) = unat N \<and> unat (bs_length s) < unat N \<and>
     bs_data s ! unat (bs_length s) = 0"

lemma bs_default_ok: "1 < N \<Longrightarrow> bs_ok N (bs_default N) \<and> bs_view (bs_default N) = []"
  by (auto simp: bs_ok_def bs_default_def bs_view_def word_less_nat_alt)

lemma bs_clear_ok: "bs_ok N s \<Longrightarrow> bs_ok N (bs_clear s) \<and> bs_view (bs_clear s) = []"
  by (auto simp: bs_ok_def bs_clear_def bs_view_def)

lemma bs_put_ok:
  assumes "bs_ok N s" "unat len < unat N" "unat len \<le> length str"
  shows "\<exists>s'. bs_put str len s = Inr s' \<and> bs_ok N s' \<and> bs_view s' = take (unat len) str \<and> bs_length s' = len"
proof -
  obtain d where d: "memcpy_into (bs_data s) 0 str len = Inr d" "length d = length (bs_data s)"
    "take (unat len) d = take (unat len) str"
    using memcpy_into_Inr [of 0 len "bs_data s" str] assms by (auto simp: bs_ok_def)
  then show ?thesis
    using assms by (simp add: bs_put_def bs_ok_def bs_view_def)
qed

lemma bs_assign_view_ok:
  assumes "bs_ok N s" "unat len \<le> length str"
  shows "bs_assign_view N str len s = (if unat len < unat N then bs_put str len s else Inl (String_too_long len))"
  by (simp add: bs_assign_view_def word_le_nat_alt)

lemma bs_assign_view_cases:
  assumes "bs_ok N s" "unat len \<le> length str"
  shows "(\<exists>s'. bs_assign_view N str len s = Inr s' \<and> bs_ok N s') \<or>
     bs_assign_view N str len s = Inl (String_too_long len)"
  using bs_put_ok [OF assms(1) _ assms(2)] by (auto simp: bs_assign_view_ok [OF assms])

lemma bs_copy_onto_ok:
  assumes "bs_ok N s" "bs_ok N t"
  shows "\<exists>s'. bs_copy_onto t s = Inr s' \<and> bs_ok N s' \<and> bs_eq s' t \<and> bs_view s' = bs_view t"
proof -
  let ?n = "unat (bs_length t)"
  have n: "unat (bs_length t + 1) = Suc ?n"
    using unat_Suc_lt [of "bs_length t" "unat N"] assms unsigned_less [of N, where 'a = nat]
    by (simp add: bs_ok_def)
  obtain d where d: "memcpy_into (bs_data s) 0 (bs_data t) (bs_length t + 1) = Inr d" "length d = length (bs_data s)"
    "take (Suc ?n) d = take (Suc ?n) (bs_data t)"
    using memcpy_into_Inr [of 0 "bs_length t + 1" "bs_data s" "bs_data t"] assms by (auto simp: bs_ok_def n)
  have "take ?n (take (Suc ?n) d) = take ?n (take (Suc ?n) (bs_data t))" by (simp only: d(3))
  then have "take ?n d = take ?n (bs_data t)" by simp
  moreover have "d ! ?n = bs_data t ! ?n"
    using nth_take [of ?n "Suc ?n" d] nth_take [of ?n "Suc ?n" "bs_data t"] d(3) by simp
  ultimately show ?thesis using d assms by (simp add: bs_copy_onto_def bs_ok_def bs_view_def bs_eq_def)
qed

lemma unat_of_nat_le: "unat (of_nat n :: 'a::len word) \<le> n"
  by (simp add: unat_of_nat)

lemma bs_assign_ok:
  assumes "bs_ok N s"
  shows "(\<exists>s'. bs_assign N str s = Inr s' \<and> bs_ok N s') \<or> (\<exists>n. bs_assign N str s = Inl (String_too_long n))"
proof (cases str)
  case (Some t)
  then show ?thesis using bs_assign_view_cases [OF assms unat_of_nat_le, of "cstr t"] by (auto simp: bs_assign_def)
qed (use bs_clear_ok [OF assms] in \<open>simp add: bs_assign_def\<close>)

lemma bs_assign_truncate_ok:
  assumes "bs_ok N s"
  shows "\<exists>s'. bs_assign_truncate N str s = Inr s' \<and> bs_ok N s'"
proof (cases str)
  case (Some t)
  let ?len = "of_nat (length (cstr t)) :: u64"
  let ?n = "if N \<le> ?len then N - 1 else ?len"
  have "0 < unat N" using assms by (auto simp: bs_ok_def)
  then have "unat (N - 1) = unat N - 1" by (simp add: unat_sub word_le_nat_alt)
  with \<open>0 < unat N\<close> have n: "unat ?n < unat N" "unat ?n \<le> unat ?len"
    by (auto simp: word_le_nat_alt)
  then have "unat ?n \<le> length (cstr t)" using unat_of_nat_le le_trans by blast
  with n bs_put_ok [OF assms, of ?n "cstr t"] Some show ?thesis by (auto simp: bs_assign_truncate_def Let_def)
qed (use bs_clear_ok [OF assms] in \<open>simp add: bs_assign_truncate_def\<close>)

lemma length_digits: "n < 10 ^ Suc k \<Longrightarrow> length (digits n) \<le> Suc k"
proof (induction k arbitrary: n)
  case (Suc k)
  then show ?case by (subst digits.simps) (auto simp: less_mult_imp_div_less)
qed (simp add: digits.simps)

lemma digits_not_nil: "digits n \<noteq> []"
  by (simp add: digits.simps [of n])

lemma length_digits_u64: "length (digits (unat (x :: u64))) \<le> 20"
  using length_digits [of "unat x" 19] unsigned_less [of x, where 'a = nat] by simp

lemma length_digits_i64: "length (digits_int (sint (x :: u64))) \<le> 20"
proof -
  have "- (2 ^ 63) \<le> sint x" "sint x < 2 ^ 63" using sint_ge [of x] sint_lt [of x] by simp_all
  then have "length (digits (nat (- sint x))) \<le> 19" "length (digits (nat (sint x))) \<le> 19"
    using length_digits [of "nat (- sint x)" 18] length_digits [of "nat (sint x)" 18] by simp_all
  then show ?thesis by (simp add: digits_int_def)
qed

lemma bs_of_text_ok:
  assumes "1 < N" "length text \<le> 20"
  shows "\<exists>s. bs_of_text N text = Inr s \<and> bs_ok N s \<and> (text \<noteq> [] \<and> length text < unat N \<longrightarrow> bs_view s = text)"
proof -
  have len: "unat (of_nat (length text) :: u64) = length text"
    using assms(2) by (simp add: unat_of_nat)
  show ?thesis
  proof (cases "text \<noteq> [] \<and> length text < unat N")
    case True
    then have "of_nat (length text) < N" by (simp add: word_less_nat_alt len)
    with True show ?thesis
      using bs_put_ok [of N "bs_default N" "of_nat (length text)" "take 20 text @ [0]"] assms len
        bs_assign_view_ok [of N "bs_default N" "of_nat (length text)" "take 20 text @ [0]"] bs_default_ok
      by (auto simp: bs_of_text_def Let_def)
  next
    case False
    then show ?thesis
      using bs_default_ok [OF assms(1)] len by (auto simp: bs_of_text_def word_less_nat_alt)
  qed
qed

text \<open>Every string that a program can build with the operations of the class.\<close>

inductive bs_built :: "u64 \<Rightarrow> bounded_string \<Rightarrow> bool" for N :: u64 where
  "bs_built N (bs_default N)"
| "bs_built N s \<Longrightarrow> bs_built N (bs_clear s)"
| "bs_new N str = Inr s \<Longrightarrow> bs_built N s"
| "bs_new_view N sv = Inr s \<Longrightarrow> bs_built N s"
| "bs_built N s \<Longrightarrow> bs_assign N str s = Inr s' \<Longrightarrow> bs_built N s'"
| "bs_built N s \<Longrightarrow> bs_assign_view N str len s = Inr s' \<Longrightarrow> unat len \<le> length str \<Longrightarrow> bs_built N s'"
| "bs_built N s \<Longrightarrow> bs_assign_truncate N str s = Inr s' \<Longrightarrow> bs_built N s'"
| "bs_built N t \<Longrightarrow> bs_built N s \<Longrightarrow> bs_copy_onto t s = Inr s' \<Longrightarrow> bs_built N s'"
| "bs_built N t \<Longrightarrow> bs_copy N t = Inr s' \<Longrightarrow> bs_built N s'"
| "to_bounded_string_u64 N val = Inr s \<Longrightarrow> bs_built N s"
| "to_bounded_string_i64 N val = Inr s \<Longrightarrow> bs_built N s"

lemma bs_built_ok:
  assumes "bs_built N s" "1 < N"
  shows "bs_ok N s"
  using assms
proof (induction rule: bs_built.induct)
  case (3 str s)
  then show ?case
    using bs_assign_ok [of N "bs_default N" str] bs_default_ok [of N] by (auto simp: bs_new_def split: if_splits)
next
  case (4 sv s)
  then show ?case
    using bs_assign_view_cases [OF _ unat_of_nat_le, of N "bs_default N" sv] bs_default_ok [of N]
    by (auto simp: bs_new_view_def)
next
  case (5 s str s')
  then show ?case using bs_assign_ok [of N s str] by auto
next
  case (6 s str len s')
  then show ?case
    using bs_assign_view_cases [of N s len str] by auto
next
  case (7 s str s')
  then show ?case using bs_assign_truncate_ok [of N s str] by auto
next
  case (8 t s s')
  then show ?case using bs_copy_onto_ok [of N s t] by auto
next
  case (9 t s')
  then show ?case using bs_copy_onto_ok [of N "bs_default N" t] bs_default_ok [of N] by (auto simp: bs_copy_def)
next
  case (10 val s)
  then show ?case using bs_of_text_ok [OF _ length_digits_u64, of N val] by (auto simp: to_bounded_string_u64_def)
next
  case (11 val s)
  then show ?case using bs_of_text_ok [OF _ length_digits_i64, of N val] by (auto simp: to_bounded_string_i64_def)
qed (simp_all add: bs_default_ok bs_clear_ok)

lemma bs_c_str_view:
  assumes "bs_ok N s" "0 \<notin> set (bs_view s)"
  shows "bs_c_str s = bs_view s"
proof -
  let ?n = "unat (bs_length s)"
  have "bs_data s = bs_view s @ 0 # drop (Suc ?n) (bs_data s)"
    using assms(1) id_take_nth_drop [of ?n "bs_data s"] by (simp add: bs_ok_def bs_view_def)
  then have "bs_c_str s = cstr (bs_view s)" unfolding bs_c_str_def by (metis cstr_append_zero)
  then show ?thesis by (simp add: cstr_id assms(2))
qed

text \<open>
  Claim C24. No sequence of operations on bounded strings leaves the array: every string that
  can be built has its length below the capacity and a terminator behind it, and assigning,
  truncating, copying or converting a number never touches memory outside; what does not fit
  is refused with the length, or shortened.
\<close>

theorem bounded_string_stays_inside:
  assumes "bs_built N s" "1 < N"
  shows "bs_ok N s \<and> bs_assign N str s \<noteq> Inl Undefined \<and> (\<exists>s'. bs_assign_truncate N str s = Inr s') \<and>
     (\<forall>t. bs_built N t \<longrightarrow> (\<exists>s'. bs_copy_onto t s = Inr s' \<and> bs_eq s' t)) \<and>
     (\<exists>s'. to_bounded_string_u64 N val = Inr s' \<and> (20 < N \<longrightarrow> bs_view s' = digits (unat val)))"
proof -
  note ok = bs_built_ok [OF assms]
  have "20 < N \<Longrightarrow> length (digits (unat val)) < unat N"
    using length_digits_u64 [of val] by (simp add: word_less_nat_alt)
  then show ?thesis
    using ok bs_assign_ok [OF ok, of str] bs_assign_truncate_ok [OF ok, of str] digits_not_nil [of "unat val"]
      bs_copy_onto_ok [OF ok bs_built_ok [OF _ assms(2)]] bs_of_text_ok [OF assms(2) length_digits_u64, of val]
    by (auto simp: to_bounded_string_u64_def)
qed

theorem bounded_string_stays_inside_witness:
  "bs_ok 8 (bs_default 8) \<and> (\<exists>s'. bs_assign_truncate 8 (Some [65, 66, 67, 68, 69, 70, 71, 72, 73]) (bs_default 8) = Inr s')"
  using bounded_string_stays_inside [OF bs_built.intros(1), of 8] by simp

text \<open>
  What is assigned is what is read back: a C string that fits comes out of \<open>c_str\<close>
  and \<open>view\<close> unchanged, a longer one is refused and its length reported, and the truncating
  assignment keeps the longest prefix that fits.
\<close>

theorem bounded_string_roundtrip:
  assumes "bs_built N s" "1 < N" "length (cstr t) < 2 ^ 64"
  shows "(if length (cstr t) < unat N
          then \<exists>s'. bs_assign N (Some t) s = Inr s' \<and> bs_view s' = cstr t \<and> bs_c_str s' = cstr t
          else bs_assign N (Some t) s = Inl (String_too_long (of_nat (length (cstr t))))) \<and>
     (\<exists>s'. bs_assign_truncate N (Some t) s = Inr s' \<and> bs_c_str s' = take (unat N - 1) (cstr t))"
proof -
  note ok = bs_built_ok [OF assms(1,2)]
  let ?len = "of_nat (length (cstr t)) :: u64"
  have len: "unat ?len = length (cstr t)" using assms(3) by (simp add: unat_of_nat)
  have read: "bs_c_str s' = take n (cstr t)" if "bs_ok N s'" "bs_view s' = take n (cstr t)" for s' n
    using bs_c_str_view [OF that(1)] that(2) cstr_no_zero [of t] by (auto dest: in_set_takeD)
  have "if length (cstr t) < unat N
      then \<exists>s'. bs_assign N (Some t) s = Inr s' \<and> bs_view s' = cstr t \<and> bs_c_str s' = cstr t
      else bs_assign N (Some t) s = Inl (String_too_long ?len)"
    using bs_assign_view_ok [OF ok, of ?len "cstr t"] bs_put_ok [OF ok, of ?len "cstr t"] len
      read [of _ "length (cstr t)"] by (auto simp: bs_assign_def)
  moreover have "\<exists>s'. bs_assign_truncate N (Some t) s = Inr s' \<and> bs_c_str s' = take (unat N - 1) (cstr t)"
  proof -
    let ?n = "if N \<le> ?len then N - 1 else ?len"
    have "unat (N - 1) = unat N - 1" using assms(2) by (simp add: unat_sub word_le_nat_alt word_less_nat_alt)
    then have n: "unat ?n = min (unat N - 1) (length (cstr t))" "unat ?n < unat N"
      using assms(2) by (auto simp: word_le_nat_alt word_less_nat_alt len)
    then obtain s' where "bs_put (cstr t) ?n s = Inr s'" "bs_ok N s'" "bs_view s' = take (unat ?n) (cstr t)"
      using bs_put_ok [OF ok, of ?n "cstr t"] by auto
    with read [of s' "unat ?n"] n(1) show ?thesis by (auto simp: bs_assign_truncate_def Let_def min_def)
  qed
  ultimately show ?thesis ..
qed

theorem bounded_string_roundtrip_witness:
  "(\<exists>s'. bs_assign 8 (Some [65, 66, 67]) (bs_default 8) = Inr s' \<and> bs_c_str s' = [65, 66, 67]) \<and>
   (\<exists>s'. bs_assign_truncate 4 (Some [65, 66, 67, 68]) (bs_default 4) = Inr s' \<and> bs_c_str s' = [65, 66, 67])"
  using bounded_string_roundtrip [OF bs_built.intros(1), of 8 "[65, 66, 67]"]
    bounded_string_roundtrip [OF bs_built.intros(1), of 4 "[65, 66, 67, 68]"]
  by simp blast

section \<open>Buffers\<close>

definition xb_ok :: "u64 \<Rightarrow> fixed_buffer \<Rightarrow> bool" where
  "xb_ok cap b \<longleftrightarrow> length (xb_data b) = unat cap \<and> xb_used b \<le> cap"

definition xb_contents :: "fixed_buffer \<Rightarrow> byte list" where
  "xb_contents b = take (unat (xb_used b)) (xb_data b)"

text \<open>
  Appending to a fixed-size buffer puts the bytes behind the contents when they fit,
  and is refused when they do not, as long as the sum of the sizes is below 2^64. When the sum
  wraps around to at most the capacity the check passes and the copy leaves the array.
\<close>

theorem fixed_buffer_append_guard:
  assumes "xb_ok cap b" "unat len \<le> length src" "n = unat (xb_used b) + unat len"
  shows "(n \<le> unat cap \<longrightarrow> (\<exists>b'. xb_append cap src len b = Inr b' \<and> xb_ok cap b' \<and>
            xb_contents b' = xb_contents b @ take (unat len) src)) \<and>
     (unat cap < n \<and> n < 2 ^ 64 \<longrightarrow> xb_append cap src len b = Inl Append_exceeds_capacity) \<and>
     (2 ^ 64 \<le> n \<and> n - 2 ^ 64 \<le> unat cap \<longrightarrow> xb_append cap src len b = Inl Undefined)"
proof -
  have cap: "unat cap < 2 ^ 64" "unat (xb_used b) < 2 ^ 64" "unat len < 2 ^ 64"
    using unsigned_less [of cap, where 'a = nat] unsigned_less [of "xb_used b", where 'a = nat]
      unsigned_less [of len, where 'a = nat] by simp_all
  have sum: "unat (xb_used b + len) = n mod 2 ^ 64" using assms(3) by (simp add: unat_word_ariths)
  have 1: "\<exists>b'. xb_append cap src len b = Inr b' \<and> xb_ok cap b' \<and>
      xb_contents b' = xb_contents b @ take (unat len) src" if fits: "n \<le> unat cap"
  proof -
    have m: "unat (xb_used b + len) = n" using that cap sum by simp
    obtain d where d: "memcpy_into (xb_data b) (xb_used b) src len = Inr d" "length d = length (xb_data b)"
      "take (unat (xb_used b)) d = take (unat (xb_used b)) (xb_data b)"
      "take (unat len) (drop (unat (xb_used b)) d) = take (unat len) src"
      using memcpy_into_Inr [of "xb_used b" len "xb_data b" src] assms fits unfolding xb_ok_def by metis
    then show ?thesis
      using that assms(1,3) m
      by (simp add: xb_append_def xb_ok_def xb_contents_def word_le_nat_alt word_less_nat_alt take_add)
  qed
  have 2: "xb_append cap src len b = Inl Append_exceeds_capacity" if "unat cap < n" "n < 2 ^ 64"
    using that sum by (simp add: xb_append_def word_less_nat_alt)
  have 3: "xb_append cap src len b = Inl Undefined" if "2 ^ 64 \<le> n" "n - 2 ^ 64 \<le> unat cap"
  proof -
    have "n mod 2 ^ 64 = n - 2 ^ 64" using that(1) cap assms(3) by (simp add: mod_if)
    then have "\<not> cap < xb_used b + len" using that(2) sum by (simp add: word_less_nat_alt)
    moreover have "\<not> n \<le> length (xb_data b)" using assms(1) cap(1) that(1) by (simp add: xb_ok_def)
    ultimately show ?thesis using assms(3) by (simp add: xb_append_def memcpy_into_def)
  qed
  show ?thesis using 1 2 3 by blast
qed

theorem fixed_buffer_append_guard_witness:
  "\<exists>b'. xb_append 4 [1, 2] 2 (xb_new 4) = Inr b' \<and> xb_contents b' = [1, 2]"
proof -
  have new: "xb_ok 4 (xb_new 4)" "xb_used (xb_new 4) = 0" "xb_contents (xb_new 4) = []"
    by (simp_all add: xb_ok_def xb_new_def xb_contents_def)
  have len: "unat (2 :: u64) \<le> length [1, 2 :: byte]" "2 = unat (xb_used (xb_new 4)) + unat (2 :: u64)"
    by (simp_all add: new(2))
  have "(2 :: nat) \<le> unat (4 :: u64)" by simp
  with fixed_buffer_append_guard [OF new(1) len] new(3) show ?thesis by auto
qed

text \<open>
  The guard page behind a checked buffer starts where the buffer ends, but \<open>mprotect\<close> refuses
  an address that is not on a page boundary: only sizes that are multiples of the page size
  can be constructed.
\<close>

lemma checked_buffer_needs_whole_pages:
  assumes "\<forall>a. unat a mod 4096 \<noteq> 0 \<longrightarrow> \<not> mprotect_ok a" "unat sz mod 4096 \<noteq> 0"
  shows "\<exists>e. cb_new mmap_ok mprotect_ok sz = Inl e"
proof -
  have "unat (GUARD_SIZE + sz) mod 4096 = (4096 + unat sz) mod 4096"
    by (simp add: unat_word_ariths GUARD_SIZE_def mod_mod_cancel)
  then have "\<not> mprotect_ok (GUARD_SIZE + sz)" using assms by simp
  then show ?thesis by (simp add: cb_new_def Let_def)
qed

lemma checked_access_inside:
  assumes "length (cb_bytes b) = unat (cb_size b)" "unat len \<le> length src"
  shows "checked_read offset len b \<noteq> Inl Undefined" "checked_write src offset len b \<noteq> Inl Undefined"
proof -
  have "unat offset + unat len \<le> length (cb_bytes b)" if "validate_range offset len b"
  proof -
    have "offset \<le> cb_size b" "len \<le> cb_size b - offset" using that by (simp_all add: validate_range_def)
    then show ?thesis using assms(1) unat_sub [of offset "cb_size b"] by (simp add: word_le_nat_alt)
  qed
  then show "checked_read offset len b \<noteq> Inl Undefined" "checked_write src offset len b \<noteq> Inl Undefined"
    using assms(2) by (simp_all add: checked_read_def checked_write_def memcpy_from_def memcpy_into_def)
qed

end
