(* ===== verification/RTES_Protocol_Props.thy ===== *)
theory RTES_Protocol_Props
  imports RTES_Protocol RTES_Memory_Props
begin

text \<open>
  Properties of the wire protocol: messages survive the way through memory, and what the
  checksum detects.
\<close>

section \<open>Messages\<close>

lemma field_at: "field offset len bs = field 0 len (drop offset bs)"
  by (simp add: field_def)

lemma field_0_append [simp]: "len = length ys \<Longrightarrow> field 0 len (ys @ zs) = ys"
  by (simp add: field_def)

lemma header_roundtrip: "header_of_bytes (bytes_of_header h @ bs) = h"
  by (simp add: header_of_bytes_def bytes_of_header_def field_at [of 4] field_at [of 8] field_at [of 16] field_at [of 24])

lemma string_roundtrip:
  "length (bs_data s) = N \<Longrightarrow> string_of_bytes N (bytes_of_string s @ bs) = s"
  by (simp add: string_of_bytes_def bytes_of_string_def field_at [of N])

lemma length_bytes_of_string [simp]: "length (bytes_of_string s) = length (bs_data s) + 8"
  by (simp add: bytes_of_string_def)

lemma new_order_roundtrip:
  assumes "length (bs_data (no_client_id m)) = 32" "length (bs_data (no_symbol m)) = 8"
  shows "new_order_of_bytes (bytes_of_new_order m) = m" "length (bytes_of_new_order m) = 110"
  using assms
  by (simp_all add: new_order_of_bytes_def bytes_of_new_order_def header_roundtrip string_roundtrip nth_append
    field_at [of 28] field_at [of 93] field_at [of 101])

lemma cancel_order_roundtrip:
  assumes "length (bs_data (co_client_id m)) = 32" "length (bs_data (co_symbol m)) = 8"
  shows "cancel_order_of_bytes (bytes_of_cancel_order m) = m" "length (bytes_of_cancel_order m) = 92"
  using assms string_roundtrip [of "co_symbol m" 8 "[]"]
  by (simp_all add: cancel_order_of_bytes_def bytes_of_cancel_order_def header_roundtrip string_roundtrip field_at [of 28])

lemma order_ack_roundtrip:
  assumes "length (bs_data (oa_reason m)) = 32"
  shows "order_ack_of_bytes (bytes_of_order_ack m) = m" "length (bytes_of_order_ack m) = 77"
  using assms string_roundtrip [of "oa_reason m" 32 "[]"]
  by (simp_all add: order_ack_of_bytes_def bytes_of_order_ack_def header_roundtrip nth_append field_at [of 28])



section \<open>Checksum\<close>

lemma crc_bit_xor: "crc_bit (x XOR y) = crc_bit x XOR crc_bit y"
proof -
  have b: "bit (x XOR y) 0 \<longleftrightarrow> bit x 0 \<noteq> bit y 0" by (simp add: bit_xor_iff)
  have ac: "(u XOR p) XOR p = u" "(u XOR p) XOR v = (u XOR v) XOR p" "u XOR (v XOR p) = (u XOR v) XOR p"
    for u v p :: u32 by (rule bit_eqI; auto simp: bit_xor_iff)+
  show ?thesis
    by (cases "bit x 0"; cases "bit y 0") (simp_all only: crc_bit_def b drop_bit_xor if_True if_False simp_thms ac)
qed

lemma crc_bits_xor: "(crc_bit ^^ n) (x XOR y) = (crc_bit ^^ n) x XOR (crc_bit ^^ n) y"
  by (induction n) (simp_all add: crc_bit_xor)

text \<open>The polynomial has its highest bit set, so a bit step loses nothing.\<close>

lemma crc_bit_eq_0: "crc_bit x = 0 \<longleftrightarrow> x = 0"
proof (cases "bit x 0")
  case True
  have "\<not> bit (drop_bit 1 x) 31" using bit_imp_le_length [of x 32] by (auto simp: bit_drop_bit_eq)
  moreover have "bit (0xEDB88320 :: u32) 31" by simp
  ultimately have "bit (crc_bit x) 31" using True by (simp add: crc_bit_def bit_xor_iff)
  then show ?thesis using True by auto
next
  case False
  have "x = 0" if "drop_bit 1 x = 0"
  proof (rule bit_eqI)
    fix n show "bit x n = bit 0 n"
    proof (cases n)
      case (Suc m)
      have "bit (drop_bit 1 x) m = bit x n" by (simp add: bit_drop_bit_eq Suc)
      then show ?thesis using that by simp
    qed (use False in simp)
  qed
  then show ?thesis using False by (auto simp: crc_bit_def)
qed

lemma crc_bits_eq_0: "(crc_bit ^^ n) x = 0 \<longleftrightarrow> x = 0"
  by (induction n) (simp_all add: crc_bit_eq_0)

lemma crc_bits_inject: "(crc_bit ^^ n) x = (crc_bit ^^ n) y \<longleftrightarrow> x = y"
proof -
  have eq: "a = b \<longleftrightarrow> a XOR b = 0" for a b :: u32 by (metis xor.assoc xor.left_neutral xor_self_eq)
  show ?thesis by (metis crc_bits_eq_0 crc_bits_xor eq)
qed

lemma xor_eq_0: "a XOR b = 0 \<longleftrightarrow> a = b" for a b :: "'a::len word"
  by (metis xor.assoc xor.left_neutral xor_self_eq)

lemma xor_right_cancel: "a XOR p = b XOR p \<longleftrightarrow> a = b" for a b p :: "'a::len word"
  by (auto simp: bit_eq_iff bit_xor_iff)

lemma xor_shuffle: "(s XOR x) XOR (t XOR y) = w \<Longrightarrow> s XOR t = (x XOR y) XOR w" for s t w x y :: "'a::len word"
  by (auto simp: bit_eq_iff bit_xor_iff)

text \<open>A multiple of 256 passes through eight bit steps as a shift.\<close>

lemma crc_bits_push:
  assumes "take_bit 24 x = x"
  shows "(crc_bit ^^ 8) (push_bit 8 x) = x"
proof -
  have hi: "bit x n \<longrightarrow> n < 24" for n using assms by (metis bit_take_bit_iff)
  have step: "crc_bit (push_bit (Suc k) x) = push_bit k x" if "k < 8" for k
  proof -
    define y where "y = push_bit (Suc k) x"
    have y: "bit y m \<longleftrightarrow> Suc k \<le> m \<and> m < 32 \<and> bit x (m - Suc k)" for m
      using bit_push_bit_iff [of "Suc k" x m] bit_imp_le_length [of y m] unfolding y_def by auto
    have "crc_bit y = drop_bit 1 y" by (simp add: crc_bit_def y)
    also have "\<dots> = push_bit k x"
    proof (rule bit_eqI)
      fix n show "bit (drop_bit 1 y) n = bit (push_bit k x) n"
        using that hi [of "n - k"] by (auto simp: y bit_drop_bit_eq bit_push_bit_iff)
    qed
    finally show ?thesis unfolding y_def .
  qed
  have "(crc_bit ^^ j) (push_bit 8 x) = push_bit (8 - j) x" if "j \<le> 8" for j
    using that
  proof (induction j)
    case (Suc j)
    then have "8 - j = Suc (8 - Suc j)" "8 - Suc j < 8" by simp_all
    with Suc step [of "8 - Suc j"] show ?case by (simp only: funpow.simps comp_apply)
  qed simp
  from this [of 8] show ?thesis by simp
qed

lemma bit_le: "bit (le bs :: 'a::len word) n \<longleftrightarrow>
    n < LENGTH('a) \<and> n div 8 < length bs \<and> bit (bs ! (n div 8)) (n mod 8)"
proof (induction bs arbitrary: n)
  case (Cons b bs)
  show ?case
  proof (cases "n < 8")
    case True
    then show ?thesis by (auto simp: bit_simps dest: bit_imp_le_length)
  next
    case False
    then obtain m where m: "n = m + 8" by (metis add.commute le_Suc_ex not_less)
    have "(m + 8) div 8 = Suc (m div 8)" by simp
    moreover have "\<not> bit b n" using False bit_imp_le_length [of b n] by auto
    ultimately show ?thesis
      using Cons.IH [of m] bit_imp_le_length [of "le bs :: 'a word" m] by (auto simp: m bit_simps)
  qed
qed simp

lemma le_take_bit:
  "length bs \<le> k \<Longrightarrow> take_bit (8 * k) (le bs :: 'a::len word) = le bs"
  by (rule bit_eqI) (auto simp: bit_take_bit_iff bit_le)

lemma le_eq_0:
  assumes "(le bs :: u32) = 0" "length bs \<le> 4" "b \<in> set bs"
  shows "b = 0"
proof -
  obtain i where i: "i < length bs" "bs ! i = b" using assms(3) by (metis in_set_conv_nth)
  have "\<not> bit b k" for k
  proof (cases "k < 8")
    case True
    have "\<not> bit (le bs :: u32) (8 * i + k)" using assms(1) by simp
    with True i assms(2) show ?thesis by (simp add: bit_le)
  qed (use bit_imp_le_length [of b k] in auto)
  then show ?thesis by (auto intro: bit_eqI)
qed

text \<open>
  Two runs over at most four bytes that end in the same state: the states they began with
  differ exactly by the bytes in which the inputs differ.
\<close>

lemma crc_run_difference:
  assumes "length xs = length ys" "length xs \<le> 4" "foldl crc_byte s xs = foldl crc_byte t ys"
  shows "s XOR t = le (map2 (XOR) xs ys)"
  using assms
proof (induction xs ys arbitrary: s t rule: list_induct2)
  case Nil
  then show ?case by simp
next
  case (Cons x xs y ys)
  let ?w = "le (map2 (XOR) xs ys) :: u32"
  have "crc_byte s x XOR crc_byte t y = ?w" using Cons by simp
  then have "(crc_bit ^^ 8) ((s XOR ucast x) XOR (t XOR ucast y)) = ?w"
    by (simp only: crc_byte_def crc_bits_xor)
  moreover have "take_bit 24 ?w = ?w" using le_take_bit [of "map2 (XOR) xs ys" 3] Cons.prems Cons.hyps by simp
  then have "(crc_bit ^^ 8) (push_bit 8 ?w) = ?w" by (rule crc_bits_push)
  ultimately have "(s XOR ucast x) XOR (t XOR ucast y) = push_bit 8 ?w" by (metis crc_bits_inject)
  then have "s XOR t = (ucast x XOR ucast y) XOR push_bit 8 ?w"
    by (rule xor_shuffle)
  also have "\<dots> = ucast (x XOR y) OR push_bit 8 ?w"
    by (rule bit_eqI) (auto simp: bit_simps dest: bit_imp_le_length)
  finally show ?case by simp
qed

text \<open>
  Claim C25. The checksum detects every burst of up to 32 bits on byte boundaries: two payloads
  that differ, and differ only inside a window of four bytes, never have the same checksum.
  In particular every change of a single byte is detected.
\<close>

theorem checksum_detects_bursts:
  assumes "length mid = length mid'" "length mid \<le> 4" "mid \<noteq> mid'" "n = length (before @ mid @ after)"
  shows "calculate_checksum (before @ mid @ after) n \<noteq> calculate_checksum (before @ mid' @ after) n"
proof
  assume "calculate_checksum (before @ mid @ after) n = calculate_checksum (before @ mid' @ after) n"
  then have eq: "foldl crc_byte s (mid @ after) = foldl crc_byte s (mid' @ after)"
    if "s = foldl crc_byte 0xFFFFFFFF before" for s
    using assms(1,4) that by (simp add: calculate_checksum_def)
  have inj: "foldl crc_byte s bs = foldl crc_byte t bs \<Longrightarrow> s = t" for s t bs
  proof (induction bs arbitrary: s t)
    case (Cons b bs)
    then have "crc_byte s b = crc_byte t b" by simp
    then have "s XOR ucast b = t XOR ucast b" by (simp add: crc_byte_def crc_bits_inject)
    then show ?case by (simp only: xor_right_cancel)
  qed simp
  have "foldl crc_byte s mid = foldl crc_byte s mid'" if "s = foldl crc_byte 0xFFFFFFFF before" for s
    by (rule inj [where bs = after]) (use eq [OF that] in simp)
  from crc_run_difference [OF assms(1,2) this [OF refl]]
  have "(le (map2 (XOR) mid mid') :: u32) = 0" by simp
  with le_eq_0 [of "map2 (XOR) mid mid'"] assms(1,2) have "\<forall>b\<in>set (map2 (XOR) mid mid'). b = 0" by simp
  with assms(1) have "mid = mid'"
    by (induction mid mid' rule: list_induct2) (auto simp: xor_eq_0)
  with assms(3) show False ..
qed

theorem checksum_detects_bursts_witness:
  "calculate_checksum [1, 2, 3] 3 \<noteq> calculate_checksum [1, 7, 3] 3"
  using checksum_detects_bursts [of "[2]" "[7]" 3 "[1]" "[3]"] by simp

text \<open>
  A header whose checksum was set for a payload is valid for it when its length is
  one that the protocol allows; otherwise, or without a payload, the checksum is zero and
  validation fails whatever it is.
\<close>

theorem set_checksum_validates:
  "validate_checksum (set_checksum h p) p \<longleftrightarrow> p \<noteq> None \<and> 28 \<le> mh_length h \<and> mh_length h \<le> 8192"
  by (auto simp: validate_checksum_def set_checksum_def sizeof_MessageHeader_def word_le_nat_alt word_less_nat_alt
    split: option.splits)

end
