(* ===== verification/RTES_Gateway_Props.thy ===== *)
theory RTES_Gateway_Props
  imports RTES_Gateway RTES_Protocol_Props RTES_Risk_Props
begin

text \<open>
  Properties of the gateway: the messages of a connection do not depend on how the network
  cuts its stream, and what a message does to the pool, the risk manager and its sender.
\<close>

section \<open>Splitting a stream\<close>

text \<open>
  The reference: cut the stream at the declared lengths until the rest is incomplete or its
  header is bad.
\<close>

definition declared :: "byte list \<Rightarrow> nat" where
  "declared bs = unat (mh_length (header_of_bytes bs))"

definition bad_header :: "byte list \<Rightarrow> bool" where
  "bad_header bs \<longleftrightarrow> 28 \<le> length bs \<and> (declared bs < 28 \<or> 4096 < declared bs)"

function split_messages :: "byte list \<Rightarrow> byte list list \<times> byte list" where
  "split_messages bs =
     (if length bs < 28 \<or> bad_header bs \<or> length bs < declared bs then ([], bs)
      else let (ms, r) = split_messages (drop (declared bs) bs) in (take (declared bs) bs # ms, r))"
  by auto
termination
  by (relation "measure length") (auto simp: bad_header_def)

declare split_messages.simps [simp del]

lemma declared_append [simp]: "28 \<le> length bs \<Longrightarrow> declared (bs @ cs) = declared bs"
  by (simp add: declared_def header_of_bytes_def field_def)

lemma declared_take [simp]: "28 \<le> n \<Longrightarrow> declared (take n bs) = declared bs"
  by (simp add: declared_def header_of_bytes_def field_def drop_take min_def)

lemma bad_header_append: "bad_header bs \<Longrightarrow> bad_header (bs @ cs)"
  by (auto simp: bad_header_def)

lemma split_rest_short:
  assumes "split_messages bs = (ms, r)" "\<not> bad_header r"
  shows "length r < 4096"
  using assms
proof (induction bs arbitrary: ms rule: split_messages.induct)
  case (1 bs)
  show ?case
  proof (cases "length bs < 28 \<or> bad_header bs \<or> length bs < declared bs")
    case True
    with 1 show ?thesis by (auto simp: split_messages.simps [of bs] bad_header_def)
  next
    case False
    with 1 show ?thesis by (auto simp: split_messages.simps [of bs] split: prod.splits)
  qed
qed

lemma split_append:
  assumes "split_messages bs = (ms, r)"
  shows "split_messages (bs @ cs) = (let (ms', r') = split_messages (r @ cs) in (ms @ ms', r'))"
  using assms
proof (induction bs arbitrary: ms rule: split_messages.induct)
  case (1 bs)
  show ?case
  proof (cases "length bs < 28 \<or> bad_header bs \<or> length bs < declared bs")
    case True
    with 1 show ?thesis by (simp add: split_messages.simps [of bs])
  next
    case False
    obtain ms1 where ms1: "split_messages (drop (declared bs) bs) = (ms1, r)" "ms = take (declared bs) bs # ms1"
      using False 1(2) by (auto simp: split_messages.simps [of bs] split: prod.splits)
    have d: "declared (bs @ cs) = declared bs" using False by simp
    have "\<not> (length (bs @ cs) < 28 \<or> bad_header (bs @ cs) \<or> length (bs @ cs) < declared (bs @ cs))"
      using False by (auto simp: bad_header_def)
    then show ?thesis
      using 1(1) [OF False ms1(1)] ms1 False
      by (subst split_messages.simps) (simp add: d split: prod.splits)
  qed
qed

lemma split_bad_stays:
  assumes "split_messages bs = (ms, r)" "bad_header r" "split_messages (bs @ cs) = (ms', r')"
  shows "bad_header r'"
proof -
  have "split_messages (r @ cs) = ([], r @ cs)"
    using bad_header_append [OF assms(2)] by (subst split_messages.simps) simp
  then show ?thesis using split_append [OF assms(1), of cs] assms(2,3) by (simp add: bad_header_append)
qed

section \<open>The read buffer\<close>

definition rb_ok :: "read_buffer \<Rightarrow> bool" where
  "rb_ok b \<longleftrightarrow> length (rb_buf b) = 8192 \<and> unat (rb_used b) \<le> 8192"

definition rb_contents :: "read_buffer \<Rightarrow> byte list" where
  "rb_contents b = take (unat (rb_used b)) (rb_buf b)"

lemma rb_new_ok: "rb_ok rb_new" "rb_contents rb_new = []"
  by (simp_all add: rb_ok_def rb_contents_def rb_new_def READ_BUFFER_SIZE_def)

lemma length_rb_contents [simp]: "rb_ok b \<Longrightarrow> length (rb_contents b) = unat (rb_used b)"
  by (simp add: rb_ok_def rb_contents_def)

lemma rb_consume_ok:
  assumes "rb_ok b" "n \<le> 8192"
  shows "rb_ok (rb_consume (of_nat n) b)" "rb_contents (rb_consume (of_nat n) b) = drop n (rb_contents b)"
proof -
  have n: "unat (of_nat n :: u64) = n" using assms(2) by (simp add: unat_of_nat)
  have "rb_ok (rb_consume (of_nat n) b) \<and> rb_contents (rb_consume (of_nat n) b) = drop n (rb_contents b)"
  proof (cases "unat (rb_used b) \<le> n")
    case True
    then show ?thesis using assms by (simp add: rb_consume_def word_le_nat_alt n rb_ok_def rb_contents_def)
  next
    case False
    then have u: "unat (rb_used b - of_nat n) = unat (rb_used b) - n"
      by (simp add: unat_sub word_le_nat_alt n)
    show ?thesis
      using False assms
      by (auto simp: rb_consume_def word_le_nat_alt n u rb_ok_def rb_contents_def Let_def drop_take min_def)
  qed
  then show "rb_ok (rb_consume (of_nat n) b)" "rb_contents (rb_consume (of_nat n) b) = drop n (rb_contents b)"
    by blast+
qed

lemma rb_receive_ok:
  assumes "rb_ok b" "unat (rb_used b) + length bytes \<le> 8192"
  defines "b' \<equiv> rb_advance_write (of_nat (length bytes)) (rb_receive bytes b)"
  shows "rb_ok b'" "rb_contents b' = rb_contents b @ bytes"
proof -
  have "unat (rb_used b + of_nat (length bytes)) = unat (rb_used b) + length bytes"
    using assms(2) by (simp add: unat_word_ariths unat_of_nat)
  with assms show "rb_ok b'" "rb_contents b' = rb_contents b @ bytes"
    by (simp_all add: rb_advance_write_def rb_receive_def rb_ok_def rb_contents_def)
qed

section \<open>Processing the buffer of a connection\<close>

lemma gw_set_conn_simps [simp]:
  "gw_connections (gw_set_conn i c G) = (gw_connections G)[i := c]"
  "gw_set_conn i c (gw_set_conn i d G) = gw_set_conn i c G"
  "gw_connections (gw_count f G) = gw_connections G"
  "gw_count f (gw_set_conn i c G) = gw_set_conn i c (gw_count f G)"
  "gw_send_ok (gw_set_conn i c G) = gw_send_ok G" "gw_sent (gw_set_conn i c G) = gw_sent G"
  "gw_local (gw_set_conn i c G) = gw_local G" "gw_pool (gw_set_conn i c G) = gw_pool G"
  "gw_risk (gw_set_conn i c G) = gw_risk G"
  by (simp_all add: gw_set_conn_def gw_count_def)

lemma gw_set_conn_same: "gw_connections G ! i = c \<Longrightarrow> gw_set_conn i c G = G"
  by (simp add: gw_set_conn_def) (metis gateway.surjective gateway.update_convs(5) list_update_id)

lemma send_ack_conn:
  "send_ack fd i st r (gw_set_conn k c G) = gw_set_conn k c (send_ack fd i st r G)"
  "send_reject fd i r (gw_set_conn k c G) = gw_set_conn k c (send_reject fd i r G)"
  by (simp_all add: send_ack_def send_reject_def gw_now_def Let_def gw_count_def gw_set_conn_def)

lemma process_message_conn:
  "process_message fd m (gw_set_conn k c G) = gw_set_conn k c (process_message fd m G)"
proof -
  have put: "(gw_set_conn k c G)\<lparr>gw_pool := P\<rparr> = gw_set_conn k c (G\<lparr>gw_pool := P\<rparr>)"
    "(gw_set_conn k c G)\<lparr>gw_risk := R\<rparr> = gw_set_conn k c (G\<lparr>gw_risk := R\<rparr>)"
    "gw_now (gw_set_conn k c G) = apsnd (gw_set_conn k c) (gw_now G)" for P R G
    by (simp_all add: gw_set_conn_def gw_now_def)
  have no: "handle_new_order fd m (gw_set_conn k c G) = gw_set_conn k c (handle_new_order fd m G)"
    by (simp add: handle_new_order_def send_ack_conn put Let_def split: option.split prod.split)
  have co: "handle_cancel_order fd m (gw_set_conn k c G) = gw_set_conn k c (handle_cancel_order fd m G)"
    by (simp add: handle_cancel_order_def send_ack_conn put Let_def split: prod.split)
  show ?thesis by (simp add: process_message_def no co Let_def)
qed

text \<open>What the messages of a connection do, one after the other.\<close>

definition received_one :: "gateway \<Rightarrow> gateway" where
  "received_one = gw_count (\<lambda>s. s\<lparr>gl_messages_received := gl_messages_received s + 1\<rparr>)"

definition effects :: "int \<Rightarrow> byte list list \<Rightarrow> gateway \<Rightarrow> gateway" where
  "effects fd ms G = fold (\<lambda>m G. received_one (process_message fd m G)) ms G"

lemma effects_simps [simp]:
  "effects fd [] G = G" "effects fd (m # ms) G = effects fd ms (received_one (process_message fd m G))"
  "effects fd (ms @ ms') G = effects fd ms' (effects fd ms G)"
  by (simp_all add: effects_def)

lemma effects_conn: "effects fd ms (gw_set_conn k c G) = gw_set_conn k c (effects fd ms G)"
  by (induction ms arbitrary: G) (simp_all add: process_message_conn received_one_def)

lemma process_message_connections [simp]: "gw_connections (process_message fd m G) = gw_connections G"
  by (simp add: process_message_def handle_new_order_def handle_cancel_order_def send_ack_def send_reject_def
    gw_now_def Let_def split: option.split prod.split)

lemma effects_connections [simp]: "gw_connections (effects fd ms G) = gw_connections G"
  by (induction ms arbitrary: G) (simp_all add: received_one_def)

text \<open>One attempt: a complete message is processed and consumed, an incomplete one waits.\<close>

lemma try_process_spec:
  assumes "gw_connections G ! fd = Some c" "rb_ok (cn_read_buf c)" "bs = rb_contents (cn_read_buf c)" "\<not> bad_header bs"
  shows "try_process_message fd G =
     (if length bs < 28 \<or> length bs < declared bs then (False, G)
      else (True, gw_set_conn fd (Some (c\<lparr>cn_read_buf := rb_consume (of_nat (declared bs)) (cn_read_buf c)\<rparr>))
             (process_message (cn_fd c) (take (declared bs) bs) G)))"
proof -
  let ?b = "cn_read_buf c"
  have used: "unat (rb_used ?b) = length bs" using assms(2,3) by simp
  have "declared (take (unat (rb_used ?b)) (rb_buf ?b)) = declared (rb_buf ?b)" if "28 \<le> length bs"
    using that used by simp
  then have hdr: "unat (mh_length (header_of_bytes (rb_buf ?b))) = declared bs" if "28 \<le> length bs"
    using that assms(3) unfolding rb_contents_def declared_def by metis
  have msg: "take n (rb_buf ?b) = take n bs" if "n \<le> length bs" for n
    using that used unfolding assms(3) rb_contents_def by (simp only: take_take min_absorb1)
  show ?thesis
  proof (cases "length bs < 28")
    case True
    then show ?thesis using assms(1) used by (simp add: try_process_message_def sizeof_MessageHeader_def Let_def)
  next
    case False
    then have len: "\<not> declared bs < 28" "\<not> 4096 < declared bs" using assms(4) by (simp_all add: bad_header_def)
    show ?thesis
      using False assms(1) used hdr len msg [of "declared bs"]
      by (simp add: try_process_message_def sizeof_MessageHeader_def MAX_MESSAGE_SIZE_def Let_def del: of_nat_unat)
  qed
qed

lemma process_loop_spec:
  assumes "fd < length (gw_connections G)" "gw_connections G ! fd = Some c" "rb_ok (cn_read_buf c)"
    and "split_messages (rb_contents (cn_read_buf c)) = (ms, r)" "\<not> bad_header r"
  shows "\<exists>b. rb_ok b \<and> rb_contents b = r \<and>
     process_loop fd G = Some (gw_set_conn fd (Some (c\<lparr>cn_read_buf := b\<rparr>)) (effects (cn_fd c) ms G))"
  using assms
proof (induction "length (rb_contents (cn_read_buf c))" arbitrary: G c ms rule: less_induct)
  case less
  let ?b = "cn_read_buf c"
  let ?bs = "rb_contents ?b" let ?len = "declared ?bs"
  have good: "\<not> bad_header ?bs"
    using less.prems(4,5) by (auto simp: split_messages.simps [of ?bs])
  note attempt = try_process_spec [OF less.prems(2,3) refl good]
  show ?case
  proof (cases "length ?bs < 28 \<or> length ?bs < ?len")
    case True
    then have r: "ms = []" "r = ?bs" using less.prems(4) by (auto simp: split_messages.simps [of ?bs])
    have "process_loop fd G = Some G" using attempt True by (subst process_loop.simps) simp
    then show ?thesis
      using r less.prems(2,3) gw_set_conn_same [of G fd "Some c"] by (intro exI [of _ ?b]) simp
  next
    case False
    let ?b1 = "rb_consume (of_nat ?len) ?b" and ?m = "take ?len ?bs"
    let ?c1 = "c\<lparr>cn_read_buf := ?b1\<rparr>"
    let ?G1 = "gw_set_conn fd (Some ?c1) (received_one (process_message (cn_fd c) ?m G))"
    have len: "28 \<le> ?len" "?len \<le> 4096" "?len \<le> length ?bs" using False good by (auto simp: bad_header_def)
    obtain ms1 where ms1: "split_messages (drop ?len ?bs) = (ms1, r)" "ms = ?m # ms1"
      using False good less.prems(4) by (auto simp: split_messages.simps [of ?bs] split: prod.splits)
    have b1: "rb_ok ?b1" "rb_contents ?b1 = drop ?len ?bs"
      using rb_consume_ok [OF less.prems(3), of ?len] len by simp_all
    have "length (rb_contents (cn_read_buf ?c1)) < length ?bs" using b1(2) len by simp
    moreover have "fd < length (gw_connections ?G1)" "gw_connections ?G1 ! fd = Some ?c1"
      using less.prems(1) by (simp_all add: received_one_def)
    moreover have "split_messages (rb_contents (cn_read_buf ?c1)) = (ms1, r)" using b1(2) ms1(1) by simp
    ultimately obtain b where b: "rb_ok b" "rb_contents b = r"
      "process_loop fd ?G1 = Some (gw_set_conn fd (Some (?c1\<lparr>cn_read_buf := b\<rparr>)) (effects (cn_fd ?c1) ms1 ?G1))"
      using less.hyps [of ?c1 ?G1 ms1] b1(1) less.prems(5) by auto
    have "process_loop fd G = process_loop fd ?G1"
      using attempt False by (subst process_loop.simps) (simp add: received_one_def)
    with b ms1(2) show ?thesis by (intro exI [of _ b]) (simp add: effects_conn)
  qed
qed

lemma split_rest: "split_messages bs = (ms, r) \<Longrightarrow> split_messages r = ([], r)"
proof (induction bs arbitrary: ms rule: split_messages.induct)
  case (1 bs)
  show ?case
  proof (cases "length bs < 28 \<or> bad_header bs \<or> length bs < declared bs")
    case True
    with 1(2) have "r = bs" by (simp add: split_messages.simps [of bs])
    with True show ?thesis by (simp add: split_messages.simps [of bs])
  next
    case False
    with 1 show ?thesis by (auto simp: split_messages.simps [of bs] split: prod.splits)
  qed
qed

lemma receive_loop_spec:
  assumes "fd < length (gw_connections G)" "gw_connections G ! fd = Some c" "rb_ok (cn_read_buf c)"
    and "rest = rb_contents (cn_read_buf c)" "split_messages rest = ([], rest)"
    and "\<forall>p\<in>set pieces. length p \<le> 4096" "split_messages (rest @ concat pieces) = (ms, r)" "\<not> bad_header r"
  shows "\<exists>b. rb_ok b \<and> rb_contents b = r \<and> receive_loop fd (map Received pieces) G =
       Some (gw_set_conn fd (Some (c\<lparr>cn_read_buf := b\<rparr>)) (effects (cn_fd c) ms G))"
  using assms
proof (induction pieces arbitrary: G c rest ms)
  case Nil
  then have "ms = []" "r = rest" by simp_all
  with Nil gw_set_conn_same [of G fd "Some c"] show ?case by (intro exI [of _ "cn_read_buf c"]) simp
next
  case (Cons p ps)
  let ?b = "rb_advance_write (of_nat (length p)) (rb_receive p (cn_read_buf c))"
  let ?c = "c\<lparr>cn_read_buf := ?b\<rparr>"
  let ?G = "gw_set_conn fd (Some ?c) G"
  have "\<not> bad_header rest"
    using split_bad_stays [OF Cons.prems(5) _ Cons.prems(7)] Cons.prems(8) by blast
  then have "length rest < 4096" using split_rest_short [OF Cons.prems(5)] by blast
  then have "unat (rb_used (cn_read_buf c)) + length p \<le> 8192" using Cons.prems(3,4,6) by simp
  note b = rb_receive_ok [OF Cons.prems(3) this]
  obtain ms1 r1 where s1: "split_messages (rest @ p) = (ms1, r1)" by force
  have r1: "\<not> bad_header r1"
    using split_bad_stays [OF s1, of "concat ps"] Cons.prems(7,8) by auto
  obtain b1 where b1: "rb_ok b1" "rb_contents b1 = r1"
    "process_loop fd ?G = Some (gw_set_conn fd (Some (?c\<lparr>cn_read_buf := b1\<rparr>)) (effects (cn_fd ?c) ms1 ?G))"
    using process_loop_spec [of fd ?G ?c ms1 r1] Cons.prems(1,4) b s1 r1 by auto
  let ?c1 = "c\<lparr>cn_read_buf := b1\<rparr>"
  let ?G1 = "gw_set_conn fd (Some ?c1) (effects (cn_fd c) ms1 G)"
  obtain ms2 where ms2: "split_messages (r1 @ concat ps) = (ms2, r)" "ms = ms1 @ ms2"
    using split_append [OF s1, of "concat ps"] Cons.prems(7) by (auto split: prod.splits)
  obtain b2 where b2: "rb_ok b2" "rb_contents b2 = r"
    "receive_loop fd (map Received ps) ?G1 =
       Some (gw_set_conn fd (Some (?c1\<lparr>cn_read_buf := b2\<rparr>)) (effects (cn_fd ?c1) ms2 ?G1))"
    using Cons.IH [of ?G1 ?c1 r1 ms2] Cons.prems(1,6,8) b1(1,2) split_rest [OF s1] ms2(1) by auto
  have "process_loop fd ?G = Some ?G1" using b1(3) by (simp add: effects_conn)
  with b2 ms2(2) Cons.prems(2) show ?case
    by (intro exI [of _ b2]) (simp add: effects_conn)
qed


definition ex_gateway :: "nat \<Rightarrow> gateway" where
  "ex_gateway fd = accept_connection fd (gw_new 8888 ex_risk (ex_pool [default_order, default_order]) (\<lambda>_. 0) (\<lambda>_. True))"

definition ex_heartbeat :: "byte list" where
  "ex_heartbeat = bytes_of_header (make_header MT_HEARTBEAT 28 1 0)"

lemma ex_gateway_facts:
  assumes "fd < 1024"
  shows "fd < length (gw_connections (ex_gateway fd))"
    "gw_connections (ex_gateway fd) ! fd = Some (connection_new fd 0)"
    "rb_ok (cn_read_buf (connection_new fd 0))" "rb_contents (cn_read_buf (connection_new fd 0)) = []"
    "cn_fd (connection_new fd 0) = int fd" "gw_pool (ex_gateway fd) = ex_pool [default_order, default_order]" "gw_risk (ex_gateway fd) = ex_risk"
    "gl_messages_received (gw_local (ex_gateway fd)) = 0"
  using assms rb_new_ok
  by (simp_all add: ex_gateway_def accept_connection_def gw_new_def MAX_CONNECTIONS_def gw_now_def
    connection_new_def gw_release_conn_def gw_set_conn_def gw_count_def)

lemma split_heartbeat: "split_messages (ex_heartbeat @ bs) = (let (ms, r) = split_messages bs in (ex_heartbeat # ms, r))"
proof -
  have d: "declared (ex_heartbeat @ bs) = 28"
    by (simp add: declared_def ex_heartbeat_def header_roundtrip make_header_def)
  have "length ex_heartbeat = 28" by (simp add: ex_heartbeat_def)
  with d show ?thesis by (subst split_messages.simps) (simp add: bad_header_def)
qed


section \<open>New orders and cancels\<close>

text \<open>Exactly one acknowledgement was sent, with the next sequence number.\<close>

definition replied :: "int \<Rightarrow> u64 \<Rightarrow> u8 \<Rightarrow> string \<Rightarrow> gateway \<Rightarrow> gateway \<Rightarrow> bool" where
  "replied fd order_id status reason G G' \<longleftrightarrow>
     gl_next_sequence (gw_local G') = gl_next_sequence (gw_local G) + 1 \<and>
     (\<exists>now. gw_sent G' = gw_sent G @ [(fd, bytes_of_order_ack
        \<lparr>oa_header = make_header MT_ORDER_ACK 77 (gl_next_sequence (gw_local G)) now,
         oa_order_id = order_id, oa_status = status, oa_reason = ack_reason reason\<rparr>)])"

lemma send_ack_frame [simp, frame]:
  "gw_pool (send_ack fd i st r G) = gw_pool G" "gw_risk (send_ack fd i st r G) = gw_risk G"
  "gw_pool (send_reject fd i r G) = gw_pool G" "gw_risk (send_reject fd i r G) = gw_risk G"
  "gw_pool (gw_count f G) = gw_pool G" "gw_risk (gw_count f G) = gw_risk G" "gw_sent (gw_count f G) = gw_sent G"
  "gw_local (gw_count f G) = f (gw_local G)"
  by (simp_all add: send_ack_def send_reject_def gw_now_def gw_count_def Let_def)

lemma send_ack_replied:
  assumes "gw_sent G0 = gw_sent G" "gw_local G0 = gw_local G"
  shows "replied fd i st r G (send_ack fd i st r G0)" "replied fd i 2 r G (send_reject fd i r G0)"
  using assms
  by (auto simp: replied_def send_ack_def send_reject_def gw_now_def gw_count_def Let_def sizeof_OrderAckMessage_def)

lemma replied_count:
  "(\<And>s. gl_next_sequence (f s) = gl_next_sequence s) \<Longrightarrow> replied fd i st r G G' \<Longrightarrow> replied fd i st r G (gw_count f G')"
  by (simp add: replied_def)

lemma new_order_effect:
  assumes "mp_inv (gw_pool G)" "sq_inv (rm_input (gw_risk G))" "110 \<le> length data"
    and G': "G' = handle_new_order fd data G" and "msg = new_order_of_bytes data" "q = rm_input (gw_risk G)"
  shows "mp_inv (gw_pool G') \<and> sq_inv (rm_input (gw_risk G')) \<and>
    gw_risk G' = (gw_risk G)\<lparr>rm_input := rm_input (gw_risk G')\<rparr> \<and>
    (case mp_free (gw_pool G) of
       [] \<Rightarrow> replied fd (no_order_id msg) 2 ''Order pool exhausted'' G G' \<and>
             gw_pool G' = gw_pool G \<and> gw_risk G' = gw_risk G
     | p # ps \<Rightarrow>
         if length (sq_contents q) < sq_cap q
         then replied fd (no_order_id msg) 1 ''Accepted'' G G' \<and> mp_free (gw_pool G') = ps \<and>
              sq_contents (rm_input (gw_risk G')) = sq_contents q @ [RISK_NEW (Some p)] \<and>
              (\<exists>now. mp_pool (gw_pool G') = (mp_pool (gw_pool G))[p := order_of_message msg now])
         else replied fd (no_order_id msg) 2 ''Risk queue full'' G G' \<and> mp_free (gw_pool G') = p # ps \<and>
              sq_contents (rm_input (gw_risk G')) = sq_contents q \<and>
              (\<exists>x. mp_pool (gw_pool G') = (mp_pool (gw_pool G))[p := x]))"
proof -
  have size: "\<not> length data < sizeof_NewOrderMessage" using assms(3) by (simp add: sizeof_NewOrderMessage_def)
  show ?thesis
  proof (cases "mp_free (gw_pool G)")
    case Nil
    have "mp_allocate (gw_pool G) = (None, gw_pool G)" by (rule mp_allocate_none [OF assms(1) Nil])
    then have "G' = gw_count (\<lambda>s. s\<lparr>gl_pool_exhausted := gl_pool_exhausted s + 1\<rparr>)
        (send_reject fd (no_order_id msg) ''Order pool exhausted'' G)"
      using G' size assms(5) by (simp add: handle_new_order_def)
    then show ?thesis
      using Nil assms(1,2) by (simp add: replied_count send_ack_replied)
  next
    case (Cons p ps)
    obtain P where P: "mp_allocate (gw_pool G) = (Some p, P)" "mp_inv P" "mp_free P = ps"
      "mp_slots P = mp_slots (gw_pool G)" "mp_pool P = mp_pool (gw_pool G)"
      using mp_allocate_some [OF assms(1) Cons] by blast
    obtain pushed q' where q': "sq_push (RISK_NEW (Some p)) q = (pushed, q')" by force
    note push = sq.push_spec [OF assms(2)[folded assms(6)] q']
    let ?now = "gw_clock G (gw_ticks G)"
    let ?P1 = "P\<lparr>mp_pool := (mp_pool P)[p := order_of_message msg ?now]\<rparr>"
    let ?G2 = "G\<lparr>gw_ticks := Suc (gw_ticks G), gw_pool := ?P1, gw_risk := (gw_risk G)\<lparr>rm_input := q'\<rparr>\<rparr>"
    have run: "G' = (if pushed then send_ack fd (no_order_id msg) 1 ''Accepted'' ?G2
        else send_reject fd (no_order_id msg) ''Risk queue full''
               (?G2\<lparr>gw_pool := mp_deallocate (Some p) ?P1\<rparr>))"
      using G' size P(1) q' assms(5,6) by (simp add: handle_new_order_def gw_now_def rm_submit_order_def Let_def)
    have P1: "mp_inv ?P1" "mp_free ?P1 = ps" "mp_slots ?P1 = mp_slots P"
      using P by (simp_all add: mp_slots_def)
    have p: "p < mp_slots ?P1" "p \<notin> set (mp_free ?P1)"
      using mp_head_index_Cons(4) [OF assms(1) Cons] assms(1) Cons P by (simp_all add: mp_inv_def P1)
    show ?thesis
    proof (cases pushed)
      case True
      then show ?thesis
        using run push P1 P(5) Cons by (auto simp: send_ack_replied)
    next
      case False
      then show ?thesis
        using run push P1 P(5) mp_deallocate_ok [OF P1(1) p] Cons by (auto simp: send_ack_replied)
    qed
  qed
qed


definition ex_new_order :: "byte list" where
  "ex_new_order = bytes_of_new_order
     \<lparr>no_header = make_header MT_NEW_ORDER 110 1 0, no_order_id = 9, no_client_id = bs_default 32,
      no_symbol = bs_default 8, no_side = 1, no_quantity = 5, no_price = 100, no_order_type = 2\<rparr>"


end
