(* ===== verification/RTES_System.thy ===== *)
theory RTES_System
  imports RTES_Exchange RTES_Risk_Limits RTES_Gateway_Props
begin

text \<open>
  The running exchange: gateway messages, the risk manager's worker, the engines' workers and
  the publisher take turns on the shared pool, the rings and the market data queue. The
  invariant says who owns which slot of the pool; from it follow the independence of the books
  and the end of the shutdown sequence.
\<close>

section \<open>An engine on the shared pool\<close>

definition dress :: "order mpool \<Rightarrow> md_event mpmc \<Rightarrow> engine \<Rightarrow> engine" where
  "dress P m E =
     E\<lparr>en_book := (en_book E)\<lparr>bk_pool := P,
        bk_ctx := (en_ctx E)\<lparr>ec_md := map_option (\<lambda>_. m) (ec_md (en_ctx E))\<rparr>\<rparr>\<rparr>"

lemma w_load_dress: "w_load i W = dress (w_pool W) (w_md W) (w_engines W ! i)"
  by (simp add: w_load_def dress_def Let_def)

abbreviation ring :: "engine \<Rightarrow> order_request list" where
  "ring E \<equiv> sq_contents (en_input E)"

definition owns :: "engine \<Rightarrow> nat set" where
  "owns E = live (en_book E) \<union> set (pending (ring E))"

definition sound :: "order mpool \<Rightarrow> md_event mpmc \<Rightarrow> engine \<Rightarrow> bool" where
  "sound P m E \<longleftrightarrow> sq_inv (en_input E) \<and> ready (ring E) (dress P m E) \<and> NEW_ORDER None \<notin> set (ring E) \<and>
     \<not> bk_shutdown (en_book E)"

lemma dress_frame [simp]:
  "en_input (dress P m E) = en_input E" "bk_pool (en_book (dress P m E)) = P"
  "live (en_book (dress P m E)) = live (en_book E)" "lad d (en_book (dress P m E)) = lad d (en_book E)"
  "bk_callback (en_book (dress P m E)) = bk_callback (en_book E)" "en_running (dress P m E) = en_running E"
  "book_bound n (en_book (dress P m E)) = book_bound n (en_book E)"
  "bk_shutdown (en_book (dress P m E)) = bk_shutdown (en_book E)"
  by (simp_all add: dress_def live_def lad_def book_bound_def)

lemma dress_same: "bk_pool (en_book E) = P \<Longrightarrow> (\<forall>q. ec_md (en_ctx E) = Some q \<longrightarrow> m = q) \<Longrightarrow> dress P m E = E"
  by (cases "ec_md (en_ctx E)") (auto simp: dress_def)

lemma sound_owns:
  assumes "sound P m E" "x \<in> owns E"
  shows "x < length (mp_pool P)" "x \<notin> set (mp_free P)"
  using assms by (auto simp: sound_def owns_def ready_def ob_consistent_def book_inv_def fresh_def)

lemma sound_pool_inv: "sound P m E \<Longrightarrow> mp_inv P"
  by (simp add: sound_def ready_def ob_consistent_def book_inv_def)

text \<open>Other users of the pool leave an engine sound when they keep off its slots.\<close>

lemma sound_others:
  assumes s: "sound P m E" and P': "mp_inv P'" "length (mp_pool P') = length (mp_pool P)" "mq_inv m'"
    and off: "\<forall>x\<in>owns E. x \<notin> set (mp_free P')" "\<forall>x\<in>live (en_book E). mp_pool P' ! x = mp_pool P ! x"
  shows "sound P' m' E"
proof -
  let ?B = "en_book (dress P m E)" and ?B' = "en_book (dress P' m' E)"
  have c: "ob_consistent ?B" using s by (simp add: sound_def ready_def)
  have eq: "?B' = (?B\<lparr>bk_pool := P'\<rparr>)\<lparr>bk_ctx := en_ctx (dress P' m' E)\<rparr>" by (simp add: dress_def)
  have "ob_consistent (?B\<lparr>bk_pool := P'\<rparr>)"
    using P' off by (intro ob_consistent_others [OF c]) (auto simp: owns_def ord_def)
  then have "ob_consistent ?B'" by (subst eq) simp
  moreover have "md_ok (en_ctx (dress P' m' E))" using P'(3) by (auto simp: md_ok_def dress_def)
  ultimately show ?thesis using s P'(2) off by (auto simp: sound_def ready_def fresh_def owns_def)
qed

text \<open>What a submitter does to an engine.\<close>

lemma submit_sound:
  assumes s: "sound P m E" and r: "r \<noteq> NEW_ORDER None"
    and new: "\<And>a. r = NEW_ORDER (Some a) \<Longrightarrow> a < length (mp_pool P) \<and> a \<notin> set (mp_free P) \<and> a \<notin> owns E"
    and sub: "submit_request r E = (b, E')"
  shows "sound P m E'" "ring E' = (if b then ring E @ [r] else ring E)"
    "live (en_book E') = live (en_book E)" "book_bound n (en_book E') = book_bound n (en_book E)"
    "en_running E' = en_running E"
proof -
  obtain q where q: "sq_push r (en_input E) = (b, q)"
    using sub by (auto simp: submit_request_def Let_def split: prod.splits if_splits)
  define c where "c = (if b then en_ctx E
    else upd_stats (\<lambda>s. s\<lparr>ls_queue_full_count := ls_queue_full_count s + 1\<rparr>) (en_ctx E))"
  have E': "E' = set_ctx c (E\<lparr>en_input := q\<rparr>)" "ec_md c = ec_md (en_ctx E)"
    using sub q by (auto simp: submit_request_def count_stats_def upd_stats_def set_ctx_def c_def)
  have "sq_inv (en_input E)" using s by (simp add: sound_def)
  note sp = sq.push_spec [OF this q]
  show ring: "ring E' = (if b then ring E @ [r] else ring E)" using sp by (auto simp: E' set_ctx_def)
  show lv: "live (en_book E') = live (en_book E)" "book_bound n (en_book E') = book_bound n (en_book E)"
    "en_running E' = en_running E" for n by (simp_all add: E' set_ctx_def)
  have dr: "en_book (dress P m E') = (en_book (dress P m E))\<lparr>bk_ctx := en_ctx (dress P m E')\<rparr>"
    by (simp add: dress_def E' set_ctx_def)
  have con: "ob_consistent (en_book (dress P m E')) = ob_consistent (en_book (dress P m E))"
    "bk_callback (en_book (dress P m E')) = bk_callback (en_book (dress P m E))"
    by (subst dr, simp)+
  have "md_ok (en_ctx (dress P m E'))"
    using s by (simp add: sound_def ready_def md_ok_def) (simp add: dress_def E' set_ctx_def)
  moreover have "pending [r] = [] \<or> (\<exists>a. r = NEW_ORDER (Some a) \<and> pending [r] = [a])"
    by (cases "[r]" rule: pending.cases) auto
  ultimately have "ready (ring E') (dress P m E')"
    using s new unfolding ring sound_def ready_def con
    by (auto simp: pending_app fresh_def owns_def lv)
  moreover have "bk_shutdown (en_book E') = bk_shutdown (en_book E)" by (simp add: E' set_ctx_def)
  ultimately show "sound P m E'" using s r sp unfolding sound_def ring by (auto simp: E' set_ctx_def)
qed

section \<open>Who owns which slot\<close>

fun waiting :: "risk_request list \<Rightarrow> nat list" where
  "waiting [] = []"
| "waiting (RISK_NEW (Some a) # rs) = a # waiting rs"
| "waiting (r # rs) = waiting rs"

lemma waiting_app: "waiting (rs @ rs') = waiting rs @ waiting rs'"
  by (induction rs rule: waiting.induct) auto

text \<open>
  \<open>world_inv rs n W\<close>, with \<open>rs\<close> in the ring of the risk manager and \<open>n\<close> requests submitted so
  far: every engine is sound on the shared pool, no slot has two owners, an order on its way to
  the risk manager belongs to no engine, and nothing that is owned is free. The last conjunct
  keeps account of how long a level can have become.
\<close>

definition world_inv :: "risk_request list \<Rightarrow> nat \<Rightarrow> world \<Rightarrow> bool" where
  "world_inv rs n W \<longleftrightarrow>
     mp_inv (w_pool W) \<and> mq_inv (w_md W) \<and>
     (\<forall>E\<in>set (w_engines W). sound (w_pool W) (w_md W) E) \<and>
     (\<forall>i<length (w_engines W). \<forall>j<length (w_engines W). i \<noteq> j \<longrightarrow>
        owns (w_engines W ! i) \<inter> owns (w_engines W ! j) = {}) \<and>
     distinct (waiting rs) \<and> RISK_NEW None \<notin> set rs \<and>
     (\<forall>a\<in>set (waiting rs). a < length (mp_pool (w_pool W)) \<and> a \<notin> set (mp_free (w_pool W)) \<and>
        (\<forall>E\<in>set (w_engines W). a \<notin> owns E)) \<and>
     (\<forall>E\<in>set (w_engines W). \<exists>k. book_bound k (en_book E) \<and> k + length (ring E) + length rs \<le> n)"

lemma world_invD:
  assumes "world_inv rs n W"
  shows "mp_inv (w_pool W)" "mq_inv (w_md W)" "E \<in> set (w_engines W) \<Longrightarrow> sound (w_pool W) (w_md W) E"
    "i < length (w_engines W) \<Longrightarrow> j < length (w_engines W) \<Longrightarrow> i \<noteq> j \<Longrightarrow>
       owns (w_engines W ! i) \<inter> owns (w_engines W ! j) = {}"
    "distinct (waiting rs)" "RISK_NEW None \<notin> set rs"
    "a \<in> set (waiting rs) \<Longrightarrow> a < length (mp_pool (w_pool W)) \<and> a \<notin> set (mp_free (w_pool W))"
    "a \<in> set (waiting rs) \<Longrightarrow> E \<in> set (w_engines W) \<Longrightarrow> a \<notin> owns E"
    "E \<in> set (w_engines W) \<Longrightarrow> \<exists>k. book_bound k (en_book E) \<and> k + length (ring E) + length rs \<le> n"
  using assms by (simp_all add: world_inv_def)

text \<open>
  One engine is replaced and the pool changes only in slots that the engine owned before or
  that nobody owned.
\<close>

lemma world_inv_replace:
  assumes W: "world_inv (rs0 @ rs) n W" "i < length (w_engines W)"
    and s: "sound P m E'" "mq_inv m" "length (mp_pool P) = length (mp_pool (w_pool W))"
    and own: "owns E' \<subseteq> owns (w_engines W ! i) \<union> set (waiting rs0)"
    and off: "\<forall>j<length (w_engines W). j \<noteq> i \<longrightarrow> (\<forall>x\<in>owns (w_engines W ! j). x \<notin> set (mp_free P) \<and>
        mp_pool P ! x = mp_pool (w_pool W) ! x)"
    and wait: "\<forall>x\<in>set (waiting rs). x \<notin> set (mp_free P)"
    and bound: "book_bound k (en_book E')" "k + length (ring E') + length rs \<le> n"
  shows "world_inv rs n (W\<lparr>w_pool := P, w_engines := (w_engines W)[i := E'], w_md := m\<rparr>)"
proof -
  let ?Es = "w_engines W" and ?len = "length (w_engines W)"
  have nth: "?Es[i := E'] ! j = (if j = i then E' else ?Es ! j)" if "j < ?len" for j
    using that by simp
  have old: "sound (w_pool W) (w_md W) (?Es ! j)" if "j < ?len" for j
    by (rule world_invD(3) [OF W(1) nth_mem [OF that]])
  note dis = world_invD(4) [OF W(1)]
  have fr: "x \<notin> owns (?Es ! j)" if "x \<in> set (waiting (rs0 @ rs))" "j < ?len" for x j
    by (rule world_invD(8) [OF W(1) that(1) nth_mem [OF that(2)]])
  have snd: "sound P m (?Es ! j)" if "j < ?len" "j \<noteq> i" for j
    using sound_others [OF old [OF that(1)] sound_pool_inv [OF s(1)] s(3,2)] off that by (auto simp: owns_def)
  have all: "(\<forall>E\<in>set (?Es[i := E']). Q E) \<longleftrightarrow> (\<forall>j<?len. Q (?Es[i := E'] ! j))" for Q
    by (simp add: all_set_conv_all_nth)
  have d: "distinct (waiting rs0 @ waiting rs)" using W(1) by (simp add: world_inv_def waiting_app)
  have apart: "owns E' \<inter> owns (?Es ! j) = {}" if "j < ?len" "j \<noteq> i" for j
    using own dis [OF W(2) that(1)] fr [OF _ that(1)] that(2) by (auto simp: waiting_app)
  have "owns (?Es[i := E'] ! j) \<inter> owns (?Es[i := E'] ! l) = {}" if "j < ?len" "l < ?len" "j \<noteq> l" for j l
    using dis [OF that] apart [OF that(1)] apart [OF that(2)] that(3) unfolding nth [OF that(1)] nth [OF that(2)]
    by (cases "j = i"; cases "l = i") (simp_all add: Int_commute)
  moreover have "a \<notin> owns (?Es[i := E'] ! j)" if "a \<in> set (waiting rs)" "j < ?len" for a j
    using own fr [of a] that(1) d W(2) that(2) unfolding nth [OF that(2)] by (auto simp: waiting_app)
  moreover have "\<exists>k. book_bound k (en_book E) \<and> k + length (ring E) + length rs \<le> n" if "E \<in> set (?Es[i := E'])" for E
  proof (cases "E = E'")
    case False
    then have "E \<in> set ?Es" using that set_update_subset_insert by fastforce
    then obtain k where "book_bound k (en_book E)" "k + length (ring E) + length (rs0 @ rs) \<le> n"
      using world_invD(9) [OF W(1)] by blast
    then show ?thesis by (intro exI [of _ k]) simp
  qed (use bound in blast)
  moreover have "\<forall>E\<in>set (?Es[i := E']). sound P m E" unfolding all using snd s(1) W(2) by (simp add: nth_list_update)
  ultimately show ?thesis
    using W(1) s sound_pool_inv [OF s(1)] wait
    unfolding world_inv_def by (simp add: all waiting_app)
qed

text \<open>The engines stay and the pool, the queue or the ring of the risk manager changes.\<close>

lemma world_inv_kept:
  assumes W: "world_inv rs n W" and P: "mp_inv P" "length (mp_pool P) = length (mp_pool (w_pool W))" "mq_inv m"
    and off: "\<And>E x. E \<in> set (w_engines W) \<Longrightarrow> x \<in> owns E \<Longrightarrow> x \<notin> set (mp_free P)"
      "\<And>E x. E \<in> set (w_engines W) \<Longrightarrow> x \<in> live (en_book E) \<Longrightarrow> mp_pool P ! x = mp_pool (w_pool W) ! x"
    and rs': "distinct (waiting rs')" "RISK_NEW None \<notin> set rs'" "length rs' + n \<le> length rs + n'"
      "\<And>a. a \<in> set (waiting rs') \<Longrightarrow> a < length (mp_pool P) \<and> a \<notin> set (mp_free P)"
      "\<And>a E. a \<in> set (waiting rs') \<Longrightarrow> E \<in> set (w_engines W) \<Longrightarrow> a \<notin> owns E"
  shows "world_inv rs' n' (W\<lparr>w_pool := P, w_md := m\<rparr>)"
proof -
  have "sound P m E" if E: "E \<in> set (w_engines W)" for E
  proof -
    show ?thesis using off [OF E] by (intro sound_others [OF world_invD(3) [OF W E] P]) simp_all
  qed
  moreover have "\<exists>k. book_bound k (en_book E) \<and> k + length (ring E) + length rs' \<le> n'"
    if E: "E \<in> set (w_engines W)" for E
  proof -
    obtain k where "book_bound k (en_book E)" "k + length (ring E) + length rs \<le> n"
      using world_invD(9) [OF W E] by blast
    with rs'(3) show ?thesis by (intro exI [of _ k]) simp
  qed
  ultimately show ?thesis using world_invD(4) [OF W] P rs' unfolding world_inv_def by simp
qed

section \<open>A turn of an engine\<close>

lemma world_inv_engine:
  assumes "world_inv rs n W" "i < length (w_engines W)"
  obtains k where "sq_inv (en_input (w_load i W))" "ready (ring (w_load i W)) (w_load i W)"
    "NEW_ORDER None \<notin> set (ring (w_load i W))" "\<not> bk_shutdown (en_book (w_load i W))"
    "book_bound k (en_book (w_load i W))" "k + length (ring (w_load i W)) + length rs \<le> n"
proof -
  have mem: "w_engines W ! i \<in> set (w_engines W)" using assms(2) by simp
  then obtain k where "book_bound k (en_book (w_engines W ! i))"
    "k + length (ring (w_engines W ! i)) + length rs \<le> n"
    using world_invD(9) [OF assms(1)] by blast
  with world_invD(3) [OF assms(1) mem] show ?thesis by (intro that [of k]) (simp_all add: sound_def w_load_dress)
qed

lemma engine_turn:
  assumes W: "world_inv rs n W" "i < length (w_engines W)"
    and E': "served rs1 rs2 k (w_load i W) E'" "sq_inv (en_input E')" "ring E' = rs2"
    and rs: "ring (w_load i W) = rs1 @ rs2" "k + length (rs1 @ rs2) + length rs \<le> n"
  shows "world_inv rs n (w_store i E' W)"
proof -
  define m where "m = (case ec_md (en_ctx E') of None \<Rightarrow> w_md W | Some q \<Rightarrow> q)"
  let ?P = "bk_pool (en_book E')" and ?E = "w_engines W ! i"
  have rd: "ready rs2 E'" and sh: "\<not> bk_shutdown (en_book E')" and bd: "book_bound (k + length rs1) (en_book E')"
    and as: "aside (set (pending rs1)) (en_book (w_load i W)) (en_book E')"
    using E'(1) by (simp_all add: served_def)
  have ring: "ring ?E = rs1 @ rs2" using rs(1) by (simp add: w_load_dress)
  have own: "live (en_book (w_load i W)) \<union> set (pending rs1) \<subseteq> owns ?E"
    by (auto simp: w_load_dress owns_def ring pending_app)
  have E: "?E \<in> set (w_engines W)" using W(2) by simp
  have "NEW_ORDER None \<notin> set (ring ?E)" using world_invD(3) [OF W(1) E] by (simp add: sound_def)
  moreover have "dress ?P m E' = E'" by (rule dress_same) (auto simp: m_def)
  ultimately have s: "sound ?P m E'" using E'(2,3) rd sh by (simp add: sound_def ring)
  have m: "mq_inv m"
    using world_invD(2) [OF W(1)] rd by (auto simp: m_def ready_def md_ok_def split: option.split)
  have off: "x \<notin> set (mp_free ?P) \<longleftrightarrow> x \<notin> set (mp_free (w_pool W))" "mp_pool ?P ! x = mp_pool (w_pool W) ! x"
    if "x \<notin> owns ?E" for x
    using as own that by (auto simp: aside_def ord_def w_load_dress)
  have len: "length (mp_pool ?P) = length (mp_pool (w_pool W))" using as by (simp add: aside_def w_load_dress)
  have sub: "owns E' \<subseteq> owns ?E \<union> set (waiting [])"
    using as by (auto simp: aside_def w_load_dress owns_def ring E'(3) pending_app)
  have others: "\<forall>j<length (w_engines W). j \<noteq> i \<longrightarrow> (\<forall>x\<in>owns (w_engines W ! j). x \<notin> set (mp_free ?P) \<and>
        mp_pool ?P ! x = mp_pool (w_pool W) ! x)"
  proof (intro allI impI ballI)
    fix j x assume j: "j < length (w_engines W)" "j \<noteq> i" "x \<in> owns (w_engines W ! j)"
    then have "x \<notin> owns ?E" using world_invD(4) [OF W(1) j(1) W(2)] by blast
    moreover have "x \<notin> set (mp_free (w_pool W))" 
      by (rule sound_owns(2) [OF world_invD(3) [OF W(1) nth_mem [OF j(1)]] j(3)])
    ultimately show "x \<notin> set (mp_free ?P) \<and> mp_pool ?P ! x = mp_pool (w_pool W) ! x" using off by blast
  qed
  have wait: "\<forall>x\<in>set (waiting rs). x \<notin> set (mp_free ?P)"
    using world_invD(7,8) [OF W(1)] E off(1) by blast
  have "k + length rs1 + length (ring E') + length rs \<le> n" using rs(2) unfolding E'(3) by simp
  from world_inv_replace [OF _ W(2) s m len sub others wait bd this] W(1)
  have "world_inv rs n (W\<lparr>w_pool := ?P, w_engines := (w_engines W)[i := E'], w_md := m\<rparr>)"
    unfolding append_Nil by blast
  then show ?thesis by (simp add: w_store_def m_def)
qed

lemma compact_live [simp]: "live (ob_compact B) = live B"
  by (simp add: live_lad [of _ True] compact_lad)

lemma compact_bound: "book_bound n B \<Longrightarrow> book_bound n (ob_compact B)"
  by (fastforce simp: book_bound_def compact_lad fb_compact_all_def fl_compact_def)

lemma served_compact:
  assumes "served rs rs' n E E'"
  shows "served rs rs' n E (maybe_compact E')"
proof -
  let ?B = "ob_compact (en_book E')"
  have con: "ob_consistent (en_book E')" using assms by (simp add: served_def ready_def)
  have inv: "book_inv {} ?B" using con by (intro compact_inv) (simp add: ob_consistent_def)
  have c: "ob_consistent ?B" using ob_step_consistent [OF ob_step.compact con] .
  have E': "maybe_compact E' = (if ls_total_processed (en_stats E') mod COMPACT_INTERVAL = 0 then E'\<lparr>en_book := ?B\<rparr> else E')"
    by (simp add: maybe_compact_def prune_id [OF inv])
  have "bk_callback ?B = bk_callback (en_book E')" by (simp add: ob_compact_def)
  moreover have "abs_request (E'\<lparr>en_book := ?B\<rparr>) r = abs_request E' r" for r
    by (simp add: abs_request_def split: order_request.split option.split)
  moreover have "aside S B ?B \<longleftrightarrow> aside S B (en_book E')" for S B by (simp add: aside_def)
  moreover have "fresh a ?B = fresh a (en_book E')" for a by (simp add: fresh_def)
  ultimately show ?thesis
    using assms c unfolding E' by (simp add: served_def ready_def handled_def compact_bound)
qed

lemma served_same:
  assumes "served rs rs' n E E'" "en_book F = en_book E'"
  shows "served rs rs' n E F"
  using assms by (simp add: served_def ready_def handled_def abs_request_def split: order_request.splits option.splits)

lemma maybe_worker_frame [simp]:
  "en_input (maybe_compact E) = en_input E" "en_running (maybe_compact E) = en_running E"
  "en_input (maybe_flush_stats E) = en_input E" "en_running (maybe_flush_stats E) = en_running E"
  "en_book (maybe_flush_stats E) = en_book E" "en_input (flush_stats E) = en_input E"
  "en_running (flush_stats E) = en_running E" "en_book (flush_stats E) = en_book E"
  by (simp_all add: maybe_compact_def maybe_flush_stats_def flush_stats_def)

lemma publish_running [simp]: "en_running (publish_bbo_update E) = en_running E"
  "en_running (count_stats f E) = en_running E"
  by (simp_all add: publish_bbo_update_def count_stats_def set_ctx_def split: option.split)

lemma handle_running: "handle_request r E = Some E' \<Longrightarrow> en_running E' = en_running E"
  by (auto simp: handle_request_def process_new_order_def process_cancel_def Let_def
    split: order_request.splits option.splits sum.splits prod.splits if_splits)

lemma drain_loop_running: "drain_loop n E = Some (c, E') \<Longrightarrow> en_running E' = en_running E"
proof (induction n arbitrary: E c)
  case (Suc n)
  then show ?case
    by (fastforce dest!: handle_running split: prod.splits option.splits)
qed simp

lemma drain_batch_running: "drain_batch E = Some (c, E') \<Longrightarrow> en_running E' = en_running E"
  by (auto simp: drain_batch_def dest: drain_loop_running)

lemma drain_rest_running: "drain_rest E = Some E' \<Longrightarrow> en_running E' = en_running E"
  by (rule drain_rest.raw_induct [where P = "\<lambda>E E'. en_running E' = en_running E"])
    (auto split: option.splits prod.splits if_splits dest: drain_batch_running)

text \<open>One iteration of the worker returns and keeps the invariant.\<close>

lemma run_iteration_turn:
  assumes W: "world_inv rs n W" "i < length (w_engines W)" and n: "n \<le> 2 ^ 32 - 1"
  shows "\<exists>E'. w_run run_iteration i W = Some (w_store i E' W) \<and> world_inv rs n (w_store i E' W) \<and>
     en_running E' = en_running (w_engines W ! i)"
proof -
  let ?E = "w_load i W"
  obtain k where E: "sq_inv (en_input ?E)" "ready (ring ?E) ?E" "NEW_ORDER None \<notin> set (ring ?E)"
    "\<not> bk_shutdown (en_book ?E)" "book_bound k (en_book ?E)" "k + length (ring ?E) + length rs \<le> n"
    by (rule world_inv_engine [OF W])
  have "k + length (ring ?E) \<le> 2 ^ 32 - 1" using E(6) n by linarith
  from drain_batch_serves [OF E(1) refl E(2-5) this] obtain E1 where
    E1: "drain_batch ?E = Some (min BATCH_SIZE (length (ring ?E)), E1)"
      "served (take BATCH_SIZE (ring ?E)) (drop BATCH_SIZE (ring ?E)) k ?E E1" "sq_inv (en_input E1)"
      "ring E1 = drop BATCH_SIZE (ring ?E)" by blast
  define E' where "E' = (if 0 < min BATCH_SIZE (length (ring ?E)) then maybe_flush_stats (maybe_compact E1) else E1)"
  have run: "w_run run_iteration i W = Some (w_store i E' W)"
    by (simp add: w_run_def run_iteration_def E1(1) E'_def del: length_sq_contents)
  have "served (take BATCH_SIZE (ring ?E)) (drop BATCH_SIZE (ring ?E)) k ?E E'"
    using E1(2) served_same [OF served_compact [OF E1(2)]] by (simp add: E'_def)
  from engine_turn [OF W this] E1(3,4) E(6) have "world_inv rs n (w_store i E' W)"
    unfolding append_take_drop_id by (simp add: E'_def)
  with run drain_batch_running [OF E1(1)] show ?thesis by (auto simp: E'_def w_load_dress)
qed

lemma stop_turn:
  assumes W: "world_inv rs n W" "i < length (w_engines W)" and n: "n \<le> 2 ^ 32 - 1"
    and up: "en_running (w_engines W ! i) \<or> ring (w_engines W ! i) = []"
  shows "\<exists>E'. w_run en_stop i W = Some (w_store i E' W) \<and> world_inv rs n (w_store i E' W) \<and>
     \<not> en_running E' \<and> ring E' = []"
proof -
  let ?E = "w_load i W"
  obtain k where E: "sq_inv (en_input ?E)" "ready (ring ?E) ?E" "NEW_ORDER None \<notin> set (ring ?E)"
    "\<not> bk_shutdown (en_book ?E)" "book_bound k (en_book ?E)" "k + length (ring ?E) + length rs \<le> n"
    by (rule world_inv_engine [OF W])
  show ?thesis
  proof (cases "en_running ?E")
    case False
    have "ring ?E = []" using False up by (simp add: w_load_dress)
    moreover have "served [] [] k ?E ?E" using E calculation by (simp add: served_def)
    from engine_turn [OF W this] calculation E(1,6) have "world_inv rs n (w_store i ?E W)" by simp
    ultimately show ?thesis using False by (auto simp: w_run_def en_stop_def)
  next
    case True
    let ?F = "?E\<lparr>en_running := False\<rparr>"
    have F: "ready (ring ?F) ?F" using E(2) by (simp add: ready_def)
    have "k + length (ring ?F) \<le> 2 ^ 32 - 1" using E(6) n by simp
    from drain_rest_serves [OF _ refl F _ _ _ this] E obtain E1 where
      E1: "drain_rest ?F = Some E1" "served (ring ?F) [] k ?F E1" "sq_inv (en_input E1)" "ring E1 = []"
      by auto
    have "abs_request ?F = abs_request ?E"
      by (simp add: fun_eq_iff abs_request_def split: order_request.split option.split)
    then have "served (ring ?E) [] k ?E (flush_stats E1)"
      using served_same [OF E1(2), of "flush_stats E1"] by (simp add: served_def handled_def)
    from engine_turn [OF W this] E1(3,4) E(6) have "world_inv rs n (w_store i (flush_stats E1) W)" by simp
    moreover have "\<not> en_running E1" using drain_rest_running [OF E1(1)] by simp
    ultimately show ?thesis using True E1 by (auto simp: w_run_def en_stop_def run_exit_def)
  qed
qed

section \<open>A turn of the risk manager\<close>

definition routes_ok :: "risk \<Rightarrow> world \<Rightarrow> bool" where
  "routes_ok R W \<longleftrightarrow> (\<forall>k e. map_of (rm_matching_engines R) k = Some e \<longrightarrow> e < length (w_engines W))"

lemma world_inv_tail: "world_inv (r # rs) n W \<Longrightarrow> world_inv rs n W"
proof -
  assume W: "world_inv (r # rs) n W"
  have sub: "a \<in> set (waiting rs) \<Longrightarrow> a \<in> set (waiting (r # rs))" "distinct (waiting (r # rs)) \<Longrightarrow> distinct (waiting rs)"
    for a by (cases "r # rs" rule: waiting.cases; auto)+
  show "world_inv rs n W"
    using world_inv_kept [OF W world_invD(1) [OF W] refl world_invD(2) [OF W], of rs n] world_invD [OF W]
      sound_owns(2) [OF world_invD(3) [OF W]] sub by auto
qed

lemma world_inv_write:
  assumes W: "world_inv rs n W" and p: "\<forall>E\<in>set (w_engines W). p \<notin> live (en_book E)"
  shows "world_inv rs n (w_upd_ord p f W)"
proof -
  let ?P = "(w_pool W)\<lparr>mp_pool := (mp_pool (w_pool W))[p := f (w_ord W p)]\<rparr>"
  have P: "mp_inv ?P" "mp_free ?P = mp_free (w_pool W)" using world_invD(1) [OF W] by simp_all
  have "world_inv rs n (W\<lparr>w_pool := ?P, w_md := w_md W\<rparr>)"
  proof (rule world_inv_kept [OF W P(1) _ world_invD(2) [OF W]])
    fix E x assume E: "E \<in> set (w_engines W)"
    show "x \<in> owns E \<Longrightarrow> x \<notin> set (mp_free ?P)" using sound_owns(2) [OF world_invD(3) [OF W E]] P(2) by simp
    assume "x \<in> live (en_book E)"
    then have "x \<noteq> p" using p E by blast
    then show "mp_pool ?P ! x = mp_pool (w_pool W) ! x" by simp
  qed (use world_invD(5-8) [OF W] P(2) in simp_all)
  then show ?thesis by (simp add: w_upd_ord_def)
qed

lemma submit_turn:
  assumes W: "world_inv (r0 # rs) n W" "e < length (w_engines W)"
    and r: "r \<noteq> NEW_ORDER None" "pending [r] = waiting [r0]"
    and sub: "submit_request r (w_engines W ! e) = (b, E')"
  shows "world_inv rs n (W\<lparr>w_engines := (w_engines W)[e := E']\<rparr>)"
    "map en_running ((w_engines W)[e := E']) = map en_running (w_engines W)"
    "E \<in> set ((w_engines W)[e := E']) \<Longrightarrow> a \<in> live (en_book E) \<Longrightarrow> \<exists>E0\<in>set (w_engines W). a \<in> live (en_book E0)"
proof -
  let ?E = "w_engines W ! e"
  have mem: "?E \<in> set (w_engines W)" using W(2) by simp
  have w0: "set (waiting [r0]) \<subseteq> set (waiting (r0 # rs))" by (cases "[r0]" rule: waiting.cases) auto
  have new: "a < length (mp_pool (w_pool W)) \<and> a \<notin> set (mp_free (w_pool W)) \<and> a \<notin> owns ?E"
    if "r = NEW_ORDER (Some a)" for a
  proof -
    have "waiting [r0] = [a]" using that r(2) by simp
    with w0 have "a \<in> set (waiting (r0 # rs))" by simp
    then show ?thesis using world_invD(7,8) [OF W(1)] mem by blast
  qed
  note ss = submit_sound [OF world_invD(3) [OF W(1) mem] r(1) new sub]
  have own: "owns E' \<subseteq> owns ?E \<union> set (waiting [r0])"
    using ss(2,3) r(2) by (auto simp: owns_def pending_app split: if_splits)
  obtain k where k: "book_bound k (en_book ?E)" "k + length (ring ?E) + length (r0 # rs) \<le> n"
    using world_invD(9) [OF W(1) mem] by blast
  have len: "k + length (ring E') + length rs \<le> n" using k(2) ss(2) by (auto split: if_splits simp del: length_sq_contents)
  have off: "\<forall>j<length (w_engines W). j \<noteq> e \<longrightarrow> (\<forall>x\<in>owns (w_engines W ! j). x \<notin> set (mp_free (w_pool W)) \<and>
      mp_pool (w_pool W) ! x = mp_pool (w_pool W) ! x)"
    using sound_owns(2) [OF world_invD(3) [OF W(1) nth_mem]] by blast
  have wait: "\<forall>x\<in>set (waiting rs). x \<notin> set (mp_free (w_pool W))"
    using world_invD(7) [OF world_inv_tail [OF W(1)]] by blast
  have "book_bound k (en_book E')" using k(1) ss(4) by simp
  from world_inv_replace [of "[r0]" rs n W e, OF _ W(2) ss(1) world_invD(2) [OF W(1)] refl own off wait this len] W(1)
  show "world_inv rs n (W\<lparr>w_engines := (w_engines W)[e := E']\<rparr>)" by simp
  show "map en_running ((w_engines W)[e := E']) = map en_running (w_engines W)"
    using ss(5) by (simp add: map_update) (metis list_update_id nth_map W(2))
  show "\<exists>E0\<in>set (w_engines W). a \<in> live (en_book E0)"
    if "E \<in> set ((w_engines W)[e := E'])" "a \<in> live (en_book E)"
    using that ss(3) mem set_update_subset_insert [of "w_engines W" e E'] by auto
qed

text \<open>What handling an order does to the world: at most one submission, then a status.\<close>

definition routed :: "nat \<Rightarrow> risk \<Rightarrow> world \<Rightarrow> 'a \<times> risk \<times> world \<Rightarrow> bool" where
  "routed p R W t \<longleftrightarrow>
     rm_matching_engines (fst (snd t)) = rm_matching_engines R \<and>
     (\<exists>W0 st. snd (snd t) = w_upd_ord p (\<lambda>x. x\<lparr>o_status := st\<rparr>) W0 \<and>
        (W0 = W \<or> (\<exists>k e b E. map_of (rm_matching_engines R) k = Some e \<and>
           submit_request (NEW_ORDER (Some p)) (w_engines W ! e) = (b, E) \<and>
           W0 = W\<lparr>w_engines := (w_engines W)[e := E]\<rparr>)))"

lemma reject_routed:
  "rm_matching_engines R0 = rm_matching_engines R \<Longrightarrow> routed p R W (reject_order p r R0 W)"
  by (auto simp: routed_def reject_order_def)

lemma untrack_engines: "rm_matching_engines (untrack_order k i m R) = rm_matching_engines R"
  by (simp add: untrack_order_def Let_def split: option.split)

lemma route_routed:
  assumes "rm_matching_engines R0 = rm_matching_engines R"
  shows "routed p R W (route_order p k m R0 W)"
proof (cases "map_of (rm_matching_engines R0) (cstr (o_symbol (w_ord W p)))")
  case None
  then show ?thesis using assms by (simp add: route_order_def Let_def reject_routed untrack_engines)
next
  case (Some e)
  obtain b E where s: "submit_request (NEW_ORDER (Some p)) (w_engines W ! e) = (b, E)" by force
  have "\<exists>st R1. snd (route_order p k m R0 W) = (R1, w_upd_ord p (\<lambda>x. x\<lparr>o_status := st\<rparr>) (W\<lparr>w_engines := (w_engines W)[e := E]\<rparr>)) \<and>
      rm_matching_engines R1 = rm_matching_engines R"
    using Some s assms
    by (cases b) (auto simp: route_order_def Let_def en_submit_order_def make_new_order_def reject_order_def untrack_engines)
  then show ?thesis using Some s assms unfolding routed_def by fastforce
qed

lemma risk_new_routed: "routed p R W (risk_process_new_order (Some p) R W)"
proof -
  obtain ok c R3 where rc: "rate_checked (cstr (o_client (w_ord W p))) R = (ok, c, R3)"
    using prod_cases3 by blast
  have "rm_matching_engines R3 = rm_matching_engines R"
    using rate_checked_spec(1) [OF rc] by (simp add: same_accounts_def)
  then have "routed p R W (cascade p ok c R3 R W)"
    by (simp add: cascade_def Let_def reject_routed route_routed split: option.split)
  then show ?thesis by (simp add: risk_new_cascade [OF rc] routed_def)
qed

lemma risk_new_turn:
  assumes W: "world_inv (RISK_NEW (Some p) # rs) n W" "routes_ok R W"
    and h: "risk_process_new_order (Some p) R W = (r, R', W')"
  shows "world_inv rs n W' \<and> rm_matching_engines R' = rm_matching_engines R \<and>
     map en_running (w_engines W') = map en_running (w_engines W)"
proof -
  obtain W0 st where W0: "W' = w_upd_ord p (\<lambda>x. x\<lparr>o_status := st\<rparr>) W0"
    "W0 = W \<or> (\<exists>k e b E. map_of (rm_matching_engines R) k = Some e \<and>
       submit_request (NEW_ORDER (Some p)) (w_engines W ! e) = (b, E) \<and> W0 = W\<lparr>w_engines := (w_engines W)[e := E]\<rparr>)"
    and me: "rm_matching_engines R' = rm_matching_engines R"
    using risk_new_routed [of p R W] unfolding routed_def h fst_conv snd_conv by blast
  have p: "p \<notin> live (en_book E)" if "E \<in> set (w_engines W)" for E
    using world_invD(8) [OF W(1) _ that, of p] by (simp add: owns_def)
  have "world_inv rs n W0 \<and> (\<forall>E\<in>set (w_engines W0). p \<notin> live (en_book E)) \<and>
      map en_running (w_engines W0) = map en_running (w_engines W)"
    using W0(2)
  proof
    assume "W0 = W"
    then show ?thesis using world_inv_tail [OF W(1)] p by simp
  next
    assume "\<exists>k e b E. map_of (rm_matching_engines R) k = Some e \<and>
       submit_request (NEW_ORDER (Some p)) (w_engines W ! e) = (b, E) \<and> W0 = W\<lparr>w_engines := (w_engines W)[e := E]\<rparr>"
    then obtain e b E where e: "e < length (w_engines W)" "W0 = W\<lparr>w_engines := (w_engines W)[e := E]\<rparr>"
      "submit_request (NEW_ORDER (Some p)) (w_engines W ! e) = (b, E)"
      using W(2) unfolding routes_ok_def by blast
    note st = submit_turn [OF W(1) e(1) _ _ e(3)]
    show ?thesis using st(1,2) st(3) [of _ p] p by (auto simp: e(2))
  qed
  with me show ?thesis by (simp add: W0(1) world_inv_write)
qed

lemma risk_cancel_turn:
  assumes W: "world_inv (RISK_CANCEL i w # rs) n W" "routes_ok R W"
    and h: "risk_process_cancel i w R W = (R', W')"
  shows "world_inv rs n W' \<and> rm_matching_engines R' = rm_matching_engines R \<and>
     map en_running (w_engines W') = map en_running (w_engines W)"
proof -
  note tail = world_inv_tail [OF W(1)]
  obtain R1 W1 where rc: "route_cancel i w R W = (R1, W1)" by force
  have "world_inv rs n W1 \<and> rm_matching_engines R1 = rm_matching_engines R \<and>
      map en_running (w_engines W1) = map en_running (w_engines W)"
  proof (cases "map_of (rm_order_symbol R) i")
    case None
    with rc tail show ?thesis by (simp add: route_cancel_def)
  next
    case (Some s)
    show ?thesis
    proof (cases "map_of (rm_matching_engines R) (cstr s)")
      case None
      with Some rc tail show ?thesis by (auto simp: route_cancel_def)
    next
      case e: (Some e)
      obtain b E where sub: "submit_request (CANCEL_ORDER i w) (w_engines W ! e) = (b, E)" by force
      have lt: "e < length (w_engines W)" using e W(2) by (auto simp: routes_ok_def)
      show ?thesis
        using submit_turn(1,2) [OF W(1) lt _ _ sub] rc Some e sub
        by (auto simp: route_cancel_def en_cancel_order_def make_cancel_def)
    qed
  qed
  with tail h rc show ?thesis
    by (auto simp: risk_process_cancel_def Let_def split: option.splits if_splits)
qed

lemma risk_handle_turn:
  assumes "world_inv (r # rs) n W" "routes_ok R W" "risk_handle r R W = (R', W')"
  shows "world_inv rs n W' \<and> routes_ok R' W' \<and> map en_running (w_engines W') = map en_running (w_engines W)"
proof -
  have "world_inv rs n W' \<and> rm_matching_engines R' = rm_matching_engines R \<and>
      map en_running (w_engines W') = map en_running (w_engines W)"
  proof (cases r)
    case (RISK_NEW optr)
    then obtain p where p: "optr = Some p" using world_invD(6) [OF assms(1)] by (cases optr) auto
    obtain x where "risk_process_new_order (Some p) R W = (x, R', W')"
      using assms(3) RISK_NEW p by (cases "risk_process_new_order (Some p) R W") (auto simp: risk_handle_def)
    with assms(1,2) RISK_NEW p show ?thesis by (intro risk_new_turn) auto
  next
    case (RISK_CANCEL i w)
    with assms show ?thesis by (intro risk_cancel_turn [of i w]) (auto simp: risk_handle_def)
  qed
  moreover from this have "length (w_engines W') = length (w_engines W)" by (metis length_map)
  ultimately show ?thesis using assms(2) by (simp add: routes_ok_def)
qed

lemma risk_handle_all_turn:
  assumes "world_inv (rs @ rs') n W" "routes_ok R W" "risk_handle_all rs (R, W) = (R', W')"
  shows "world_inv rs' n W' \<and> routes_ok R' W' \<and> map en_running (w_engines W') = map en_running (w_engines W)"
  using assms
proof (induction rs arbitrary: R W)
  case (Cons r rs)
  obtain R1 W1 where h: "risk_handle r R W = (R1, W1)" by force
  have "world_inv (rs @ rs') n W1 \<and> routes_ok R1 W1 \<and> map en_running (w_engines W1) = map en_running (w_engines W)"
    using Cons.prems h by (intro risk_handle_turn) simp_all
  with Cons.IH [of W1 R1] Cons.prems(3) h show ?case by simp
qed simp

section \<open>A message from a client\<close>

text \<open>The gateway reaches the risk manager and the pool of the exchange through pointers.\<close>

definition x_receive :: "int \<Rightarrow> byte list \<Rightarrow> gateway \<Rightarrow> exchange \<Rightarrow> gateway \<times> exchange" where
  "x_receive fd data G X =
     (let G' = process_message fd data (G\<lparr>gw_risk := x_risk X, gw_pool := w_pool (x_world X)\<rparr>)
      in (G', X\<lparr>x_risk := gw_risk G', x_world := (x_world X)\<lparr>w_pool := gw_pool G'\<rparr>\<rparr>))"

text \<open>The slot at the head of the free list changes hands or contents; nobody owns it.\<close>

lemma world_inv_head:
  assumes W: "world_inv rs n W" and free: "mp_free (w_pool W) = p # ps" and P: "mp_inv P"
    and pool: "mp_pool P = (mp_pool (w_pool W))[p := x]"
    and out: "mp_free P = p # ps \<and> rs' = rs \<or> mp_free P = ps \<and> rs' = rs @ [RISK_NEW (Some p)]"
  shows "world_inv rs' (Suc n) (W\<lparr>w_pool := P\<rparr>)"
proof -
  have "p < mp_slots (w_pool W)" by (rule mp_head_index_Cons(4) [OF world_invD(1) [OF W] free])
  then have lt: "p < length (mp_pool (w_pool W))" using world_invD(1) [OF W] by (simp add: mp_inv_def mp_slots_def)
  have "distinct (p # ps)" using world_invD(1) [OF W] free by (simp add: mp_inv_def)
  then have sub: "set (mp_free P) \<subseteq> set (mp_free (w_pool W))" "rs' \<noteq> rs \<Longrightarrow> p \<notin> set (mp_free P)"
    using out free by auto
  have own: "p \<notin> owns E" if "E \<in> set (w_engines W)" for E
    using sound_owns(2) [OF world_invD(3) [OF W that], of p] free by auto
  have wait: "a \<in> set (waiting rs) \<or> a = p \<and> rs' \<noteq> rs" if "a \<in> set (waiting rs')" for a
    using that out by (auto simp: waiting_app)
  have pw: "p \<notin> set (waiting rs)" using world_invD(7) [OF W, of p] free by auto
  have "world_inv rs' (Suc n) (W\<lparr>w_pool := P, w_md := w_md W\<rparr>)"
  proof (rule world_inv_kept [OF W P _ world_invD(2) [OF W]])
    fix E y assume E: "E \<in> set (w_engines W)"
    show "y \<in> owns E \<Longrightarrow> y \<notin> set (mp_free P)" using sound_owns(2) [OF world_invD(3) [OF W E]] sub(1) by blast
    assume "y \<in> live (en_book E)"
    then have "y \<noteq> p" using own [OF E] by (auto simp: owns_def)
    then show "mp_pool P ! y = mp_pool (w_pool W) ! y" by (simp add: pool)
  next
    show "distinct (waiting rs')" using out world_invD(5) [OF W] pw by (auto simp: waiting_app)
    show "RISK_NEW None \<notin> set rs'" "length rs' + n \<le> length rs + Suc n" using out world_invD(6) [OF W] by auto
    fix a assume a: "a \<in> set (waiting rs')"
    show "a < length (mp_pool P) \<and> a \<notin> set (mp_free P)"
      using wait [OF a] world_invD(7) [OF W, of a] lt sub by (auto simp: pool)
    show "E \<in> set (w_engines W) \<Longrightarrow> a \<notin> owns E" for E
      using wait [OF a] world_invD(8) [OF W, of a E] own by blast
  qed (simp add: pool)
  then show ?thesis by simp
qed

lemma world_inv_cancel_in:
  assumes W: "world_inv rs n W" and rs': "rs' = rs \<or> rs' = rs @ [RISK_CANCEL i w]"
  shows "world_inv rs' (Suc n) W"
proof -
  have "waiting rs' = waiting rs" using rs' by (auto simp: waiting_app)
  then have "world_inv rs' (Suc n) (W\<lparr>w_pool := w_pool W, w_md := w_md W\<rparr>)"
    using sound_owns(2) [OF world_invD(3) [OF W]] rs' world_invD(6) [OF W]
    by (intro world_inv_kept [OF W world_invD(1) [OF W] refl world_invD(2) [OF W]])
      (auto dest: world_invD(7,8) [OF W] simp: world_invD(5) [OF W])
  then show ?thesis by simp
qed

lemma message_turn:
  assumes W: "world_inv (sq_contents (rm_input R)) n W" "sq_inv (rm_input R)"
    and G: "gw_pool G = w_pool W" "gw_risk G = R" "G' = process_message fd data G"
  shows "world_inv (sq_contents (rm_input (gw_risk G'))) (Suc n) (W\<lparr>w_pool := gw_pool G'\<rparr>) \<and>
     sq_inv (rm_input (gw_risk G')) \<and> (\<exists>q. gw_risk G' = R\<lparr>rm_input := q\<rparr>)"
proof -
  note stay = world_inv_cancel_in [OF W(1)]
  have same: ?thesis if "G' = G"
    using that stay [of "sq_contents (rm_input R)"] G W(2) by (simp add: exI [of _ "rm_input R"])
  have short: "length data < 110 \<Longrightarrow> handle_new_order fd data G = G"
    "length data < sizeof_CancelOrderMessage \<Longrightarrow> handle_cancel_order fd data G = G"
    by (simp_all add: handle_new_order_def handle_cancel_order_def sizeof_NewOrderMessage_def)
  consider "G' = G" | "110 \<le> length data" "G' = handle_new_order fd data G"
    | "\<not> length data < sizeof_CancelOrderMessage" "G' = handle_cancel_order fd data G"
    using short G(3) unfolding process_message_def Let_def by (metis not_less)
  then show ?thesis
  proof cases
    case 2
    note e = new_order_effect [OF _ _ 2 refl refl, unfolded G(1,2), OF world_invD(1) [OF W(1)] W(2)]
    show ?thesis
    proof (cases "mp_free (w_pool W)")
      case Nil
      then have "gw_pool G' = w_pool W" "gw_risk G' = R" using e by simp_all
      with stay [of "sq_contents (rm_input R)"] W(2) show ?thesis by (simp add: exI [of _ "rm_input R"])
    next
      case (Cons p ps)
      obtain x where x: "mp_pool (gw_pool G') = (mp_pool (w_pool W))[p := x]"
        "mp_free (gw_pool G') = p # ps \<and> sq_contents (rm_input (gw_risk G')) = sq_contents (rm_input R) \<or>
         mp_free (gw_pool G') = ps \<and> sq_contents (rm_input (gw_risk G')) = sq_contents (rm_input R) @ [RISK_NEW (Some p)]"
        using e Cons by (auto split: if_splits)
      from world_inv_head [OF W(1) Cons _ x] e show ?thesis by blast
    qed
  next
    case 3
    let ?r = "RISK_CANCEL (co_order_id (cancel_order_of_bytes data))
      (fs_new client_id_size (Some (bs_data (co_client_id (cancel_order_of_bytes data)))))"
    obtain b q where q: "sq_push ?r (rm_input R) = (b, q)" by force
    then have "gw_pool G' = w_pool W" "gw_risk G' = R\<lparr>rm_input := q\<rparr>"
      using 3 G by (simp_all add: handle_cancel_order_def rm_submit_cancel_def Let_def)
    moreover have "sq_contents q = sq_contents (rm_input R) \<or> sq_contents q = sq_contents (rm_input R) @ [?r]" "sq_inv q"
      using sq.push_spec [OF W(2) q] by auto
    ultimately show ?thesis using stay by auto
  qed (rule same)
qed

section \<open>Start-up\<close>

text \<open>An engine as constructed: nothing on the book, nothing in the ring.\<close>

definition pristine :: "order mpool \<Rightarrow> engine \<Rightarrow> bool" where
  "pristine P E \<longleftrightarrow> (\<forall>m. mq_inv m \<longrightarrow> sound P m E) \<and> live (en_book E) = {} \<and> ring E = [] \<and> book_bound 0 (en_book E)"

lemma ready_set_md:
  "ready rs (dress P m (set_ctx c E)) \<longleftrightarrow>
     ready rs (dress P m E) \<and> md_ok (en_ctx (dress P m (set_ctx c E)))" if "md_ok (en_ctx (dress P m E))"
proof -
  have "en_book (dress P m (set_ctx c E)) = (en_book (dress P m E))\<lparr>bk_ctx := en_ctx (dress P m (set_ctx c E))\<rparr>"
    by (simp add: dress_def set_ctx_def)
  then have "ob_consistent (en_book (dress P m (set_ctx c E))) = ob_consistent (en_book (dress P m E))"
    "fresh a (en_book (dress P m (set_ctx c E))) = fresh a (en_book (dress P m E))" for a
    by (metis ctx_frame(3), metis ctx_frame(4))
  then show ?thesis using that by (auto simp: ready_def set_ctx_def)
qed

lemma pristine_new: "mp_inv P \<Longrightarrow> pristine P (en_new s P clk)"
proof -
  assume "mp_inv P"
  note new = en_new_ready [OF this, of s clk]
  have "dress P m (en_new s P clk) = en_new s P clk" for m
    by (rule dress_same) (simp_all add: en_new_def ob_new_def)
  then show ?thesis using new by (simp add: pristine_def sound_def) (simp add: en_new_def ob_new_def live_def)
qed

lemma pristine_steps:
  assumes "pristine P E"
  shows "pristine P (set_market_data_queue q E)" "pristine P (en_start E)"
proof -
  have md: "md_ok (en_ctx (dress P m F))" if "mq_inv m" for m F using that by (auto simp: md_ok_def dress_def)
  have rd: "ready rs (dress P m (set_ctx c E)) = ready rs (dress P m E)" if "mq_inv m" for rs m c
    using ready_set_md md that by simp
  show "pristine P (set_market_data_queue q E)"
    using assms by (auto simp: pristine_def sound_def set_market_data_queue_def rd) (auto simp: set_ctx_def)
  have "dress P m (E\<lparr>en_running := b\<rparr>) = (dress P m E)\<lparr>en_running := b\<rparr>" for m b by (simp add: dress_def)
  then show "pristine P (en_start E)" using assms by (simp add: pristine_def sound_def en_start_def ready_def)
qed

lemma update_new_snd: "map_of m k = None \<Longrightarrow> snd ` set (AList.update k v m) = insert v (snd ` set m)"
  by (induction m) (auto split: if_splits)

lemma install_engines:
  assumes "mp_inv P" "fold (\<lambda>s. install_engine (f s) (en_new (g s) P clk)) ss (m, Es) = (m', Es')"
    and "snd ` set m = {..<length Es}" "\<forall>E\<in>set Es. pristine P E"
  shows "snd ` set m' = {..<length Es'} \<and> (\<forall>E\<in>set Es'. pristine P E)"
  using assms(2-4)
proof (induction ss arbitrary: m Es)
  case (Cons s ss)
  let ?E = "en_new (g s) P clk"
  have new: "pristine P ?E" by (rule pristine_new [OF assms(1)])
  show ?case
  proof (cases "map_of m (f s)")
    case None
    then show ?thesis
      using Cons.prems new by (intro Cons.IH [of "AList.update (f s) (length Es) m" "Es @ [?E]"])
        (auto simp: install_engine_def update_new_snd)
  next
    case (Some i)
    have "\<forall>E\<in>set (Es[i := ?E]). pristine P E"
      using Cons.prems(3) new set_update_subset_insert [of Es i ?E] by auto
    then show ?thesis
      using Cons.prems Some by (intro Cons.IH [of m "Es[i := ?E]"]) (auto simp: install_engine_def)
  qed
qed simp

lemma fold_engines:
  assumes "\<And>E. Q E \<Longrightarrow> Q (f E)" "\<forall>E\<in>set Es. Q E" "\<forall>e\<in>set es. snd e < length Es"
    and "Fs = fold (\<lambda>(k, i) Es. Es[i := f (Es ! i)]) es Es"
  shows "length Fs = length Es \<and> (\<forall>E\<in>set Fs. Q E)"
  using assms(2-4)
proof (induction es arbitrary: Es)
  case (Cons e es)
  obtain k i where e: "e = (k, i)" by (cases e)
  let ?Es = "Es[i := f (Es ! i)]"
  have "i < length Es" using Cons.prems(2) by (simp add: e)
  then have "\<forall>E\<in>set ?Es. Q E"
    using Cons.prems(1) assms(1) set_update_subset_insert [of Es i "f (Es ! i)"] by auto
  with Cons.IH [of ?Es] Cons.prems show ?case by (simp add: e)
qed simp

lemma fold_engines_all:
  assumes "\<And>E. R (f E)" "\<forall>e\<in>set es. snd e < length Es" "Fs = fold (\<lambda>(k, i) Es. Es[i := f (Es ! i)]) es Es"
    and "j < length Es" "j \<in> snd ` set es \<or> R (Es ! j)"
  shows "R (Fs ! j)"
  using assms(2-5)
proof (induction es arbitrary: Es)
  case (Cons e es)
  obtain k i where e: "e = (k, i)" by (cases e)
  let ?Es = "Es[i := f (Es ! i)]"
  have "j \<in> snd ` set es \<or> R (?Es ! j)"
    using Cons.prems(3,4) assms(1) by (cases "j = i") (auto simp: e)
  with Cons.IH [of ?Es] Cons.prems show ?case by (simp add: e)
qed simp

lemma added_engines:
  assumes "map_of (rm_matching_engines (fold (\<lambda>(k, i). add_matching_engine k i) es R)) s = Some e"
  shows "e \<in> snd ` set es \<or> map_of (rm_matching_engines R) s = Some e"
  using assms
proof (induction es arbitrary: R)
  case (Cons x es)
  obtain k i where x: "x = (k, i)" by (cases x)
  have "e \<in> snd ` set es \<or> map_of (rm_matching_engines (add_matching_engine k i R)) s = Some e"
    using Cons.IH [of "add_matching_engine k i R"] Cons.prems by (simp add: x)
  then show ?case by (auto simp: x add_matching_engine_def update_conv' split: if_splits)
qed simp

lemma added_engines_frame:
  "rm_input (fold (\<lambda>(k, i). add_matching_engine k i) es R) = rm_input R"
  "rm_running (fold (\<lambda>(k, i). add_matching_engine k i) es R) = rm_running R"
  by (induction es arbitrary: R) (auto simp: add_matching_engine_def)

end
