(* ===== verification/RTES_Exchange_Props.thy ===== *)
theory RTES_Exchange_Props
  imports RTES_System
begin

text \<open>
  Properties of the whole exchange, from start-up through any interleaving of messages and
  workers to the shutdown.
\<close>

section \<open>The running exchange\<close>

text \<open>
  \<open>exchange_run rnd clk iter cfg n X\<close>: \<open>X\<close> can be reached from the configuration with \<open>n\<close>
  messages from clients. The steps are a message to the gateway, whatever its bytes, an
  iteration of the risk manager's worker, an iteration of the worker of one engine, the
  publisher taking an event, and a new reference price.
\<close>

inductive exchange_run ::
  "(rat \<Rightarrow> rat) \<Rightarrow> (nat \<Rightarrow> Timestamp) \<Rightarrow> ((byte list \<times> nat) list \<Rightarrow> (byte list \<times> nat) list) \<Rightarrow>
   config \<Rightarrow> nat \<Rightarrow> exchange \<Rightarrow> bool"
  for rnd clk iter cfg where
  start: "exchange_new rnd clk iter (Some cfg) = Inr X \<Longrightarrow> exchange_start X = Inr X' \<Longrightarrow>
    exchange_run rnd clk iter cfg 0 X'"
| message: "exchange_run rnd clk iter cfg n X \<Longrightarrow> x_receive fd data G X = (G', X') \<Longrightarrow>
    exchange_run rnd clk iter cfg (Suc n) X'"
| risk: "exchange_run rnd clk iter cfg n X \<Longrightarrow> risk_run_iteration (x_risk X) (x_world X) = (R, W) \<Longrightarrow>
    exchange_run rnd clk iter cfg n (X\<lparr>x_risk := R, x_world := W\<rparr>)"
| engine: "exchange_run rnd clk iter cfg n X \<Longrightarrow> i < length (w_engines (x_world X)) \<Longrightarrow>
    w_run run_iteration i (x_world X) = Some W \<Longrightarrow> exchange_run rnd clk iter cfg n (X\<lparr>x_world := W\<rparr>)"
| publish: "exchange_run rnd clk iter cfg n X \<Longrightarrow> mq_try_pop (w_md (x_world X)) = (ev, q) \<Longrightarrow>
    exchange_run rnd clk iter cfg n (X\<lparr>x_world := (x_world X)\<lparr>w_md := q\<rparr>\<rparr>)"
| price: "exchange_run rnd clk iter cfg n X \<Longrightarrow>
    exchange_run rnd clk iter cfg n (X\<lparr>x_risk := update_reference_price s p (x_risk X)\<rparr>)"

definition exchange_inv :: "nat \<Rightarrow> exchange \<Rightarrow> bool" where
  "exchange_inv n X \<longleftrightarrow>
     x_state X = RUNNING \<and> rm_running (x_risk X) \<and> sq_inv (rm_input (x_risk X)) \<and>
     world_inv (sq_contents (rm_input (x_risk X))) n (x_world X) \<and> routes_ok (x_risk X) (x_world X) \<and>
     (\<forall>E\<in>set (w_engines (x_world X)). en_running E) \<and>
     snd ` set (x_iter X (x_engines X)) = {..<length (w_engines (x_world X))}"

lemma start_inv:
  assumes new: "exchange_new rnd clk iter (Some cfg) = Inr X0" and st: "exchange_start X0 = Inr X"
    and md: "2 \<le> pc_market_data_queue_size (cf_performance cfg)" and iter: "\<And>m. set (iter m) = set m"
  shows "exchange_inv 0 X"
proof -
  obtain P where P: "initialize_order_pool cfg = Inr P" using new by (auto simp: exchange_new_def split: sum.splits)
  then have inv: "mp_inv P" using mp_new_inv [OF P [unfolded initialize_order_pool_def]] by blast
  obtain m Es where mE: "initialize_matching_engines P clk cfg = (m, Es)" by force
  define q where "q = initialize_market_data_queue cfg"
  let ?z = "pc_market_data_queue_size (cf_performance cfg)"
  have z: "unat ?z < 2 ^ 32" using unsigned_less [of ?z, where 'a = nat] by simp
  then have "unat (ucast ?z :: u64) = unat ?z" by (simp add: unsigned_ucast_eq take_bit_nat_eq_self)
  moreover have "2 \<le> unat ?z" "unat ?z \<le> 2 ^ 63" using md z by (simp_all add: word_le_nat_alt)
  ultimately have q: "mq_inv q" using mq_inv_new unfolding q_def initialize_market_data_queue_def by metis
  have es: "snd ` set m = {..<length Es}" "\<forall>E\<in>set Es. pristine P E"
    using install_engines [OF inv mE [unfolded initialize_matching_engines_def]] by auto
  have idx: "\<forall>e\<in>set (iter m). snd e < length Es" "snd ` set (iter m) = {..<length Es}" using es(1) iter by auto
  define Fs where "Fs = fold (\<lambda>(k, i) Es. Es[i := set_market_data_queue (Some q) (Es ! i)]) (iter m) Es"
  have Fs: "length Fs = length Es \<and> (\<forall>E\<in>set Fs. pristine P E)"
    by (rule fold_engines [OF _ es(2) idx(1) Fs_def]) (rule pristine_steps(1))
  define Hs where "Hs = fold (\<lambda>(k, i) Es. Es[i := en_start (Es ! i)]) (iter m) Fs"
  have idF: "\<forall>e\<in>set (iter m). snd e < length Fs" using idx Fs by simp
  have Hs: "length Hs = length Fs \<and> (\<forall>E\<in>set Hs. pristine P E)"
    by (rule fold_engines [OF _ _ idF Hs_def]) (use Fs pristine_steps(2) in blast)+
  have "en_running (Hs ! j)" if "j < length Hs" for j
    by (rule fold_engines_all [OF _ idF Hs_def]) (use that Hs Fs idx(2) in \<open>auto simp: en_start_def\<close>)
  then have up: "\<forall>E\<in>set Hs. en_running E" by (simp add: all_set_conv_all_nth)
  define R where "R = fold (\<lambda>(k, i). add_matching_engine k i) (iter m) (initialize_risk_manager rnd clk cfg)"
  have X: "x_state X = RUNNING" "x_world X = \<lparr>w_pool = P, w_engines = Hs, w_md = q\<rparr>" "x_risk X = rm_start R"
    "x_engines X = m" "x_iter X = iter"
    using new st P mE
    by (auto simp: exchange_new_def exchange_start_def wire_components_def start_engines_def Let_def Fs_def Hs_def R_def
      q_def split: if_splits)
  have "rm_matching_engines (initialize_risk_manager rnd clk cfg) = []"
    "rm_input (initialize_risk_manager rnd clk cfg) = sq_new (RISK_NEW None) RISK_QUEUE_CAPACITY"
    by (simp_all add: initialize_risk_manager_def rm_new_def)
  then have R: "map_of (rm_matching_engines R) s = Some e \<Longrightarrow> e < length Hs"
    "rm_input R = sq_new (RISK_NEW None) RISK_QUEUE_CAPACITY" for s e
    using added_engines [of "iter m" "initialize_risk_manager rnd clk cfg" s e] idx(2) Hs Fs by (auto simp: R_def added_engines_frame)
  have "sq_inv (rm_input R)" "sq_contents (rm_input R) = []"
    using sq_inv_new [of RISK_QUEUE_CAPACITY "RISK_NEW None"] by (simp_all add: R(2) RISK_QUEUE_CAPACITY_def)
  moreover have "world_inv [] 0 (x_world X)"
    using Hs inv q by (auto simp: X world_inv_def pristine_def owns_def intro!: exI [of _ 0])
  ultimately show ?thesis
    using up idx(2) Hs Fs R(1) by (auto simp: exchange_inv_def X rm_start_def routes_ok_def)
qed

text \<open>The fields of the risk manager that only start and stop change.\<close>

lemma risk_iteration_spec:
  assumes q: "sq_inv (rm_input R)" and W: "world_inv (sq_contents (rm_input R)) n W" "routes_ok R W"
    and run: "risk_run_iteration R W = (R', W')"
  shows "sq_inv (rm_input R') \<and> world_inv (sq_contents (rm_input R')) n W' \<and> routes_ok R' W' \<and>
     rm_running R' = rm_running R \<and> map en_running (w_engines W') = map en_running (w_engines W)"
proof -
  let ?rs = "sq_contents (rm_input R)"
  obtain p where p: "risk_drain_batch R W = (min RISK_BATCH_SIZE (length ?rs),
       apfst (redress p (rm_running R) (rs_processed (rm_local R) + of_nat (min RISK_BATCH_SIZE (length ?rs))) (rm_atomic R))
         (risk_handle_all (take RISK_BATCH_SIZE ?rs) (R, W)))" "sq_inv p" "sq_contents p = drop RISK_BATCH_SIZE ?rs"
    using risk_drain_batch_serves [OF q refl refl refl] by blast
  obtain R1 W1 where h: "risk_handle_all (take RISK_BATCH_SIZE ?rs) (R, W) = (R1, W1)" by force
  have "world_inv (drop RISK_BATCH_SIZE ?rs) n W1 \<and> routes_ok R1 W1 \<and> map en_running (w_engines W1) = map en_running (w_engines W)"
    using W h by (intro risk_handle_all_turn [of "take RISK_BATCH_SIZE ?rs" _ n W R R1 W1]) simp_all
  moreover have "W' = W1" "rm_input R' = p" "rm_running R' = rm_running R" "rm_matching_engines R' = rm_matching_engines R1"
    using run p(1) h
    by (auto simp: risk_run_iteration_def risk_maybe_flush_stats_def risk_flush_stats_def split: if_splits)
  ultimately show ?thesis using p(2,3) by (simp add: routes_ok_def)
qed

lemma exchange_run_inv:
  assumes "exchange_run rnd clk iter cfg n X" "n \<le> 2 ^ 32 - 1"
    and md: "2 \<le> pc_market_data_queue_size (cf_performance cfg)" and iter: "\<And>m. set (iter m) = set m"
  shows "exchange_inv n X"
  using assms(1,2)
proof induction
  case (start X X')
  then show ?case using start_inv [OF _ _ md iter] by blast
next
  case (message n X fd data G G' X')
  let ?G = "G\<lparr>gw_risk := x_risk X, gw_pool := w_pool (x_world X)\<rparr>"
  have inv: "exchange_inv n X" using message by simp
  have G': "G' = process_message fd data ?G"
    "X' = X\<lparr>x_risk := gw_risk G', x_world := (x_world X)\<lparr>w_pool := gw_pool G'\<rparr>\<rparr>"
    using message(2) by (auto simp: x_receive_def Let_def)
  have "world_inv (sq_contents (rm_input (gw_risk G'))) (Suc n) ((x_world X)\<lparr>w_pool := gw_pool G'\<rparr>) \<and>
     sq_inv (rm_input (gw_risk G')) \<and> (\<exists>q. gw_risk G' = (x_risk X)\<lparr>rm_input := q\<rparr>)"
    using inv by (intro message_turn [OF _ _ _ _ G'(1)]) (simp_all add: exchange_inv_def)
  then show ?case using inv unfolding G'(2) exchange_inv_def by (auto simp: routes_ok_def)
next
  case (risk n X R W)
  have inv: "exchange_inv n X" using risk by simp
  have "sq_inv (rm_input R) \<and> world_inv (sq_contents (rm_input R)) n W \<and> routes_ok R W \<and>
     rm_running R = rm_running (x_risk X) \<and> map en_running (w_engines W) = map en_running (w_engines (x_world X))"
    using inv by (intro risk_iteration_spec [OF _ _ _ risk(2)]) (simp_all add: exchange_inv_def)
  then have r: "sq_inv (rm_input R)" "world_inv (sq_contents (rm_input R)) n W" "routes_ok R W" "rm_running R"
    and m: "map en_running (w_engines W) = map en_running (w_engines (x_world X))" using inv by (auto simp: exchange_inv_def)
  have "length (w_engines W) = length (w_engines (x_world X))" using m by (metis length_map)
  moreover have "\<forall>E\<in>set (w_engines W). en_running E"
    using m inv unfolding exchange_inv_def by (metis (no_types, lifting) in_set_conv_nth length_map nth_map)
  ultimately show ?case using r inv by (simp add: exchange_inv_def)
next
  case (engine n X i W)
  have inv: "exchange_inv n X" using engine by simp
  then have W: "world_inv (sq_contents (rm_input (x_risk X))) n (x_world X)" by (simp add: exchange_inv_def)
  obtain E' where E': "W = w_store i E' (x_world X)" "world_inv (sq_contents (rm_input (x_risk X))) n W"
    "en_running E' = en_running (w_engines (x_world X) ! i)"
    using run_iteration_turn [OF W engine(2)] engine by auto
  have "\<forall>E\<in>set (w_engines W). en_running E"
    using inv E'(3) engine(2) set_update_subset_insert [of "w_engines (x_world X)" i E']
    by (auto simp: E'(1) w_store_def exchange_inv_def)
  with inv E'(2) show ?case by (simp add: exchange_inv_def routes_ok_def) (simp add: E'(1) w_store_def)
next
  case (publish n X ev q)
  have inv: "exchange_inv n X" using publish by simp
  then have W: "world_inv (sq_contents (rm_input (x_risk X))) n (x_world X)" by (simp add: exchange_inv_def)
  have q: "mq_inv q"
    using mq.pop_spec [OF world_invD(2) [OF W] publish(2)] by simp
  have "world_inv (sq_contents (rm_input (x_risk X))) n ((x_world X)\<lparr>w_pool := w_pool (x_world X), w_md := q\<rparr>)"
    using sound_owns(2) [OF world_invD(3) [OF W]] world_invD(5-8) [OF W]
    by (intro world_inv_kept [OF W world_invD(1) [OF W] refl q]) auto
  then show ?case using inv by (simp add: exchange_inv_def routes_ok_def)
next
  case (price n X s p)
  then show ?case by (simp add: exchange_inv_def routes_ok_def update_reference_price_def)
qed

section \<open>Shutdown\<close>

lemma stop_engines_spec:
  assumes "world_inv rs n W" "n \<le> 2 ^ 32 - 1" "\<forall>e\<in>set es. snd e < length (w_engines W)"
    and "\<forall>E\<in>set (w_engines W). en_running E \<or> ring E = []"
  shows "\<exists>W'. stop_engines es W = Some W' \<and> world_inv rs n W' \<and> length (w_engines W') = length (w_engines W) \<and>
     (\<forall>j<length (w_engines W). j \<in> snd ` set es \<or> \<not> en_running (w_engines W ! j) \<longrightarrow>
        \<not> en_running (w_engines W' ! j) \<and> ring (w_engines W' ! j) = [])"
  using assms(1,3,4)
proof (induction es arbitrary: W)
  case Nil
  then have "\<not> en_running (w_engines W ! j) \<longrightarrow> ring (w_engines W ! j) = []" if "j < length (w_engines W)" for j
    using that nth_mem by blast
  with Nil show ?case by simp
next
  case (Cons e es)
  obtain k i where e: "e = (k, i)" by (cases e)
  have i: "i < length (w_engines W)" using Cons.prems(2) by (simp add: e)
  obtain E' where E': "w_run en_stop i W = Some (w_store i E' W)" "world_inv rs n (w_store i E' W)"
    "\<not> en_running E'" "ring E' = []"
    using stop_turn [OF Cons.prems(1) i assms(2)] Cons.prems(3) i nth_mem by blast
  let ?W = "w_store i E' W"
  have es: "w_engines ?W = (w_engines W)[i := E']" by (simp add: w_store_def)
  have "\<forall>E\<in>set (w_engines ?W). en_running E \<or> ring E = []"
    using Cons.prems(3) E'(4) set_update_subset_insert [of "w_engines W" i E'] unfolding es by auto
  with Cons.IH [of ?W] E'(2) Cons.prems(2) obtain W' where W': "stop_engines es ?W = Some W'" "world_inv rs n W'"
    "length (w_engines W') = length (w_engines W)"
    "\<forall>j<length (w_engines W). j \<in> snd ` set es \<or> \<not> en_running (w_engines ?W ! j) \<longrightarrow>
        \<not> en_running (w_engines W' ! j) \<and> ring (w_engines W' ! j) = []"
    by (auto simp: es)
  have "j \<in> snd ` set es \<or> \<not> en_running (w_engines ?W ! j)"
    if "j < length (w_engines W)" "j \<in> snd ` set (e # es) \<or> \<not> en_running (w_engines W ! j)" for j
    using that E'(3) by (cases "j = i") (auto simp: e es)
  with W'(4) have "\<forall>j<length (w_engines W). j \<in> snd ` set (e # es) \<or> \<not> en_running (w_engines W ! j) \<longrightarrow>
        \<not> en_running (w_engines W' ! j) \<and> ring (w_engines W' ! j) = []" by blast
  moreover have "stop_engines (e # es) W = Some W'" using W'(1) E'(1) by (simp add: e)
  ultimately show ?case using W'(2,3) by blast
qed

lemma rm_stop_spec:
  assumes q: "sq_inv (rm_input R)" and W: "world_inv (sq_contents (rm_input R)) n W" "routes_ok R W" and up: "rm_running R"
  shows "\<exists>R' W'. rm_stop R W = Some (R', W') \<and> sq_contents (rm_input R') = [] \<and> \<not> rm_running R' \<and>
     world_inv [] n W' \<and> map en_running (w_engines W') = map en_running (w_engines W)"
proof -
  let ?R = "R\<lparr>rm_running := False\<rparr>" and ?rs = "sq_contents (rm_input R)"
  obtain R1 W1 where h: "risk_handle_all ?rs (?R, W) = (R1, W1)" by force
  obtain p a b where p: "risk_drain_rest ?R W = Some (redress p False a b R1, W1)" "sq_contents p = []"
    using risk_drain_rest_serves [of ?R ?rs False "rm_atomic R" W] q h by auto
  have "world_inv [] n W1 \<and> routes_ok R1 W1 \<and> map en_running (w_engines W1) = map en_running (w_engines W)"
    using W h by (intro risk_handle_all_turn [of ?rs]) (simp_all add: routes_ok_def)
  with p up show ?thesis by (simp add: rm_stop_def risk_flush_stats_def)
qed

text \<open>A small exchange, with one message from a client.\<close>

definition ex_setup :: config where
  "ex_setup =
     \<lparr>cf_exchange = \<lparr>xc_name = ''RTES'', xc_tcp_port = 8888, xc_udp_multicast_group = ''239.0.0.1'',
        xc_udp_port = 9999, xc_metrics_port = 8080\<rparr>,
      cf_symbols = [ex_symbol [65], ex_symbol [66]], cf_risk = ex_config,
      cf_performance = \<lparr>pc_order_pool_size = 4, pc_queue_capacity = 65536, pc_enable_cpu_pinning = False,
        pc_tcp_nodelay = True, pc_udp_buffer_size = 262144, pc_market_data_queue_size = 8\<rparr>,
      cf_logging = \<lparr>lc_level = ''INFO'', lc_rate_limit_ms = 1000, lc_enable_structured = True\<rparr>,
      cf_persistence = \<lparr>sc_enable_event_log = False, sc_snapshot_interval_ms = 60000, sc_log_directory = ''logs''\<rparr>\<rparr>"

lemma ex_run: "\<exists>X. exchange_run id (\<lambda>_. 0) id ex_setup 1 X"
proof -
  have "\<exists>P. initialize_order_pool ex_setup = Inr P"
    by (simp add: initialize_order_pool_def ex_setup_def mp_new_def validate_capacity_def POOL_EMPTY_def)
  then obtain P where P: "initialize_order_pool ex_setup = Inr P" by blast
  obtain m Es where "initialize_matching_engines P (\<lambda>_. 0) ex_setup = (m, Es)" by force
  with P obtain X where X: "exchange_new id (\<lambda>_. 0) id (Some ex_setup) = Inr X"
    by (simp add: exchange_new_def)
  then have "x_state X = CREATED"
    by (auto simp: exchange_new_def wire_components_def Let_def split: sum.splits prod.splits)
  then obtain X1 where "exchange_start X = Inr X1" by (simp add: exchange_start_def)
  from exchange_run.message [OF exchange_run.start [OF X this]] show ?thesis by (metis One_nat_def surj_pair)
qed

section \<open>Properties\<close>

text \<open>
  Claim C8. However messages and workers interleave, every slot of the order pool has at most
  one owner: a slot that rests in a book or waits in the ring of an engine is not free, is not
  on its way to the risk manager, and no other engine has it. So the books that share the pool
  stay consistent, and the next iteration of every worker returns.
\<close>

theorem exchange_slots_have_one_owner:
  assumes "exchange_run rnd clk iter cfg n X" "n < 2 ^ 32" "W = x_world X" "R = x_risk X"
    and "2 \<le> pc_market_data_queue_size (cf_performance cfg)" "\<And>m. set (iter m) = set m"
  shows "(\<forall>i<length (w_engines W). \<forall>x\<in>owns (w_engines W ! i).
       x < length (mp_pool (w_pool W)) \<and> x \<notin> set (mp_free (w_pool W)) \<and> x \<notin> set (waiting (sq_contents (rm_input R))) \<and>
       (\<forall>j<length (w_engines W). j \<noteq> i \<longrightarrow> x \<notin> owns (w_engines W ! j))) \<and>
     (\<forall>x\<in>set (waiting (sq_contents (rm_input R))). x \<notin> set (mp_free (w_pool W))) \<and>
     (\<forall>i<length (w_engines W). ob_consistent (en_book (w_load i W)) \<and> (\<exists>W'. w_run run_iteration i W = Some W'))"
proof -
  have inv: "world_inv (sq_contents (rm_input R)) n W"
    using exchange_run_inv [OF assms(1) _ assms(5,6)] assms(2-4) by (simp add: exchange_inv_def)
  have "ob_consistent (en_book (w_load i W))" "\<exists>W'. w_run run_iteration i W = Some W'" if i: "i < length (w_engines W)" for i
  proof -
    show "ob_consistent (en_book (w_load i W))"
      using world_invD(3) [OF inv nth_mem [OF i]] by (simp add: sound_def ready_def w_load_dress)
    show "\<exists>W'. w_run run_iteration i W = Some W'" using run_iteration_turn [OF inv i] assms(2) by auto
  qed
  moreover have "x < length (mp_pool (w_pool W)) \<and> x \<notin> set (mp_free (w_pool W)) \<and> x \<notin> set (waiting (sq_contents (rm_input R)))"
    if "i < length (w_engines W)" "x \<in> owns (w_engines W ! i)" for i x
    using sound_owns [OF world_invD(3) [OF inv nth_mem [OF that(1)]] that(2)] world_invD(8) [OF inv _ nth_mem [OF that(1)]] that(2)
    by blast
  ultimately show ?thesis using world_invD(4,7) [OF inv] by blast
qed

theorem exchange_slots_have_one_owner_witness:
  "\<exists>X. exchange_run id (\<lambda>_. 0) id ex_setup 1 X \<and>
     (\<forall>x\<in>set (waiting (sq_contents (rm_input (x_risk X)))). x \<notin> set (mp_free (w_pool (x_world X))))"
proof -
  obtain X where X: "exchange_run id (\<lambda>_. 0) id ex_setup 1 X" using ex_run by blast
  have "2 \<le> pc_market_data_queue_size (cf_performance ex_setup)" by (simp add: ex_setup_def)
  from exchange_slots_have_one_owner [OF X _ refl refl this] X show ?thesis by auto
qed

text \<open>
  Claim C9. Stopping a running exchange ends, whatever is still queued: the risk manager
  decides every request that waits, then every engine serves its ring, and afterwards all
  rings are empty, all workers have ended and all books are consistent. A stopped exchange
  cannot be started again and stopping it twice does nothing.
\<close>

theorem exchange_stop_drains_everything:
  assumes "exchange_run rnd clk iter cfg n X" "n < 2 ^ 32"
    and "2 \<le> pc_market_data_queue_size (cf_performance cfg)" "\<And>m. set (iter m) = set m"
  shows "\<exists>X'. exchange_stop X = Some X' \<and> x_state X' = STOPPED \<and>
     sq_contents (rm_input (x_risk X')) = [] \<and> \<not> rm_running (x_risk X') \<and>
     length (w_engines (x_world X')) = length (w_engines (x_world X)) \<and>
     (\<forall>i<length (w_engines (x_world X')). ring (w_engines (x_world X') ! i) = [] \<and>
        \<not> en_running (w_engines (x_world X') ! i) \<and> ob_consistent (en_book (w_load i (x_world X')))) \<and>
     exchange_start X' = Inl Start_in_invalid_state \<and> exchange_stop X' = Some X'"
proof -
  have inv: "exchange_inv n X" using exchange_run_inv [OF assms(1) _ assms(3,4)] assms(2) by simp
  obtain R1 W1 where 1: "rm_stop (x_risk X) (x_world X) = Some (R1, W1)" "sq_contents (rm_input R1) = []"
    "\<not> rm_running R1" "world_inv [] n W1" "map en_running (w_engines W1) = map en_running (w_engines (x_world X))"
    using rm_stop_spec inv unfolding exchange_inv_def by meson
  let ?es = "x_iter X (x_engines X)" and ?len = "length (w_engines (x_world X))"
  have len: "length (w_engines W1) = ?len" using 1(5) by (metis length_map)
  have idx: "snd ` set ?es = {..<?len}" using inv by (simp add: exchange_inv_def)
  have "\<forall>E\<in>set (w_engines W1). en_running E"
    using 1(5) inv unfolding exchange_inv_def by (metis (no_types, lifting) in_set_conv_nth length_map nth_map)
  with stop_engines_spec [OF 1(4), of ?es] assms(2) idx len obtain W2 where
    2: "stop_engines ?es W1 = Some W2" "world_inv [] n W2" "length (w_engines W2) = ?len"
      "\<forall>j<?len. \<not> en_running (w_engines W2 ! j) \<and> ring (w_engines W2 ! j) = []" by auto
  have "ob_consistent (en_book (w_load i W2))" if "i < ?len" for i
    using world_invD(3) [OF 2(2) nth_mem] that 2(3) by (simp add: sound_def ready_def w_load_dress)
  moreover have "exchange_stop X = Some (X\<lparr>x_risk := R1, x_world := W2, x_state := STOPPED\<rparr>)"
    using inv 1(1) 2(1) by (simp add: exchange_stop_def exchange_inv_def)
  ultimately show ?thesis
    using 1(2,3) 2(3,4) by (simp add: exchange_start_def exchange_stop_def)
qed

theorem exchange_stop_drains_everything_witness:
  "\<exists>X X'. exchange_run id (\<lambda>_. 0) id ex_setup 1 X \<and> exchange_stop X = Some X' \<and> x_state X' = STOPPED \<and>
     sq_contents (rm_input (x_risk X')) = []"
proof -
  obtain X where X: "exchange_run id (\<lambda>_. 0) id ex_setup 1 X" using ex_run by blast
  have "2 \<le> pc_market_data_queue_size (cf_performance ex_setup)" by (simp add: ex_setup_def)
  from exchange_stop_drains_everything [OF X _ this] X show ?thesis by auto
qed

end
