(* ===== verification/RTES_Transaction.thy ===== *)
theory RTES_Transaction
  imports RTES_Types RTES_Errors
begin

text \<open>
  Transactions (\<^verbatim>\<open>include/rtes/transaction.hpp\<close>, \<^verbatim>\<open>src/transaction.cpp\<close>): a list of actions that
  is executed as a whole or undone, the actions of the exchange, the manager of transactions
  and the scope that rolls back when it is left. The virtual methods of an action are the
  arguments \<open>exec\<close> and \<open>undo\<close>; they may change the action object and the outside state \<open>'s\<close>.
\<close>

section \<open>Transaction\<close>

type_synonym ('a, 's) action_call = "'a \<Rightarrow> 's \<Rightarrow> unit result \<times> 'a \<times> 's"

datatype tx_state = ACTIVE | COMMITTED | ROLLED_BACK

record 'a transaction =
  tx_name :: string
  tx_actions :: "'a list"
  tx_executed :: "'a list"
  tx_state :: tx_state
  tx_auto_rollback :: bool

text \<open>A transaction without a name gets its address as one.\<close>

definition tx_new :: "nat \<Rightarrow> string \<Rightarrow> 'a transaction" where
  "tx_new address nm =
     \<lparr>tx_name = (if nm = [] then ''Transaction_'' @ decimal address else nm), tx_actions = [], tx_executed = [],
      tx_state = ACTIVE, tx_auto_rollback = True\<rparr>"

definition tx_add_action :: "'a \<Rightarrow> 'a transaction \<Rightarrow> 'a transaction" where
  "tx_add_action action t =
     (if tx_state t \<noteq> ACTIVE then t else t\<lparr>tx_actions := tx_actions t @ [action]\<rparr>)"

fun undo_all :: "('a, 's) action_call \<Rightarrow> 'a list \<Rightarrow> error_code \<Rightarrow> 's \<Rightarrow> error_code \<times> 's" where
  "undo_all undo [] last_error s = (last_error, s)"
| "undo_all undo (a # as) last_error s =
     (case undo a s of
        (Inl e, a', s') \<Rightarrow> undo_all undo as e s'
      | (Inr _, a', s') \<Rightarrow> undo_all undo as last_error s')"

definition tx_rollback ::
  "('a, 's) action_call \<Rightarrow> 'a transaction \<Rightarrow> 's \<Rightarrow> unit result \<times> 'a transaction \<times> 's" where
  "tx_rollback undo t s =
     (if tx_state t = ROLLED_BACK then (Inr (), t, s)
      else let (last_error, s') = undo_all undo (rev (tx_executed t)) SUCCESS s;
               t' = t\<lparr>tx_executed := [], tx_actions := [], tx_state := ROLLED_BACK\<rparr>
           in (if error_value last_error \<noteq> 0 then Inl last_error else Inr (), t', s'))"

fun exec_all :: "('a, 's) action_call \<Rightarrow> 'a list \<Rightarrow> 'a list \<Rightarrow> 's \<Rightarrow> unit result \<times> 'a list \<times> 's" where
  "exec_all exec [] executed s = (Inr (), executed, s)"
| "exec_all exec (a # as) executed s =
     (case exec a s of
        (Inl e, a', s') \<Rightarrow> (Inl e, executed, s')
      | (Inr _, a', s') \<Rightarrow> exec_all exec as (executed @ [a']) s')"

definition tx_commit ::
  "('a, 's) action_call \<Rightarrow> ('a, 's) action_call \<Rightarrow> 'a transaction \<Rightarrow> 's \<Rightarrow> unit result \<times> 'a transaction \<times> 's" where
  "tx_commit exec undo t s =
     (if tx_state t \<noteq> ACTIVE then (Inl SYSTEM_CORRUPTED_STATE, t, s)
      else case exec_all exec (tx_actions t) (tx_executed t) s of
             (Inl e, executed, s') \<Rightarrow>
               let (_, t', s'') = tx_rollback undo (t\<lparr>tx_executed := executed\<rparr>) s' in (Inl e, t', s'')
           | (Inr _, executed, s') \<Rightarrow>
               (Inr (), t\<lparr>tx_executed := executed, tx_actions := [], tx_state := COMMITTED,
                          tx_auto_rollback := False\<rparr>, s'))"

definition tx_destroy :: "('a, 's) action_call \<Rightarrow> 'a transaction \<Rightarrow> 's \<Rightarrow> 's" where
  "tx_destroy undo t s =
     (if tx_state t = ACTIVE \<and> tx_auto_rollback t then snd (snd (tx_rollback undo t s)) else s)"

definition tx_is_active :: "'a transaction \<Rightarrow> bool" where
  "tx_is_active t \<longleftrightarrow> tx_state t = ACTIVE"

definition tx_is_committed :: "'a transaction \<Rightarrow> bool" where
  "tx_is_committed t \<longleftrightarrow> tx_state t = COMMITTED"

definition tx_is_rolled_back :: "'a transaction \<Rightarrow> bool" where
  "tx_is_rolled_back t \<longleftrightarrow> tx_state t = ROLLED_BACK"

section \<open>Actions\<close>

text \<open>The bodies of the three classes only write to the log; one of them keeps a flag.\<close>

datatype order_book_op = OB_ADD_ORDER | OB_CANCEL_ORDER | OB_EXECUTE_TRADE
datatype memory_pool_op = MP_ALLOCATE | MP_DEALLOCATE
datatype network_op = NET_SEND_MESSAGE | NET_CLOSE_CONNECTION

record order_book_action =
  oba_type :: order_book_op
  oba_order_id :: OrderID
  oba_symbol :: string

record memory_pool_action =
  mpa_type :: memory_pool_op
  mpa_ptr :: u64
  mpa_size :: u64

record network_action =
  na_type :: network_op
  na_connection_id :: int
  na_data :: "byte list"
  na_executed :: bool

definition order_book_execute :: "(order_book_action, 's) action_call" where
  "order_book_execute a s =
     (case oba_type a of
        OB_ADD_ORDER \<Rightarrow> (Inr (), a, s) | OB_CANCEL_ORDER \<Rightarrow> (Inr (), a, s) | OB_EXECUTE_TRADE \<Rightarrow> (Inr (), a, s))"

definition order_book_rollback :: "(order_book_action, 's) action_call" where
  "order_book_rollback a s =
     (case oba_type a of
        OB_ADD_ORDER \<Rightarrow> (Inr (), a, s) | OB_CANCEL_ORDER \<Rightarrow> (Inr (), a, s) | OB_EXECUTE_TRADE \<Rightarrow> (Inr (), a, s))"

definition order_book_description :: "order_book_action \<Rightarrow> string" where
  "order_book_description a =
     (case oba_type a of
        OB_ADD_ORDER \<Rightarrow> ''AddOrder('' @ decimal (unat (oba_order_id a)) @ '')''
      | OB_CANCEL_ORDER \<Rightarrow> ''CancelOrder('' @ decimal (unat (oba_order_id a)) @ '')''
      | OB_EXECUTE_TRADE \<Rightarrow> ''ExecuteTrade('' @ decimal (unat (oba_order_id a)) @ '')'')"

definition memory_pool_execute :: "(memory_pool_action, 's) action_call" where
  "memory_pool_execute a s =
     (case mpa_type a of MP_ALLOCATE \<Rightarrow> (Inr (), a, s) | MP_DEALLOCATE \<Rightarrow> (Inr (), a, s))"

definition memory_pool_rollback :: "(memory_pool_action, 's) action_call" where
  "memory_pool_rollback a s =
     (case mpa_type a of MP_ALLOCATE \<Rightarrow> (Inr (), a, s) | MP_DEALLOCATE \<Rightarrow> (Inr (), a, s))"

definition memory_pool_description :: "memory_pool_action \<Rightarrow> string" where
  "memory_pool_description a =
     (case mpa_type a of
        MP_ALLOCATE \<Rightarrow> ''MemoryAllocate('' @ decimal (unat (mpa_size a)) @ '')''
      | MP_DEALLOCATE \<Rightarrow> ''MemoryDeallocate('' @ decimal (unat (mpa_size a)) @ '')'')"

definition network_new :: "network_op \<Rightarrow> int \<Rightarrow> byte list \<Rightarrow> network_action" where
  "network_new t connection_id data =
     \<lparr>na_type = t, na_connection_id = connection_id, na_data = data, na_executed = False\<rparr>"

definition network_execute :: "(network_action, 's) action_call" where
  "network_execute a s =
     (case na_type a of
        NET_SEND_MESSAGE \<Rightarrow> (Inr (), a\<lparr>na_executed := True\<rparr>, s)
      | NET_CLOSE_CONNECTION \<Rightarrow> (Inr (), a\<lparr>na_executed := True\<rparr>, s))"

definition network_rollback :: "(network_action, 's) action_call" where
  "network_rollback a s =
     (if \<not> na_executed a then (Inr (), a, s) else (Inr (), a\<lparr>na_executed := False\<rparr>, s))"

definition decimal_int :: "int \<Rightarrow> string" where
  "decimal_int i = (if i < 0 then ''-'' @ decimal (nat (- i)) else decimal (nat i))"

definition network_description :: "network_action \<Rightarrow> string" where
  "network_description a =
     (case na_type a of
        NET_SEND_MESSAGE \<Rightarrow> ''SendMessage(conn='' @ decimal_int (na_connection_id a) @ '')''
      | NET_CLOSE_CONNECTION \<Rightarrow> ''CloseConnection('' @ decimal_int (na_connection_id a) @ '')'')"

text \<open>A pointer to a \<open>TransactionAction\<close> is one of the three.\<close>

datatype tx_action =
    OrderBookAction order_book_action
  | MemoryPoolAction memory_pool_action
  | NetworkAction network_action

fun action_execute :: "(tx_action, 's) action_call" where
  "action_execute (OrderBookAction a) s = apsnd (apfst OrderBookAction) (order_book_execute a s)"
| "action_execute (MemoryPoolAction a) s = apsnd (apfst MemoryPoolAction) (memory_pool_execute a s)"
| "action_execute (NetworkAction a) s = apsnd (apfst NetworkAction) (network_execute a s)"

fun action_rollback :: "(tx_action, 's) action_call" where
  "action_rollback (OrderBookAction a) s = apsnd (apfst OrderBookAction) (order_book_rollback a s)"
| "action_rollback (MemoryPoolAction a) s = apsnd (apfst MemoryPoolAction) (memory_pool_rollback a s)"
| "action_rollback (NetworkAction a) s = apsnd (apfst NetworkAction) (network_rollback a s)"

section \<open>Manager and scope\<close>

text \<open>An expired weak pointer is None; a live one gives access to its transaction.\<close>

record 'a tx_manager =
  tm_active :: "'a transaction option list"
  tm_total :: u64
  tm_failed :: u64

definition tm_new :: "'a tx_manager" where
  "tm_new = \<lparr>tm_active = [], tm_total = 0, tm_failed = 0\<rparr>"

definition begin_transaction :: "nat \<Rightarrow> string \<Rightarrow> 'a tx_manager \<Rightarrow> 'a transaction \<times> 'a tx_manager" where
  "begin_transaction address nm M = (tx_new address nm, M\<lparr>tm_total := tm_total M + 1\<rparr>)"

fun rollback_each ::
  "('a, 's) action_call \<Rightarrow> 'a transaction list \<Rightarrow> error_code \<Rightarrow> u64 \<Rightarrow> 's \<Rightarrow> error_code \<times> u64 \<times> 's" where
  "rollback_each undo [] last_error failed s = (last_error, failed, s)"
| "rollback_each undo (t # ts) last_error failed s =
     (if \<not> tx_is_active t then rollback_each undo ts last_error failed s
      else case tx_rollback undo t s of
             (Inl e, _, s') \<Rightarrow> rollback_each undo ts e (failed + 1) s'
           | (Inr _, _, s') \<Rightarrow> rollback_each undo ts last_error failed s')"

definition rollback_all_active_transactions ::
  "('a, 's) action_call \<Rightarrow> 'a tx_manager \<Rightarrow> 's \<Rightarrow> unit result \<times> 'a tx_manager \<times> 's" where
  "rollback_all_active_transactions undo M s =
     (let (last_error, failed, s') =
            rollback_each undo (map the (filter (\<lambda>w. w \<noteq> None) (tm_active M))) SUCCESS (tm_failed M) s;
          M' = M\<lparr>tm_active := [], tm_failed := failed\<rparr>
      in (if error_value last_error \<noteq> 0 then Inl last_error else Inr (), M', s'))"

definition active_transaction_count :: "'a tx_manager \<Rightarrow> nat" where
  "active_transaction_count M = length (filter (\<lambda>w. w \<noteq> None) (tm_active M))"

record 'a tx_scope =
  sco_transaction :: "'a transaction option"
  sco_committed :: bool

definition scope_new :: "nat \<Rightarrow> string \<Rightarrow> 'a tx_manager \<Rightarrow> 'a tx_scope \<times> 'a tx_manager" where
  "scope_new address nm M =
     (let (t, M') = begin_transaction address nm M in (\<lparr>sco_transaction = Some t, sco_committed = False\<rparr>, M'))"

definition scope_commit ::
  "('a, 's) action_call \<Rightarrow> ('a, 's) action_call \<Rightarrow> 'a tx_scope \<Rightarrow> 's \<Rightarrow> unit result \<times> 'a tx_scope \<times> 's" where
  "scope_commit exec undo S s =
     (case sco_transaction S of
        None \<Rightarrow> (Inl SYSTEM_CORRUPTED_STATE, S, s)
      | Some t \<Rightarrow>
          let (r, t', s') = tx_commit exec undo t s
          in (r, \<lparr>sco_transaction = Some t', sco_committed = (sco_committed S \<or> res_has_value r)\<rparr>, s'))"

text \<open>Leaving the scope rolls back, then destroys the transaction.\<close>

definition scope_destroy :: "('a, 's) action_call \<Rightarrow> 'a tx_scope \<Rightarrow> 's \<Rightarrow> 's" where
  "scope_destroy undo S s =
     (case sco_transaction S of
        None \<Rightarrow> s
      | Some t \<Rightarrow>
          if sco_committed S then tx_destroy undo t s
          else let (_, t', s') = tx_rollback undo t s in tx_destroy undo t' s')"

section \<open>Atomicity\<close>

text \<open>
  What a transaction expects of its actions: undoing an executed action restores the outside
  state, and an action that fails has not changed it.
\<close>

locale undoable_actions =
  fixes exec :: "('a, 's) action_call"
    and undo :: "('a, 's) action_call"
  assumes undo_exec: "exec a s = (Inr (), a', s') \<Longrightarrow> \<exists>a''. undo a' s' = (Inr (), a'', s)"
    and exec_failed: "exec a s = (Inl e, a', s') \<Longrightarrow> s' = s"
begin

text \<open>\<open>undone\<close>: undoing this stack of actions from \<open>s'\<close> leads back to \<open>s\<close> without an error.\<close>

definition undone :: "'a list \<Rightarrow> 's \<Rightarrow> 's \<Rightarrow> bool" where
  "undone stack s' s \<longleftrightarrow> (\<forall>last_error. undo_all undo stack last_error s' = (last_error, s))"

lemma undone_push:
  assumes "undone stack s s0" "exec a s = (Inr (), a', s')"
  shows "undone (a' # stack) s' s0"
  using assms undo_exec [OF assms(2)] by (auto simp: undone_def)

lemma exec_all_undone:
  assumes "undone (rev executed) s s0" "exec_all exec as executed s = (r, executed', s')"
  shows "undone (rev executed') s' s0"
  using assms
proof (induction "as" arbitrary: executed s)
  case (Cons a "as")
  obtain r1 a1 s1 where e: "exec a s = (r1, a1, s1)" by (metis prod_cases3)
  show ?case
  proof (cases r1)
    case (Inl x)
    with Cons.prems e exec_failed [of a s x a1 s1] show ?thesis by simp
  next
    case (Inr u)
    with e undone_push [OF Cons.prems(1)] have "undone (rev (executed @ [a1])) s1 s0" by simp
    with Cons.IH [of "executed @ [a1]" s1] Cons.prems(2) e Inr show ?thesis by simp
  qed
qed simp

lemma rollback_restores:
  assumes "undone (rev (tx_executed t)) s s0" "tx_state t \<noteq> ROLLED_BACK"
  shows "tx_rollback undo t s = (Inr (), t\<lparr>tx_executed := [], tx_actions := [], tx_state := ROLLED_BACK\<rparr>, s0)"
  using assms by (simp add: tx_rollback_def undone_def)

lemma commit_atomic:
  assumes "tx_state t = ACTIVE" "tx_executed t = []" "tx_commit exec undo t s = (r, t', s')"
  shows "case r of
     Inr _ \<Rightarrow> tx_state t' = COMMITTED \<and> exec_all exec (tx_actions t) [] s = (Inr (), tx_executed t', s') \<and>
       (\<exists>t''. tx_rollback undo t' s' = (Inr (), t'', s))
   | Inl e \<Rightarrow> tx_state t' = ROLLED_BACK \<and> tx_executed t' = [] \<and> s' = s"
proof -
  obtain x executed s1 where e: "exec_all exec (tx_actions t) [] s = (x, executed, s1)" by (metis prod_cases3)
  have restored: "undone (rev executed) s1 s" by (rule exec_all_undone [OF _ e]) (simp add: undone_def)
  show ?thesis
  proof (cases x)
    case (Inl c)
    with e assms rollback_restores [of "t\<lparr>tx_executed := executed\<rparr>" s1 s] restored show ?thesis
      by (auto simp: tx_commit_def)
  next
    case (Inr u)
    with e assms have "r = Inr ()" "s' = s1" "tx_executed t' = executed" "tx_state t' = COMMITTED"
      by (auto simp: tx_commit_def)
    with e Inr restored rollback_restores [of t' s1 s] show ?thesis by auto
  qed
qed

end

interpretation actions: undoable_actions action_execute action_rollback
proof
  fix a :: tx_action and s :: 's and a' s'
  assume "action_execute a s = (Inr (), a', s')"
  then show "\<exists>a''. action_rollback a' s' = (Inr (), a'', s)"
    by (cases a) (auto simp: order_book_execute_def order_book_rollback_def memory_pool_execute_def
      memory_pool_rollback_def network_execute_def network_rollback_def
      split: order_book_op.splits memory_pool_op.splits network_op.splits)
next
  fix a :: tx_action and s :: 's and e a' s'
  assume "action_execute a s = (Inl e, a', s')"
  then show "s' = s"
    by (cases a) (auto simp: order_book_execute_def memory_pool_execute_def network_execute_def
      split: order_book_op.splits memory_pool_op.splits network_op.splits)
qed


text \<open>Actions that take from a limited stock and give back.\<close>

definition ex_take :: "(int, int) action_call" where
  "ex_take n s = (if n \<le> s then (Inr (), n, s - n) else (Inl ORDER_INVALID, n, s))"

definition ex_give :: "(int, int) action_call" where
  "ex_give n s = (Inr (), n, s + n)"


text \<open>Everything that happens to the manager.\<close>

inductive tm_reachable :: "('a, 's) action_call \<Rightarrow> 'a tx_manager \<Rightarrow> bool" for undo :: "('a, 's) action_call" where
  "tm_reachable undo tm_new"
| "tm_reachable undo M \<Longrightarrow> begin_transaction address nm M = (t, M') \<Longrightarrow> tm_reachable undo M'"
| "tm_reachable undo M \<Longrightarrow> scope_new address nm M = (S, M') \<Longrightarrow> tm_reachable undo M'"
| "tm_reachable undo M \<Longrightarrow> rollback_all_active_transactions undo M s = (r, M', s') \<Longrightarrow> tm_reachable undo M'"

text \<open>
  The global rollback never rolls anything back. The manager does not register the
  transactions that it begins, so at every moment it counts none as active, and rolling back
  all active transactions succeeds without touching the outside state.
\<close>

theorem global_rollback_reaches_no_transaction:
  assumes "tm_reachable undo M"
  shows "active_transaction_count M = 0 \<and> rollback_all_active_transactions undo M s = (Inr (), M, s)"
proof -
  from assms have "tm_active M = []"
    by induction (auto simp: tm_new_def begin_transaction_def scope_new_def rollback_all_active_transactions_def
      split: prod.splits)
  then show ?thesis by (simp add: active_transaction_count_def rollback_all_active_transactions_def)
qed

theorem global_rollback_reaches_no_transaction_witness:
  "rollback_all_active_transactions ex_give (snd (begin_transaction 1 ''t'' tm_new)) 3 =
     (Inr (), snd (begin_transaction 1 ''t'' tm_new), 3)"
proof -
  have "tm_reachable ex_give (snd (begin_transaction 1 ''t'' tm_new))"
    by (rule tm_reachable.intros(2) [OF tm_reachable.intros(1)]) (rule prod.collapse [symmetric])
  from global_rollback_reaches_no_transaction [OF this] show ?thesis by blast
qed

end
