(* ===== verification/RTES_Publisher.thy ===== *)
theory RTES_Publisher
  imports RTES_Engine RTES_Protocol_Props "HOL-Library.Sublist"
begin

text \<open>
  The market data publisher (\<^verbatim>\<open>include/rtes/udp_publisher.hpp\<close>, \<^verbatim>\<open>src/udp_publisher.cpp\<close>): it
  takes events from the queue of the engines in batches, builds a datagram for each and hands
  them to the kernel. The system calls and the clock are arguments; the options of the socket
  are left out.
\<close>

section \<open>Datagrams\<close>

definition MD_BATCH_SIZE :: nat where "MD_BATCH_SIZE = 64"
definition SENDMMSG_BATCH :: nat where "SENDMMSG_BATCH = 32"
definition MD_STATS_FLUSH :: u64 where "MD_STATS_FLUSH = 2048"

definition UDP_BBO_UPDATE :: u32 where "UDP_BBO_UPDATE = 201"
definition UDP_TRADE_UPDATE :: u32 where "UDP_TRADE_UPDATE = 202"

record udp_header =
  uh_type :: u32
  uh_length :: u32
  uh_sequence :: u64
  uh_timestamp :: u64

record bbo_update =
  bu_header :: udp_header
  bu_symbol :: "byte list"
  bu_bid_price :: u64
  bu_bid_quantity :: u64
  bu_ask_price :: u64
  bu_ask_quantity :: u64

record trade_update =
  tu_header :: udp_header
  tu_trade_id :: u64
  tu_symbol :: "byte list"
  tu_quantity :: u64
  tu_price :: u64
  tu_aggressor_side :: u8

definition sizeof_BBOUpdateMessage :: nat where "sizeof_BBOUpdateMessage = 64"
definition sizeof_TradeUpdateMessage :: nat where "sizeof_TradeUpdateMessage = 57"

definition bytes_of_udp_header :: "udp_header \<Rightarrow> byte list" where
  "bytes_of_udp_header h =
     to_le 4 (uh_type h) @ to_le 4 (uh_length h) @ to_le 8 (uh_sequence h) @ to_le 8 (uh_timestamp h)"

definition udp_header_of_bytes :: "byte list \<Rightarrow> udp_header" where
  "udp_header_of_bytes bs =
     \<lparr>uh_type = le (field 0 4 bs), uh_length = le (field 4 4 bs), uh_sequence = le (field 8 8 bs),
      uh_timestamp = le (field 16 8 bs)\<rparr>"

definition bytes_of_bbo_update :: "bbo_update \<Rightarrow> byte list" where
  "bytes_of_bbo_update m =
     bytes_of_udp_header (bu_header m) @ bu_symbol m @ to_le 8 (bu_bid_price m) @ to_le 8 (bu_bid_quantity m) @
     to_le 8 (bu_ask_price m) @ to_le 8 (bu_ask_quantity m)"

definition bbo_update_of_bytes :: "byte list \<Rightarrow> bbo_update" where
  "bbo_update_of_bytes bs =
     \<lparr>bu_header = udp_header_of_bytes bs, bu_symbol = field 24 8 bs, bu_bid_price = le (field 32 8 bs),
      bu_bid_quantity = le (field 40 8 bs), bu_ask_price = le (field 48 8 bs), bu_ask_quantity = le (field 56 8 bs)\<rparr>"

definition bytes_of_trade_update :: "trade_update \<Rightarrow> byte list" where
  "bytes_of_trade_update m =
     bytes_of_udp_header (tu_header m) @ to_le 8 (tu_trade_id m) @ tu_symbol m @ to_le 8 (tu_quantity m) @
     to_le 8 (tu_price m) @ [tu_aggressor_side m]"

definition trade_update_of_bytes :: "byte list \<Rightarrow> trade_update" where
  "trade_update_of_bytes bs =
     \<lparr>tu_header = udp_header_of_bytes bs, tu_trade_id = le (field 24 8 bs), tu_symbol = field 32 8 bs,
      tu_quantity = le (field 40 8 bs), tu_price = le (field 48 8 bs), tu_aggressor_side = bs ! 56\<rparr>"

section \<open>State\<close>

text \<open>
  \<open>up_answer\<close> is what the n-th \<open>sendmmsg\<close> returns for a number of datagrams, \<open>up_offered\<close> the
  datagrams handed to each call.
\<close>

record up_stats =
  ps_messages_sent :: u64
  ps_bytes_sent :: u64
  ps_send_failures :: u64
  ps_batches_sent :: u64
  ps_next_sequence :: u64

record publisher =
  up_group :: string
  up_port :: u16
  up_running :: bool
  up_fd :: int
  up_local :: up_stats
  up_messages_sent :: u64
  up_clock :: "nat \<Rightarrow> Timestamp"
  up_ticks :: nat
  up_answer :: "nat \<Rightarrow> nat \<Rightarrow> int"
  up_offered :: "byte list list list"

definition up_new :: "string \<Rightarrow> u16 \<Rightarrow> (nat \<Rightarrow> Timestamp) \<Rightarrow> (nat \<Rightarrow> nat \<Rightarrow> int) \<Rightarrow> publisher" where
  "up_new multicast_group port clk answer =
     \<lparr>up_group = multicast_group, up_port = port, up_running = False, up_fd = -1,
      up_local = \<lparr>ps_messages_sent = 0, ps_bytes_sent = 0, ps_send_failures = 0, ps_batches_sent = 0,
        ps_next_sequence = 1\<rparr>,
      up_messages_sent = 0, up_clock = clk, up_ticks = 0, up_answer = answer, up_offered = []\<rparr>"

section \<open>Batches\<close>

definition drain_events :: "md_event mpmc \<Rightarrow> md_event list \<times> md_event mpmc" where
  "drain_events q = drain mq_try_pop MD_BATCH_SIZE q"

text \<open>The timestamp and the sequence number of the next datagram.\<close>

definition next_stamp :: "publisher \<Rightarrow> Timestamp \<times> u64 \<times> publisher" where
  "next_stamp P =
     (up_clock P (up_ticks P), ps_next_sequence (up_local P),
      P\<lparr>up_ticks := Suc (up_ticks P), up_local := (up_local P)\<lparr>ps_next_sequence := ps_next_sequence (up_local P) + 1\<rparr>\<rparr>)"

definition build_bbo_datagram :: "byte list \<Rightarrow> bbo_data \<Rightarrow> publisher \<Rightarrow> byte list \<times> publisher" where
  "build_bbo_datagram symb bbo P =
     (let (ts, seq, P1) = next_stamp P
      in (bytes_of_bbo_update
            \<lparr>bu_header = \<lparr>uh_type = UDP_BBO_UPDATE, uh_length = of_nat sizeof_BBOUpdateMessage, uh_sequence = seq,
               uh_timestamp = ts\<rparr>,
             bu_symbol = take 8 symb, bu_bid_price = bd_bid_price bbo, bu_bid_quantity = bd_bid_quantity bbo,
             bu_ask_price = bd_ask_price bbo, bu_ask_quantity = bd_ask_quantity bbo\<rparr>, P1))"

definition build_trade_datagram :: "byte list \<Rightarrow> trade \<Rightarrow> publisher \<Rightarrow> byte list \<times> publisher" where
  "build_trade_datagram symb trade P =
     (let (ts, seq, P1) = next_stamp P
      in (bytes_of_trade_update
            \<lparr>tu_header = \<lparr>uh_type = UDP_TRADE_UPDATE, uh_length = of_nat sizeof_TradeUpdateMessage, uh_sequence = seq,
               uh_timestamp = ts\<rparr>,
             tu_trade_id = t_id trade, tu_symbol = take 8 symb, tu_quantity = t_quantity trade,
             tu_price = t_price trade, tu_aggressor_side = 1\<rparr>, P1))"

text \<open>The first argument is how many send buffers are left.\<close>

fun build_datagrams :: "nat \<Rightarrow> md_event list \<Rightarrow> publisher \<Rightarrow> byte list list \<times> publisher" where
  "build_datagrams room [] P = ([], P)"
| "build_datagrams 0 (e # es) P = ([], P)"
| "build_datagrams (Suc room) (e # es) P =
     (let (d, P1) = (case e of
            MD_BBO symb bbo \<Rightarrow> build_bbo_datagram symb bbo P
          | MD_TRADE symb trade \<Rightarrow> build_trade_datagram symb trade P);
          (ds, P2) = build_datagrams room es P1
      in (d # ds, P2))"

definition batch_send :: "byte list list \<Rightarrow> publisher \<Rightarrow> publisher" where
  "batch_send buffers P =
     (let sent = up_answer P (length (up_offered P)) (length buffers);
          P1 = P\<lparr>up_offered := up_offered P @ [buffers]\<rparr>
      in if 0 < sent
         then P1\<lparr>up_local := (up_local P1)\<lparr>ps_messages_sent := ps_messages_sent (up_local P1) + of_int sent\<rparr>\<rparr>
         else P1)"

definition up_flush_stats :: "publisher \<Rightarrow> publisher" where
  "up_flush_stats P = P\<lparr>up_messages_sent := ps_messages_sent (up_local P)\<rparr>"

definition up_maybe_flush_stats :: "publisher \<Rightarrow> publisher" where
  "up_maybe_flush_stats P =
     (if ps_messages_sent (up_local P) mod MD_STATS_FLUSH = 0 \<and> 0 < ps_messages_sent (up_local P)
      then up_flush_stats P else P)"

section \<open>The worker\<close>

definition up_iteration :: "publisher \<Rightarrow> md_event mpmc \<Rightarrow> publisher \<times> md_event mpmc" where
  "up_iteration P q =
     (let (events, q1) = drain_events q
      in if events \<noteq> []
         then let (buffers, P1) = build_datagrams SENDMMSG_BATCH events P;
                  P2 = (if buffers \<noteq> [] then batch_send buffers P1 else P1)
              in (up_maybe_flush_stats P2, q1)
         else (P, q1))"

text \<open>\<open>setup_socket\<close> is what \<open>socket\<close> answers.\<close>

definition up_start :: "int \<Rightarrow> publisher \<Rightarrow> publisher" where
  "up_start setup_socket P =
     (if up_running P then P else if setup_socket < 0 then P else P\<lparr>up_running := True, up_fd := setup_socket\<rparr>)"

definition up_stop :: "publisher \<Rightarrow> publisher" where
  "up_stop P = (if \<not> up_running P then P else up_flush_stats (P\<lparr>up_running := False, up_fd := -1\<rparr>))"

section \<open>What the receivers see\<close>

lemma udp_header_roundtrip: "udp_header_of_bytes (bytes_of_udp_header h @ bs) = h"
  by (simp add: udp_header_of_bytes_def bytes_of_udp_header_def field_at [of 4] field_at [of 8] field_at [of 16])

lemma length_udp_header [simp]: "length (bytes_of_udp_header h) = 24"
  by (simp add: bytes_of_udp_header_def)

lemma bbo_update_roundtrip:
  assumes "length (bu_symbol m) = 8"
  shows "bbo_update_of_bytes (bytes_of_bbo_update m) = m" "length (bytes_of_bbo_update m) = 64"
  using assms
  by (simp_all add: bbo_update_of_bytes_def bytes_of_bbo_update_def udp_header_roundtrip field_at [of 24] field_at [of 32]
    field_at [of 40] field_at [of 48] field_at [of 56] field_0_append [of 8 _ "[]", simplified])

lemma trade_update_roundtrip:
  assumes "length (tu_symbol m) = 8"
  shows "trade_update_of_bytes (bytes_of_trade_update m) = m" "length (bytes_of_trade_update m) = 57"
  using assms
  by (simp_all add: trade_update_of_bytes_def bytes_of_trade_update_def udp_header_roundtrip nth_append field_at [of 24]
    field_at [of 32] field_at [of 40] field_at [of 48])

fun md_symbol :: "md_event \<Rightarrow> byte list" where
  "md_symbol (MD_TRADE symb t) = symb"
| "md_symbol (MD_BBO symb b) = symb"

text \<open>The datagram \<open>d\<close> tells a receiver about the event, under the sequence number.\<close>

fun announces :: "byte list \<Rightarrow> u64 \<Rightarrow> md_event \<Rightarrow> bool" where
  "announces d seq (MD_TRADE symb t) \<longleftrightarrow> length d = 57 \<and>
     (\<exists>ts. trade_update_of_bytes d =
        \<lparr>tu_header = \<lparr>uh_type = UDP_TRADE_UPDATE, uh_length = 57, uh_sequence = seq, uh_timestamp = ts\<rparr>,
         tu_trade_id = t_id t, tu_symbol = take 8 symb, tu_quantity = t_quantity t, tu_price = t_price t,
         tu_aggressor_side = 1\<rparr>)"
| "announces d seq (MD_BBO symb b) \<longleftrightarrow> length d = 64 \<and>
     (\<exists>ts. bbo_update_of_bytes d =
        \<lparr>bu_header = \<lparr>uh_type = UDP_BBO_UPDATE, uh_length = 64, uh_sequence = seq, uh_timestamp = ts\<rparr>,
         bu_symbol = take 8 symb, bu_bid_price = bd_bid_price b, bu_bid_quantity = bd_bid_quantity b,
         bu_ask_price = bd_ask_price b, bu_ask_quantity = bd_ask_quantity b\<rparr>)"

lemma build_one_announces:
  assumes "8 \<le> length (md_symbol e)"
    and "(case e of MD_BBO symb bbo \<Rightarrow> build_bbo_datagram symb bbo P | MD_TRADE symb t \<Rightarrow> build_trade_datagram symb t P) = (d, P1)"
  shows "announces d (ps_next_sequence (up_local P)) e"
    "P1 = P\<lparr>up_ticks := Suc (up_ticks P), up_local := (up_local P)\<lparr>ps_next_sequence := ps_next_sequence (up_local P) + 1\<rparr>\<rparr>"
  using assms
  by (cases e; auto simp: build_bbo_datagram_def build_trade_datagram_def next_stamp_def bbo_update_roundtrip
    trade_update_roundtrip sizeof_BBOUpdateMessage_def sizeof_TradeUpdateMessage_def Let_def)+

lemma build_datagrams_spec:
  assumes "\<forall>e\<in>set es. 8 \<le> length (md_symbol e)" "build_datagrams room es P = (ds, P')"
  shows "length ds = min room (length es) \<and>
     (\<forall>i<length ds. announces (ds ! i) (ps_next_sequence (up_local P) + of_nat i) (es ! i)) \<and>
     P' = P\<lparr>up_ticks := up_ticks P + length ds,
       up_local := (up_local P)\<lparr>ps_next_sequence := ps_next_sequence (up_local P) + of_nat (length ds)\<rparr>\<rparr>"
  using assms
proof (induction es arbitrary: room P ds)
  case (Cons e es)
  show ?case
  proof (cases room)
    case 0
    with Cons.prems(2) show ?thesis by simp
  next
    case (Suc room')
    obtain d P1 where d: "(case e of MD_BBO symb bbo \<Rightarrow> build_bbo_datagram symb bbo P
        | MD_TRADE symb t \<Rightarrow> build_trade_datagram symb t P) = (d, P1)" by force
    obtain ds1 P2 where ds1: "build_datagrams room' es P1 = (ds1, P2)" by force
    have eq: "ds = d # ds1" "P' = P2" using Cons.prems(2) d ds1 by (auto simp: Suc Let_def)
    note one = build_one_announces [OF _ d]
    note rest = Cons.IH [of room' P1 ds1]
    show ?thesis
      using one rest Cons.prems(1) ds1 by (auto simp: eq Suc nth_Cons add.assoc [symmetric] split: nat.split)
  qed
qed simp

section \<open>Batches and runs\<close>

abbreviation next_seq :: "publisher \<Rightarrow> u64" where "next_seq P \<equiv> ps_next_sequence (up_local P)"

lemma maybe_flush_simps [simp]:
  "next_seq (up_maybe_flush_stats P) = next_seq P" "up_offered (up_maybe_flush_stats P) = up_offered P"
  by (simp_all add: up_maybe_flush_stats_def up_flush_stats_def)

lemma batch_send_simps [simp]:
  "next_seq (batch_send ds P) = next_seq P" "up_offered (batch_send ds P) = up_offered P @ [ds]"
  by (simp_all add: batch_send_def Let_def)

lemma up_iteration_spec:
  assumes "mq_inv q" "\<forall>e\<in>set (mq_contents q). 8 \<le> length (md_symbol e)" "up_iteration P q = (P', q')"
  obtains ds where "mq_inv q'" "mq_contents q' = drop 64 (mq_contents q)" "mq_cap q' = mq_cap q"
    "length ds = min 32 (length (mq_contents q))"
    "\<forall>i<length ds. announces (ds ! i) (next_seq P + of_nat i) (mq_contents q ! i)"
    "next_seq P' = next_seq P + of_nat (length ds)"
    "up_offered P' = up_offered P @ (if mq_contents q = [] then [] else [ds])"
proof -
  obtain q1 where q1: "drain_events q = (take 64 (mq_contents q), q1)" "mq_inv q1"
    "mq_contents q1 = drop 64 (mq_contents q)" "mq_cap q1 = mq_cap q"
    using mq.drain_spec [OF assms(1), of 64] by (auto simp: drain_events_def MD_BATCH_SIZE_def)
  obtain ds P1 where ds: "build_datagrams 32 (take 64 (mq_contents q)) P = (ds, P1)" by force
  have "\<forall>e\<in>set (take 64 (mq_contents q)). 8 \<le> length (md_symbol e)" using assms(2) by (meson in_set_takeD)
  note b = build_datagrams_spec [OF this ds]
  show thesis
  proof (cases "mq_contents q = []")
    case True
    then show thesis using q1 assms(3) by (intro that [of "[]"]) (auto simp: up_iteration_def)
  next
    case False
    then have "ds \<noteq> []" using b by (auto simp: min_def simp del: length_mq_contents split: if_splits)
    then show thesis
      using False q1 assms(3) b ds
      by (intro that [of ds]) (auto simp: up_iteration_def SENDMMSG_BATCH_def min_def)
  qed
qed

text \<open>
  One turn of the worker takes up to 64 events from the queue, oldest first, and hands
  one batch to the kernel: its datagrams announce, in order and with consecutive sequence
  numbers, the first 32 of them. The 33rd to 64th event of a batch are taken from the queue and
  never announced, and no gap in the sequence numbers shows it.
\<close>

theorem publisher_batch_announces_a_prefix:
  assumes "mq_inv q" "\<forall>e\<in>set (mq_contents q). 8 \<le> length (md_symbol e)" "mq_contents q \<noteq> []"
    and "up_iteration P q = (P', q')"
  shows "\<exists>ds. up_offered P' = up_offered P @ [ds] \<and> length ds = min 32 (length (mq_contents q)) \<and>
     (\<forall>i<length ds. announces (ds ! i) (ps_next_sequence (up_local P) + of_nat i) (mq_contents q ! i)) \<and>
     ps_next_sequence (up_local P') = ps_next_sequence (up_local P) + of_nat (length ds) \<and>
     mq_contents q' = drop 64 (mq_contents q)"
  using assms(3) by (rule_tac up_iteration_spec [OF assms(1,2,4)]) auto

text \<open>A publisher and a feed of one event, to run the theorems on.\<close>

definition pub_ex :: publisher where "pub_ex = up_new ''239.0.0.1'' 9999 (\<lambda>_. 0) (\<lambda>_. int)"

definition md_ex :: md_event where
  "md_ex = MD_BBO (replicate 8 65)
     \<lparr>bd_bid_price = 100, bd_bid_quantity = 5, bd_ask_price = 101, bd_ask_quantity = 7\<rparr>"

theorem publisher_batch_announces_a_prefix_witness:
  "\<exists>q P' q' ds. mq_contents q = replicate 33 md_ex \<and> up_iteration pub_ex q = (P', q') \<and>
     up_offered P' = [ds] \<and> length ds = 32 \<and> mq_contents q' = [] \<and> ps_next_sequence (up_local P') = 33"
proof -
  have new: "mq_inv (mq_new md_ex 64)" "mq_contents (mq_new md_ex 64) = []" "64 \<le> mq_cap (mq_new md_ex 64)"
    using mq_inv_new [of 64 md_ex] by simp_all
  obtain q where q: "mq_inv q" "mq_contents q = replicate 33 md_ex"
    using mq.push_all_spec [OF new(1), of "replicate 33 md_ex"] new by auto
  obtain P' q' where it: "up_iteration pub_ex q = (P', q')" by force
  have "\<exists>ds. up_offered P' = up_offered pub_ex @ [ds] \<and> length ds = min 32 33 \<and>
     ps_next_sequence (up_local P') = ps_next_sequence (up_local pub_ex) + of_nat (length ds) \<and>
     mq_contents q' = drop 64 (replicate 33 md_ex)"
    using publisher_batch_announces_a_prefix [OF q(1) _ _ it] q(2) by (auto simp: md_ex_def)
  with q it show ?thesis by (auto simp: pub_ex_def up_new_def)
qed

text \<open>
  The engines and the worker interleave: \<open>acc\<close> are the events the queue has accepted, \<open>slow\<close> says
  that some turn found more than 32 events waiting.
\<close>

inductive md_run :: "publisher \<Rightarrow> md_event mpmc \<Rightarrow> publisher \<Rightarrow> md_event mpmc \<Rightarrow> md_event list \<Rightarrow> bool \<Rightarrow> bool"
  for P0 :: publisher and q0 :: "md_event mpmc" where
  md_init: "md_run P0 q0 P0 q0 [] False"
| md_push: "md_run P0 q0 P q acc slow \<Longrightarrow> 8 \<le> length (md_symbol e) \<Longrightarrow> mq_push e q = Some (True, q') \<Longrightarrow>
    md_run P0 q0 P q' (acc @ [e]) slow"
| md_refused: "md_run P0 q0 P q acc slow \<Longrightarrow> mq_push e q = Some (False, q') \<Longrightarrow> md_run P0 q0 P q' acc slow"
| md_turn: "md_run P0 q0 P q acc slow \<Longrightarrow> up_iteration P q = (P', q') \<Longrightarrow>
    md_run P0 q0 P' q' acc (slow \<or> 32 < length (mq_contents q))"

definition announced :: "publisher \<Rightarrow> md_event list \<Rightarrow> bool" where
  "announced P evs \<longleftrightarrow>
     length (concat (up_offered P)) = length evs \<and> ps_next_sequence (up_local P) = 1 + of_nat (length evs) \<and>
     (\<forall>i<length evs. announces (concat (up_offered P) ! i) (1 + of_nat i) (evs ! i))"

definition md_told :: "publisher \<Rightarrow> md_event mpmc \<Rightarrow> md_event list \<Rightarrow> bool \<Rightarrow> bool" where
  "md_told P q acc slow \<longleftrightarrow>
     (\<exists>evs. announced P evs \<and> subseq (evs @ mq_contents q) acc \<and> (\<not> slow \<longrightarrow> evs @ mq_contents q = acc))"

lemma subseq_append_mono: "subseq xs xs' \<Longrightarrow> subseq ys ys' \<Longrightarrow> subseq (xs @ ys) (xs' @ ys')"
  by (rule list_emb_append_mono)

lemma announced_more:
  assumes "announced P evs" "up_offered P' = up_offered P @ dss" "concat dss = ds"
    "length ds = length new" "next_seq P' = next_seq P + of_nat (length ds)"
    "\<forall>i<length ds. announces (ds ! i) (next_seq P + of_nat i) (new ! i)"
  shows "announced P' (evs @ new)"
  using assms by (auto simp: announced_def nth_append not_less ac_simps dest!: le_Suc_ex)

lemma md_told_turn:
  assumes "mq_inv q" "\<forall>e\<in>set (mq_contents q). 8 \<le> length (md_symbol e)" "up_iteration P q = (P', q')"
    and "md_told P q acc slow"
  shows "md_told P' q' acc (slow \<or> 32 < length (mq_contents q))"
proof (rule up_iteration_spec [OF assms(1-3)])
  fix ds
  let ?c = "mq_contents q"
  assume q': "mq_contents q' = drop 64 ?c" and ds: "length ds = min 32 (length ?c)"
    "\<forall>i<length ds. announces (ds ! i) (next_seq P + of_nat i) (?c ! i)"
    "next_seq P' = next_seq P + of_nat (length ds)" "up_offered P' = up_offered P @ (if ?c = [] then [] else [ds])"
  obtain evs where evs: "announced P evs" "subseq (evs @ ?c) acc" "\<not> slow \<longrightarrow> evs @ ?c = acc"
    using assms(4) by (auto simp: md_told_def)
  have "announced P' (evs @ take 32 ?c)"
    by (rule announced_more [OF evs(1) ds(4) refl]) (use ds in \<open>auto simp del: length_mq_contents\<close>)
  moreover have "subseq (take 32 ?c @ drop 64 ?c) ?c"
  proof -
    have "subseq (drop 32 (drop 32 ?c)) (drop 32 ?c)" by (rule suffix_imp_subseq [OF suffix_drop])
    then have "subseq (take 32 ?c @ drop 64 ?c) (take 32 ?c @ drop 32 ?c)"
      by (intro subseq_append_mono subseq_order.refl) simp
    then show ?thesis by simp
  qed
  then have "subseq ((evs @ take 32 ?c) @ drop 64 ?c) acc"
    using evs(2) by (metis append.assoc subseq_append_mono subseq_order.refl subseq_order.trans)
  ultimately show ?thesis
    using evs(3) q' by (auto simp: md_told_def intro!: exI [of _ "evs @ take 32 ?c"])
qed

lemma md_run_inv:
  assumes "md_run P0 q0 P q acc slow" "mq_inv q0" "mq_contents q0 = []" "announced P0 []"
  shows "mq_inv q \<and> (\<forall>e\<in>set (mq_contents q). 8 \<le> length (md_symbol e)) \<and> md_told P q acc slow"
  using assms
proof (induction rule: md_run.induct)
  case md_init
  then show ?case by (auto simp: md_told_def)
next
  case (md_push P q acc slow e q')
  then have q: "mq_inv q" "mq_try_push e q = (True, q')" by (auto simp: mq_try_push_def)
  from mq.push_spec [OF this] md_push show ?case
    by (auto simp: md_told_def) (metis append.assoc subseq_append_mono subseq_order.refl)+
next
  case (md_refused P q acc slow e q')
  then have q: "mq_inv q" "mq_try_push e q = (False, q')" by (auto simp: mq_try_push_def)
  from mq.push_spec [OF this] md_refused show ?case by (auto simp: md_told_def)
next
  case (md_turn P q acc slow P' q')
  then have h: "mq_inv q" "\<forall>e\<in>set (mq_contents q). 8 \<le> length (md_symbol e)" "md_told P q acc slow" by auto
  show ?case
    using up_iteration_spec [OF h(1,2) md_turn.hyps(2)] md_told_turn [OF h(1,2) md_turn.hyps(2) h(3)] h(2)
    by (metis in_set_dropD)
qed

text \<open>
  Claim C26. Whatever the interleaving of the engines, which push events, with the turns of the
  worker, the datagrams handed to the kernel carry the sequence numbers 1, 2, 3, \dots and
  announce accepted events in the order of their acceptance, none twice; while no turn finds
  more than 32 events waiting, the events announced and those still in the queue are all the
  events accepted.
\<close>

theorem publisher_feed_is_ordered_and_gap_free:
  assumes "2 \<le> unat n" "unat n \<le> 2 ^ 63"
    and "md_run (up_new grp port clk answer) (mq_new z n) P q acc slow"
  shows "\<exists>evs. length (concat (up_offered P)) = length evs \<and>
     (\<forall>i<length evs. announces (concat (up_offered P) ! i) (1 + of_nat i) (evs ! i)) \<and>
     subseq (evs @ mq_contents q) acc \<and> (\<not> slow \<longrightarrow> evs @ mq_contents q = acc)"
proof -
  have "announced (up_new grp port clk answer) []" by (simp add: announced_def up_new_def)
  with md_run_inv [OF assms(3)] mq_inv_new [OF assms(1,2), of z] show ?thesis
    by (auto simp: md_told_def announced_def)
qed

theorem publisher_feed_is_ordered_and_gap_free_witness:
  "\<exists>P q. md_run pub_ex (mq_new md_ex 4) P q [md_ex] False \<and> mq_contents q = [] \<and>
     (\<exists>d. concat (up_offered P) = [d] \<and> announces d 1 md_ex)"
proof -
  have new: "mq_inv (mq_new md_ex 4)" "mq_contents (mq_new md_ex 4) = []" "4 \<le> mq_cap (mq_new md_ex 4)"
    using mq_inv_new [of 4 md_ex] by simp_all
  obtain q where q: "mq_try_push md_ex (mq_new md_ex 4) = (True, q)" "mq_inv q" "mq_contents q = [md_ex]"
    using mq.push_room [OF new(1), of md_ex] new by auto
  have pushed: "mq_push md_ex (mq_new md_ex 4) = Some (True, q)"
    using q(1) new(1) by (simp add: mq_try_push_def mq_push_spec)
  have r1: "md_run pub_ex (mq_new md_ex 4) pub_ex q ([] @ [md_ex]) False"
    by (rule md_push [OF md_init _ pushed]) (simp add: md_ex_def)
  obtain P' q' where it: "up_iteration pub_ex q = (P', q')" by force
  from md_turn [OF r1 it] have r2: "md_run pub_ex (mq_new md_ex 4) P' q' [md_ex] False" by (simp add: q(3))
  have emp: "mq_contents q' = []"
    using q by (rule_tac up_iteration_spec [OF q(2) _ it]) (simp_all add: md_ex_def)
  have "\<exists>evs. length (concat (up_offered P')) = length evs \<and>
     (\<forall>i<length evs. announces (concat (up_offered P') ! i) (1 + of_nat i) (evs ! i)) \<and> evs @ mq_contents q' = [md_ex]"
    using publisher_feed_is_ordered_and_gap_free [OF _ _ r2 [unfolded pub_ex_def]] by auto
  then have "length (concat (up_offered P')) = 1" "announces (concat (up_offered P') ! 0) 1 md_ex"
    using emp by (auto simp del: announces.simps)
  then have "concat (up_offered P') = [concat (up_offered P') ! 0] \<and> announces (concat (up_offered P') ! 0) 1 md_ex"
    by (metis One_nat_def length_0_conv length_Suc_conv nth_Cons_0)
  with r2 emp show ?thesis by blast
qed

end
