(* ===== verification/RTES_Text.thy ===== *)
theory RTES_Text
  imports RTES_Types
begin

text \<open>
  The functions on text that guard the boundary of the system: the character classes of the C
  library in the C locale, \<open>InputSanitizer\<close> and the sanitisers of \<open>FieldValidators\<close>
  (\<^verbatim>\<open>include/rtes/input_validation.hpp\<close>, \<^verbatim>\<open>src/input_validation.cpp\<close>), and the log sanitiser of
  \<open>SecurityUtils\<close> (\<^verbatim>\<open>src/security_utils.cpp\<close>). A \<open>std::string\<close> is a list of characters; \<open>char\<close> is
  signed, so a character with code 128 or more compares as negative.
\<close>

section \<open>Characters\<close>

abbreviation code :: "char \<Rightarrow> nat" where "code c \<equiv> of_char c"

definition is_digit :: "char \<Rightarrow> bool" where "is_digit c \<longleftrightarrow> 48 \<le> code c \<and> code c \<le> 57"
definition is_upper :: "char \<Rightarrow> bool" where "is_upper c \<longleftrightarrow> 65 \<le> code c \<and> code c \<le> 90"
definition is_lower :: "char \<Rightarrow> bool" where "is_lower c \<longleftrightarrow> 97 \<le> code c \<and> code c \<le> 122"
definition is_alnum :: "char \<Rightarrow> bool" where "is_alnum c \<longleftrightarrow> is_digit c \<or> is_upper c \<or> is_lower c"
definition is_space :: "char \<Rightarrow> bool" where "is_space c \<longleftrightarrow> 9 \<le> code c \<and> code c \<le> 13 \<or> code c = 32"

definition to_upper :: "char \<Rightarrow> char" where
  "to_upper c = (if is_lower c then char_of (code c - 32) else c)"

definition control_char :: "char \<Rightarrow> bool" where
  "control_char c \<longleftrightarrow> code c \<le> 8 \<or> code c = 11 \<or> code c = 12 \<or> 14 \<le> code c \<and> code c \<le> 31 \<or> code c = 127"

definition dangerous_char :: "char \<Rightarrow> bool" where
  "dangerous_char c \<longleftrightarrow> code c \<in> {59, 124, 38, 36, 96, 40, 41, 123, 125, 91, 93, 60, 62, 34, 39}"

abbreviation backslash :: char where "backslash \<equiv> CHR 0x5C"
abbreviation space :: char where "space \<equiv> CHR '' ''"

section \<open>InputSanitizer\<close>

definition remove_control_chars :: "string \<Rightarrow> string" where
  "remove_control_chars input =
     filter (\<lambda>c. \<not> control_char c \<and> (32 \<le> code c \<and> code c < 128 \<or> code c = 9 \<or> code c = 10 \<or> code c = 13)) input"

definition escape_special_chars :: "string \<Rightarrow> string" where
  "escape_special_chars input = concat (map (\<lambda>c. if dangerous_char c then [backslash, c] else [c]) input)"

fun squeeze :: "bool \<Rightarrow> string \<Rightarrow> string" where
  "squeeze prev_space [] = []"
| "squeeze prev_space (c # cs) =
     (if is_space c then (if prev_space then squeeze True cs else space # squeeze True cs)
      else c # squeeze False cs)"

definition normalize_whitespace :: "string \<Rightarrow> string" where
  "normalize_whitespace input =
     (let result = squeeze False input;
          result = (if result \<noteq> [] \<and> hd result = space then tl result else result)
      in if result \<noteq> [] \<and> last result = space then butlast result else result)"

definition sanitize_network_input :: "string \<Rightarrow> string" where
  "sanitize_network_input input =
     (if input = [] \<or> 8192 < length input then []
      else normalize_whitespace (escape_special_chars (remove_control_chars input)))"

definition sanitize_config_value :: "string \<Rightarrow> string" where
  "sanitize_config_value value = sanitize_network_input value"

definition input_sanitize_log :: "string \<Rightarrow> string" where
  "input_sanitize_log input = remove_control_chars input"

section \<open>FieldValidators: sanitisers\<close>

text \<open>The loops stop once the result is full; the limit is tested after a character is appended.\<close>

fun collect :: "(char \<Rightarrow> bool) \<Rightarrow> (char \<Rightarrow> char) \<Rightarrow> nat \<Rightarrow> string \<Rightarrow> string \<Rightarrow> string" where
  "collect P f limit acc [] = acc"
| "collect P f limit acc (c # cs) =
     (let acc = (if P c then acc @ [f c] else acc)
      in if limit \<le> length acc then acc else collect P f limit acc cs)"

definition sanitize_symbol :: "string \<Rightarrow> string" where
  "sanitize_symbol symb = collect is_alnum to_upper 8 [] symb"

definition sanitize_client_id :: "string \<Rightarrow> string" where
  "sanitize_client_id client_id = collect (\<lambda>c. is_alnum c \<or> c = CHR ''_'' \<or> c = CHR ''-'') id 32 [] client_id"

fun sanitize_string :: "string \<Rightarrow> nat \<Rightarrow> string" where
  "sanitize_string [] max_length = []"
| "sanitize_string (c # cs) max_length =
     (case max_length of
        0 \<Rightarrow> []
      | Suc m \<Rightarrow> (if c = CHR 0x0A \<or> c = CHR 0x0D \<or> c = CHR 0x09 then CHR ''_'' else c) # sanitize_string cs m)"

section \<open>SecurityUtils: text\<close>

definition escape_log_char :: "char \<Rightarrow> string" where
  "escape_log_char c =
     (if c = CHR 0x0A then [backslash, CHR ''n'']
      else if c = CHR 0x0D then [backslash, CHR ''r'']
      else if c = CHR 0x09 then [backslash, CHR ''t'']
      else if c = backslash then [backslash, backslash]
      else if c = CHR 0x22 then [backslash, CHR 0x22]
      else [c])"

definition sanitize_log_input :: "string \<Rightarrow> string" where
  "sanitize_log_input input = concat (map (\<lambda>c. if control_char c then [] else escape_log_char c) input)"

definition is_safe_string :: "string \<Rightarrow> bool" where
  "is_safe_string input \<longleftrightarrow> \<not> list_ex control_char input"

text \<open>The pattern \<^verbatim>\<open>^[A-Z][A-Z0-9]*$\<close> of the whole text.\<close>

definition is_valid_symbol :: "string \<Rightarrow> bool" where
  "is_valid_symbol symb \<longleftrightarrow>
     \<not> (symb = [] \<or> 10 < length symb) \<and>
     (case symb of [] \<Rightarrow> False | c # cs \<Rightarrow> is_upper c \<and> list_all (\<lambda>d. is_upper d \<or> is_digit d) cs)"

definition is_valid_order_id :: "string \<Rightarrow> bool" where
  "is_valid_order_id order_id \<longleftrightarrow>
     \<not> (order_id = [] \<or> 20 < length order_id) \<and>
     list_all (\<lambda>c. is_alnum c \<or> c = CHR ''-'' \<or> c = CHR ''_'') order_id"

section \<open>Character facts\<close>

lemmas char_classes = is_digit_def is_upper_def is_lower_def is_alnum_def is_space_def control_char_def
  dangerous_char_def

lemma code_less [simp]: "code c < 256"
proof -
  have "code c mod 256 < 256" by simp
  then show ?thesis by (simp only: of_char_mod_256)
qed

lemma to_upper_code: "code (to_upper c) = (if is_lower c then code c - 32 else code c)"
  using code_less [of c] by (auto simp: to_upper_def less_imp_diff_less)

lemma to_upper_alnum: "is_alnum c \<Longrightarrow> is_upper (to_upper c) \<or> is_digit (to_upper c)"
  by (auto simp: to_upper_code char_classes)

lemma to_upper_id: "is_upper c \<or> is_digit c \<Longrightarrow> to_upper c = c"
  by (auto simp: to_upper_def char_classes)

section \<open>Collecting\<close>

lemma collect_eq: "length acc < limit \<Longrightarrow> collect P f limit acc cs = take limit (acc @ map f (filter P cs))"
  by (induction cs arbitrary: acc) (auto simp: Let_def take_Cons' Suc_diff_Suc)

lemma sanitize_symbol_eq: "sanitize_symbol s = take 8 (map to_upper (filter is_alnum s))"
  by (simp add: sanitize_symbol_def collect_eq)

lemma sanitize_client_id_eq:
  "sanitize_client_id s = take 32 (filter (\<lambda>c. is_alnum c \<or> c = CHR ''_'' \<or> c = CHR ''-'') s)"
  by (simp add: sanitize_client_id_def collect_eq)

lemma sanitize_symbol_chars: "c \<in> set (sanitize_symbol s) \<Longrightarrow> is_upper c \<or> is_digit c"
  by (auto simp: sanitize_symbol_eq dest!: in_set_takeD to_upper_alnum)

lemma sanitize_symbol_length: "length (sanitize_symbol s) \<le> min 8 (length s)"
  by (simp add: sanitize_symbol_eq le_trans [OF min.cobounded1 length_filter_le])

lemma sanitize_symbol_id:
  assumes "length s \<le> 8" "\<forall>c\<in>set s. is_upper c \<or> is_digit c"
  shows "sanitize_symbol s = s"
proof -
  have "filter is_alnum s = s" using assms(2) by (auto simp: filter_id_conv is_alnum_def)
  moreover have "map to_upper s = s" using assms(2) by (simp add: map_idI to_upper_id)
  ultimately show ?thesis using assms(1) by (simp add: sanitize_symbol_eq)
qed

section \<open>Network input\<close>

fun guarded :: "char \<Rightarrow> string \<Rightarrow> bool" where
  "guarded p [] \<longleftrightarrow> True"
| "guarded p (c # cs) \<longleftrightarrow> (dangerous_char c \<longrightarrow> p = backslash) \<and> guarded c cs"

lemma not_dangerous [simp]: "\<not> dangerous_char backslash" "\<not> dangerous_char space"
  by (simp_all add: dangerous_char_def)

lemma not_is_space [simp]: "\<not> is_space backslash" "is_space space"
  by (simp_all add: is_space_def)

lemma guarded_escape: "guarded p (escape_special_chars s)"
  by (induction s arbitrary: p) (auto simp: escape_special_chars_def)

lemma guarded_other: "guarded space cs \<Longrightarrow> guarded p cs"
  by (cases cs) auto

lemma guarded_squeeze: "guarded p s \<Longrightarrow> (b \<Longrightarrow> is_space p) \<Longrightarrow> guarded (if b then space else p) (squeeze b s)"
proof (induction s arbitrary: p b)
  case (Cons c s)
  then have "is_space c \<Longrightarrow> guarded space (squeeze True s)" "guarded c (squeeze False s)"
    using Cons.IH [of c True] Cons.IH [of c False] by auto
  with Cons.prems show ?case by (auto intro: guarded_other)
qed simp

lemma guarded_butlast: "guarded p s \<Longrightarrow> guarded p (butlast s)"
  by (induction s arbitrary: p) auto

lemma guarded_normalize: "guarded space s \<Longrightarrow> guarded space (normalize_whitespace s)"
  using guarded_squeeze [of space s False]
  by (cases "squeeze False s") (auto simp: normalize_whitespace_def Let_def guarded_butlast)

lemma guarded_nth: "guarded p s \<Longrightarrow> i < length s \<Longrightarrow> dangerous_char (s ! i) \<Longrightarrow> (p # s) ! i = backslash"
proof (induction s arbitrary: p i)
  case (Cons c s)
  then show ?case by (cases i) auto
qed simp

definition single :: "string \<Rightarrow> bool" where
  "single s \<longleftrightarrow> (\<forall>i. Suc i < length s \<longrightarrow> \<not> (s ! i = space \<and> s ! Suc i = space))"

lemma single_squeeze: "single (squeeze b s) \<and> (b \<longrightarrow> squeeze b s \<noteq> [] \<longrightarrow> hd (squeeze b s) \<noteq> space)"
proof (induction s arbitrary: b)
  case (Cons c s)
  have ext: "single (d # t)" if "single t" "d = space \<longrightarrow> t \<noteq> [] \<longrightarrow> hd t \<noteq> space" for d t
    using that by (auto simp: single_def nth_Cons hd_conv_nth split: nat.split)
  show ?case
    using Cons.IH [of True] Cons.IH [of False] not_is_space(2) by (auto intro!: ext)
qed (simp add: single_def)

lemma single_sub: "single s \<Longrightarrow> single (tl s)" "single s \<Longrightarrow> single (butlast s)"
  by (auto simp: single_def nth_tl nth_butlast)

lemma normalize_ends:
  fixes s :: string
  defines "r \<equiv> normalize_whitespace s"
  shows "single r" "r \<noteq> [] \<Longrightarrow> hd r \<noteq> space \<and> last r \<noteq> space"
proof -
  define q where "q = squeeze False s"
  define t where "t = (if q \<noteq> [] \<and> hd q = space then tl q else q)"
  have q: "single q" using single_squeeze [of False s] by (simp add: q_def)
  then have t: "single t" by (simp add: t_def single_sub)
  have r: "r = (if t \<noteq> [] \<and> last t = space then butlast t else t)"
    by (simp add: r_def normalize_whitespace_def Let_def t_def q_def)
  show "single r" using t by (simp add: r single_sub)
  have hd_t: "t \<noteq> [] \<Longrightarrow> hd t \<noteq> space"
    using q by (cases q; cases "tl q") (auto simp: t_def single_def split: if_splits)
  assume "r \<noteq> []"
  have "last (butlast t) \<noteq> space" if "t \<noteq> []" "last t = space" "butlast t \<noteq> []"
  proof -
    let ?i = "length t - 2"
    have len: "Suc ?i < length t" "Suc ?i = length t - 1" using that(3) by (cases t; cases "tl t"; simp)+
    then have "t ! Suc ?i = space" using that by (simp add: last_conv_nth)
    then have "t ! ?i \<noteq> space" using t len(1) by (auto simp: single_def)
    then show ?thesis using that len by (simp add: last_conv_nth nth_butlast numeral_2_eq_2)
  qed
  moreover have "hd (butlast t) = hd t" if "butlast t \<noteq> []" using that by (cases t; cases "tl t") auto
  ultimately show "hd r \<noteq> space \<and> last r \<noteq> space"
    using hd_t \<open>r \<noteq> []\<close> by (auto simp: r split: if_splits)
qed

lemma set_squeeze: "c \<in> set (squeeze b s) \<Longrightarrow> c = space \<or> c \<in> set s \<and> \<not> is_space c"
  by (induction s arbitrary: b) (auto split: if_splits)

lemma set_normalize: "c \<in> set (normalize_whitespace s) \<Longrightarrow> c = space \<or> c \<in> set s \<and> \<not> is_space c"
  by (rule set_squeeze [of _ False])
    (auto simp: normalize_whitespace_def Let_def dest: in_set_butlastD list.set_sel(2) split: if_splits)

lemma length_squeeze: "length (squeeze b s) \<le> length s"
  by (induction s arbitrary: b) (auto intro: le_SucI)

lemma length_normalize: "length (normalize_whitespace s) \<le> length s"
  using length_squeeze [of False s] by (auto simp: normalize_whitespace_def Let_def)

lemma length_escape: "length (escape_special_chars s) \<le> 2 * length s"
  by (induction s) (auto simp: escape_special_chars_def)

lemma set_escape: "c \<in> set (escape_special_chars s) \<Longrightarrow> c = backslash \<or> c \<in> set s"
  by (auto simp: escape_special_chars_def split: if_splits)

lemma kept_char: "c \<in> set (remove_control_chars s) \<Longrightarrow> \<not> is_space c \<Longrightarrow> 32 \<le> code c \<and> code c \<le> 126"
  unfolding remove_control_chars_def control_char_def is_space_def by simp

lemma network_input_ascii: "list_all (\<lambda>c. 32 \<le> code c \<and> code c \<le> 126) (sanitize_network_input s)"
proof -
  have "32 \<le> code c \<and> code c \<le> 126"
    if "c \<in> set (normalize_whitespace (escape_special_chars (remove_control_chars s)))" for c
    using set_normalize [OF that] set_escape [of c "remove_control_chars s"] kept_char [of c s] by auto
  then show ?thesis by (simp add: sanitize_network_input_def list_all_iff)
qed

text \<open>
  What \<open>sanitize_network_input\<close> lets through is printable ASCII without leading,
  trailing or doubled spaces, at most twice as long as the input, and every shell or markup
  metacharacter in it directly follows a backslash.
\<close>

theorem sanitized_network_input_is_clean:
  assumes "r = sanitize_network_input s"
  shows "list_all (\<lambda>c. 32 \<le> code c \<and> code c \<le> 126) r \<and> length r \<le> 2 * length s \<and>
    (r \<noteq> [] \<longrightarrow> hd r \<noteq> CHR '' '' \<and> last r \<noteq> CHR '' '') \<and>
    (\<forall>i. Suc i < length r \<longrightarrow> \<not> (r ! i = CHR '' '' \<and> r ! Suc i = CHR '' '')) \<and>
    (\<forall>i<length r. dangerous_char (r ! i) \<longrightarrow> 0 < i \<and> r ! (i - 1) = CHR 0x5C)"
proof -
  let ?e = "escape_special_chars (remove_control_chars s)"
  have cases: "r = [] \<or> r = normalize_whitespace ?e" by (simp add: assms sanitize_network_input_def)
  have ascii: "list_all (\<lambda>c. 32 \<le> code c \<and> code c \<le> 126) r" by (simp add: assms network_input_ascii)
  have "length (remove_control_chars s) \<le> length s" by (simp add: remove_control_chars_def)
  then have len: "length r \<le> 2 * length s"
    using cases length_normalize [of ?e] length_escape [of "remove_control_chars s"] by auto
  have ends: "r \<noteq> [] \<longrightarrow> hd r \<noteq> space \<and> last r \<noteq> space" and one: "single r"
    using cases normalize_ends [of ?e] by (auto simp: single_def)
  have "guarded space r" using cases guarded_normalize [OF guarded_escape] by auto
  then have "0 < i \<and> r ! (i - 1) = backslash" if "i < length r" "dangerous_char (r ! i)" for i
    using guarded_nth [of space r i] that by (cases i) auto
  with ascii len ends one show ?thesis by (auto simp: single_def)
qed

theorem sanitized_network_input_is_clean_witness:
  "sanitize_network_input ''  rm -rf;  x'' = ''rm -rf'' @ [CHR 0x5C] @ ''; x'' \<and>
   dangerous_char (sanitize_network_input ''  rm -rf;  x'' ! 7)  \<and> sanitize_network_input ''  rm -rf;  x'' ! 6 = CHR 0x5C"
proof -
  have eq: "sanitize_network_input ''  rm -rf;  x'' = ''rm -rf'' @ [CHR 0x5C] @ ''; x''" by code_simp
  have d: "dangerous_char (sanitize_network_input ''  rm -rf;  x'' ! 7)" by (simp add: eq dangerous_char_def)
  have "\<forall>i<length (sanitize_network_input ''  rm -rf;  x''). dangerous_char (sanitize_network_input ''  rm -rf;  x'' ! i) \<longrightarrow>
      sanitize_network_input ''  rm -rf;  x'' ! (i - 1) = CHR 0x5C"
    using sanitized_network_input_is_clean [OF refl, of "''  rm -rf;  x''"] by blast
  moreover have "7 < length (sanitize_network_input ''  rm -rf;  x'')" by (simp add: eq)
  ultimately have "sanitize_network_input ''  rm -rf;  x'' ! (7 - 1) = CHR 0x5C" using d by blast
  with d eq show ?thesis by simp
qed

section \<open>Log input\<close>

text \<open>A reader of the log undoes the escapes.\<close>

fun unescape_log :: "string \<Rightarrow> string" where
  "unescape_log [] = []"
| "unescape_log [c] = [c]"
| "unescape_log (b # c # cs) =
     (if b = backslash
      then (if c = CHR ''n'' then CHR 0x0A else if c = CHR ''r'' then CHR 0x0D
            else if c = CHR ''t'' then CHR 0x09 else c) # unescape_log cs
      else b # unescape_log (c # cs))"

lemma unescape_plain: "c \<noteq> backslash \<Longrightarrow> unescape_log (c # cs) = c # unescape_log cs"
  by (cases cs) auto

lemma unescape_escape: "unescape_log (escape_log_char c @ cs) = c # unescape_log cs"
  by (auto simp: escape_log_char_def unescape_plain)

text \<open>
  Claim C35. The log sanitiser keeps an entry on one line, without control characters and with
  every quote escaped, and loses nothing but the control characters: undoing the escapes gives
  back the rest of the input.
\<close>

theorem log_sanitizer_roundtrip:
  "unescape_log (sanitize_log_input s) = filter (\<lambda>c. \<not> control_char c) s \<and>
   list_all (\<lambda>c. \<not> control_char c \<and> c \<noteq> CHR 0x0A \<and> c \<noteq> CHR 0x0D \<and> c \<noteq> CHR 0x09) (sanitize_log_input s) \<and>
   length (sanitize_log_input s) \<le> 2 * length s"
proof (induction s)
  case (Cons c s)
  let ?e = "if control_char c then [] else escape_log_char c"
  have step: "sanitize_log_input (c # s) = ?e @ sanitize_log_input s" by (simp add: sanitize_log_input_def)
  have "list_all (\<lambda>c. \<not> control_char c \<and> c \<noteq> CHR 0x0A \<and> c \<noteq> CHR 0x0D \<and> c \<noteq> CHR 0x09) ?e" "length ?e \<le> 2"
    by (auto simp: escape_log_char_def control_char_def)
  with Cons.IH show ?case by (auto simp: step unescape_escape)
qed (simp add: sanitize_log_input_def)

end
