(* ===== verification/RTES_Validation.thy ===== *)
theory RTES_Validation
  imports RTES_Text RTES_Exchange RTES_Memory_Props RTES_Protocol
begin

text \<open>
  Validation of messages, fields and configurations (\<^verbatim>\<open>include/rtes/input_validation.hpp\<close>,
  \<^verbatim>\<open>src/input_validation.cpp\<close>). A \<open>Result<void>\<close> is the error it carries, or None; an error is a
  \<open>std::error_code\<close>, a number with the name of its category. The conversion of text to doubles
  (\<open>std::stod\<close>, None where it throws) and of doubles to text are arguments.
\<close>

section \<open>Errors\<close>

datatype validation_error =
    INVALID_MESSAGE_TYPE | INVALID_MESSAGE_SIZE | INVALID_FIELD_VALUE | INVALID_FIELD_FORMAT
  | INVALID_FIELD_RANGE | MISSING_REQUIRED_FIELD | INVALID_CONFIGURATION | SCHEMA_VIOLATION

fun validation_value :: "validation_error \<Rightarrow> int" where
  "validation_value INVALID_MESSAGE_TYPE = 6000"
| "validation_value INVALID_MESSAGE_SIZE = 6001"
| "validation_value INVALID_FIELD_VALUE = 6002"
| "validation_value INVALID_FIELD_FORMAT = 6003"
| "validation_value INVALID_FIELD_RANGE = 6004"
| "validation_value MISSING_REQUIRED_FIELD = 6005"
| "validation_value INVALID_CONFIGURATION = 6006"
| "validation_value SCHEMA_VIOLATION = 6007"

type_synonym std_error = "int \<times> string"

definition make_validation_error :: "validation_error \<Rightarrow> std_error" where
  "make_validation_error ve = (validation_value ve, ''validation'')"

definition validation_message :: "int \<Rightarrow> string" where
  "validation_message ev =
     (if ev = validation_value INVALID_MESSAGE_TYPE then ''Invalid message type''
      else if ev = validation_value INVALID_MESSAGE_SIZE then ''Invalid message size''
      else if ev = validation_value INVALID_FIELD_VALUE then ''Invalid field value''
      else if ev = validation_value INVALID_FIELD_FORMAT then ''Invalid field format''
      else if ev = validation_value INVALID_FIELD_RANGE then ''Field value out of range''
      else if ev = validation_value MISSING_REQUIRED_FIELD then ''Missing required field''
      else if ev = validation_value INVALID_CONFIGURATION then ''Invalid configuration''
      else if ev = validation_value SCHEMA_VIOLATION then ''Schema validation failed''
      else ''Unknown validation error'')"

abbreviation fail :: "validation_error \<Rightarrow> std_error option" where "fail ve \<equiv> Some (make_validation_error ve)"

section \<open>MessageValidator\<close>

definition sizeof_TradeMessage :: nat where "sizeof_TradeMessage = 92"
definition sizeof_HeartbeatMessage :: nat where "sizeof_HeartbeatMessage = 36"
definition VALID_MAX_MESSAGE_SIZE :: u32 where "VALID_MAX_MESSAGE_SIZE = 8192"
definition MIN_MESSAGE_SIZE :: u32 where "MIN_MESSAGE_SIZE = of_nat sizeof_MessageHeader"

definition is_valid_message_type :: "u32 \<Rightarrow> bool" where
  "is_valid_message_type t \<longleftrightarrow> t \<in> {MT_NEW_ORDER, MT_CANCEL_ORDER, MT_ORDER_ACK, MT_TRADE_REPORT, MT_HEARTBEAT}"

definition expected_size :: "u32 \<Rightarrow> nat option" where
  "expected_size t =
     (if t = MT_NEW_ORDER then Some sizeof_NewOrderMessage
      else if t = MT_CANCEL_ORDER then Some sizeof_CancelOrderMessage
      else if t = MT_ORDER_ACK then Some sizeof_OrderAckMessage
      else if t = MT_TRADE_REPORT then Some sizeof_TradeMessage
      else if t = MT_HEARTBEAT then Some sizeof_HeartbeatMessage
      else None)"

definition is_valid_message_size :: "u32 \<Rightarrow> u32 \<Rightarrow> bool" where
  "is_valid_message_size sz t =
     (if sz < MIN_MESSAGE_SIZE \<or> VALID_MAX_MESSAGE_SIZE < sz then False
      else case expected_size t of None \<Rightarrow> False | Some n \<Rightarrow> unat sz = n)"

definition validate_message_header :: "message_header \<Rightarrow> std_error option" where
  "validate_message_header h =
     (if \<not> is_valid_message_type (mh_type h) then fail INVALID_MESSAGE_TYPE
      else if \<not> is_valid_message_size (mh_length h) (mh_type h) then fail INVALID_MESSAGE_SIZE
      else if mh_sequence h = 0 then fail INVALID_FIELD_VALUE
      else None)"

text \<open>The payload pointer may be null; what it points to is not read.\<close>

definition validate_message_payload :: "bool \<Rightarrow> u64 \<Rightarrow> u32 \<Rightarrow> std_error option" where
  "validate_message_payload payload_null len t =
     (if payload_null \<and> 0 < len then fail INVALID_FIELD_VALUE
      else case expected_size t of
             None \<Rightarrow> fail INVALID_MESSAGE_TYPE
           | Some n \<Rightarrow> if unat len \<noteq> n - sizeof_MessageHeader then fail INVALID_MESSAGE_SIZE else None)"

text \<open>
  The sanitisers change the message in place and may throw: the result is the exception, or the
  error returned together with the message as it is left.
\<close>

definition string_bytes :: "string \<Rightarrow> byte list" where "string_bytes s = map of_char s"

definition sanitize_new_order ::
  "new_order_message \<Rightarrow> buffer_error + std_error option \<times> new_order_message" where
  "sanitize_new_order m =
     (if no_order_id m = 0 then Inr (fail INVALID_FIELD_VALUE, m)
      else
        let symbol_str = sanitize_symbol (bytes_string (bs_c_str (no_symbol m)))
        in if symbol_str = [] \<or> 7 < length symbol_str then Inr (fail INVALID_FIELD_FORMAT, m)
           else case bs_assign 8 (Some (string_bytes symbol_str)) (no_symbol m) of
                  Inl e \<Rightarrow> Inl e
                | Inr s \<Rightarrow>
                    let m1 = m\<lparr>no_symbol := s\<rparr>
                    in if no_side m1 \<noteq> 1 \<and> no_side m1 \<noteq> 2 then Inr (fail INVALID_FIELD_VALUE, m1)
                       else if no_quantity m1 = 0 \<or> 1000000 < no_quantity m1 then Inr (fail INVALID_FIELD_RANGE, m1)
                       else if no_order_type m1 = 2 \<and> no_price m1 = 0 then Inr (fail INVALID_FIELD_VALUE, m1)
                       else if no_order_type m1 \<noteq> 1 \<and> no_order_type m1 \<noteq> 2 then Inr (fail INVALID_FIELD_VALUE, m1)
                       else Inr (None, m1))"

definition sanitize_cancel_order ::
  "cancel_order_message \<Rightarrow> buffer_error + std_error option \<times> cancel_order_message" where
  "sanitize_cancel_order m =
     (if co_order_id m = 0 then Inr (fail INVALID_FIELD_VALUE, m)
      else
        let symbol_str = sanitize_symbol (bytes_string (bs_c_str (co_symbol m)))
        in if symbol_str = [] then Inr (fail INVALID_FIELD_FORMAT, m)
           else case bs_assign 8 (Some (string_bytes symbol_str)) (co_symbol m) of
                  Inl e \<Rightarrow> Inl e
                | Inr s \<Rightarrow> Inr (None, m\<lparr>co_symbol := s\<rparr>))"

definition sanitize_order_ack ::
  "order_ack_message \<Rightarrow> buffer_error + std_error option \<times> order_ack_message" where
  "sanitize_order_ack m =
     (if oa_order_id m = 0 then Inr (fail INVALID_FIELD_VALUE, m)
      else if oa_status m = 0 \<or> 2 < oa_status m then Inr (fail INVALID_FIELD_VALUE, m)
      else
        let reason_str = sanitize_network_input (bytes_string (bs_c_str (oa_reason m)))
        in case bs_assign 32 (Some (string_bytes reason_str)) (oa_reason m) of
             Inl e \<Rightarrow> Inl e
           | Inr s \<Rightarrow> Inr (None, m\<lparr>oa_reason := s\<rparr>))"

section \<open>FieldValidators: rules\<close>

record validation_rule =
  vr_validator :: "string \<Rightarrow> bool"
  vr_error_message :: string

definition range_validator :: "(string \<Rightarrow> rat option) \<Rightarrow> (rat \<Rightarrow> string) \<Rightarrow> rat \<Rightarrow> rat \<Rightarrow> validation_rule" where
  "range_validator stod show_double lo hi =
     \<lparr>vr_validator = (\<lambda>value. case stod value of None \<Rightarrow> False | Some val \<Rightarrow> lo \<le> val \<and> val \<le> hi),
      vr_error_message = ''Value must be between '' @ show_double lo @ '' and '' @ show_double hi\<rparr>"

definition positive_validator :: "(string \<Rightarrow> rat option) \<Rightarrow> validation_rule" where
  "positive_validator stod =
     \<lparr>vr_validator = (\<lambda>value. case stod value of None \<Rightarrow> False | Some val \<Rightarrow> 0 < val),
      vr_error_message = ''Value must be positive''\<rparr>"

definition length_validator :: "nat \<Rightarrow> nat \<Rightarrow> validation_rule" where
  "length_validator min_len max_len =
     \<lparr>vr_validator = (\<lambda>value. min_len \<le> length value \<and> length value \<le> max_len),
      vr_error_message = ''Length must be between '' @ decimal min_len @ '' and '' @ decimal max_len\<rparr>"

definition symbol_validator :: validation_rule where
  "symbol_validator =
     \<lparr>vr_validator = (\<lambda>value. if value = [] \<or> 8 < length value then False
                            else list_all (\<lambda>c. is_alnum c \<and> is_upper c) value),
      vr_error_message = ''Symbol must be 1-8 uppercase alphanumeric characters''\<rparr>"

definition alphanumeric_validator :: validation_rule where
  "alphanumeric_validator =
     \<lparr>vr_validator = (\<lambda>value. value \<noteq> [] \<and> list_all is_alnum value),
      vr_error_message = ''Value must be alphanumeric''\<rparr>"

definition validate_port_range :: "u16 \<Rightarrow> bool" where
  "validate_port_range port \<longleftrightarrow> 1024 \<le> port \<and> port \<le> 65535"

definition validate_percentage :: "rat \<Rightarrow> bool" where
  "validate_percentage value \<longleftrightarrow> 0 \<le> value \<and> value \<le> 100"

definition validate_price_quantity_relationship :: "Price \<Rightarrow> Quantity \<Rightarrow> bool" where
  "validate_price_quantity_relationship price quantity \<longleftrightarrow> 0 < quantity"

section \<open>ConfigurationValidator\<close>

definition validate_config_schema :: "config \<Rightarrow> std_error option" where
  "validate_config_schema c =
     (if xc_name (cf_exchange c) = [] then fail MISSING_REQUIRED_FIELD
      else if cf_symbols c = [] then fail MISSING_REQUIRED_FIELD
      else None)"

definition validate_exchange_config :: "exchange_config \<Rightarrow> std_error option" where
  "validate_exchange_config c =
     (if \<not> validate_port_range (xc_tcp_port c) \<or> \<not> validate_port_range (xc_udp_port c) \<or>
         \<not> validate_port_range (xc_metrics_port c)
      then fail INVALID_FIELD_RANGE
      else if xc_udp_multicast_group c = [] \<or> CHR ''.'' \<notin> set (xc_udp_multicast_group c)
      then fail INVALID_FIELD_FORMAT
      else None)"

definition validate_risk_config :: "risk_config \<Rightarrow> std_error option" where
  "validate_risk_config c =
     (if rc_max_order_size c = 0 \<or> 10000000 < rc_max_order_size c then fail INVALID_FIELD_RANGE
      else if rc_max_notional_per_client c \<le> 0 then fail INVALID_FIELD_VALUE
      else if rc_max_orders_per_second c = 0 \<or> 100000 < rc_max_orders_per_second c then fail INVALID_FIELD_RANGE
      else None)"

definition validate_performance_config :: "performance_config \<Rightarrow> std_error option" where
  "validate_performance_config c =
     (if pc_order_pool_size c = 0 \<or> 10000000 < pc_order_pool_size c then fail INVALID_FIELD_RANGE
      else if pc_queue_capacity c = 0 \<or> 1000000 < pc_queue_capacity c then fail INVALID_FIELD_RANGE
      else None)"

fun validate_symbols_from :: "byte list set \<Rightarrow> symbol_config list \<Rightarrow> std_error option" where
  "validate_symbols_from seen [] = None"
| "validate_symbols_from seen (s # ss) =
     (if sc_symbol s = [] \<or> 8 < length (sc_symbol s) then fail INVALID_FIELD_FORMAT
      else if sc_symbol s \<in> seen then fail INVALID_CONFIGURATION
      else if sc_tick_size s \<le> 0 \<or> sc_lot_size s = 0 then fail INVALID_FIELD_VALUE
      else if \<not> validate_percentage (sc_price_collar_pct s) then fail INVALID_FIELD_RANGE
      else validate_symbols_from (insert (sc_symbol s) seen) ss)"

definition validate_symbol_configs :: "symbol_config list \<Rightarrow> std_error option" where
  "validate_symbol_configs ss = validate_symbols_from {} ss"

definition or_then :: "std_error option \<Rightarrow> std_error option \<Rightarrow> std_error option" where
  "or_then r next = (case r of Some e \<Rightarrow> Some e | None \<Rightarrow> next)"

definition validate_config_values :: "config \<Rightarrow> std_error option" where
  "validate_config_values c =
     or_then (validate_exchange_config (cf_exchange c))
       (or_then (validate_risk_config (cf_risk c))
         (or_then (validate_performance_config (cf_performance c)) (validate_symbol_configs (cf_symbols c))))"

text \<open>A pool that is small for the rate of orders is only logged.\<close>

definition validate_config_dependencies :: "config \<Rightarrow> std_error option" where
  "validate_config_dependencies c =
     (let x = cf_exchange c
      in if xc_tcp_port x = xc_udp_port x \<or> xc_tcp_port x = xc_metrics_port x \<or> xc_udp_port x = xc_metrics_port x
         then fail INVALID_CONFIGURATION else None)"

definition validate_full_config :: "config \<Rightarrow> std_error option" where
  "validate_full_config c =
     or_then (validate_config_schema c) (or_then (validate_config_values c) (validate_config_dependencies c))"

section \<open>ValidationChain\<close>

text \<open>\<open>iter\<close> is the order in which the hash table enumerates the fields that have rules.\<close>

record validation_chain =
  vc_rules :: "(string \<times> validation_rule list) list"
  vc_custom :: "(unit \<Rightarrow> std_error option) list"

definition vc_new :: validation_chain where "vc_new = \<lparr>vc_rules = [], vc_custom = []\<rparr>"

definition vc_add_rule :: "string \<Rightarrow> validation_rule \<Rightarrow> validation_chain \<Rightarrow> validation_chain" where
  "vc_add_rule field_name rule c =
     c\<lparr>vc_rules := AList.update field_name
        ((case map_of (vc_rules c) field_name of None \<Rightarrow> [] | Some rs \<Rightarrow> rs) @ [rule]) (vc_rules c)\<rparr>"

definition vc_add_custom_validator :: "(unit \<Rightarrow> std_error option) \<Rightarrow> validation_chain \<Rightarrow> validation_chain" where
  "vc_add_custom_validator v c = c\<lparr>vc_custom := vc_custom c @ [v]\<rparr>"

definition vc_clear :: "validation_chain \<Rightarrow> validation_chain" where
  "vc_clear c = c\<lparr>vc_rules := [], vc_custom := []\<rparr>"

fun check_fields :: "(string \<times> string) list \<Rightarrow> (string \<times> validation_rule list) list \<Rightarrow> std_error option" where
  "check_fields given [] = None"
| "check_fields given ((field_name, field_rules) # rest) =
     (case map_of given field_name of
        None \<Rightarrow> fail MISSING_REQUIRED_FIELD
      | Some value \<Rightarrow>
          if list_all (\<lambda>r. vr_validator r value) field_rules then check_fields given rest
          else fail INVALID_FIELD_VALUE)"

fun check_custom :: "(unit \<Rightarrow> std_error option) list \<Rightarrow> std_error option" where
  "check_custom [] = None"
| "check_custom (v # vs) = or_then (v ()) (check_custom vs)"

definition vc_validate ::
  "((string \<times> validation_rule list) list \<Rightarrow> (string \<times> validation_rule list) list) \<Rightarrow>
   (string \<times> string) list \<Rightarrow> validation_chain \<Rightarrow> std_error option" where
  "vc_validate iter given c = or_then (check_fields given (iter (vc_rules c))) (check_custom (vc_custom c))"

definition vc_validate_early_reject ::
  "((string \<times> validation_rule list) list \<Rightarrow> (string \<times> validation_rule list) list) \<Rightarrow>
   validation_chain \<Rightarrow> std_error option" where
  "vc_validate_early_reject iter c = vc_validate iter [] c"

section \<open>Messages\<close>

lemmas message_sizes = sizeof_MessageHeader_def sizeof_NewOrderMessage_def sizeof_CancelOrderMessage_def
  sizeof_OrderAckMessage_def sizeof_TradeMessage_def sizeof_HeartbeatMessage_def
lemmas message_types = MT_NEW_ORDER_def MT_CANCEL_ORDER_def MT_ORDER_ACK_def MT_TRADE_REPORT_def MT_HEARTBEAT_def

lemma unat_eq_numeral: "unat (w :: 'a::len word) = n \<Longrightarrow> w = of_nat n"
  by auto

text \<open>
  A header passes exactly when it is one of the five kinds of message with the size of
  that kind and its sequence number is not zero, and then the payload of the remaining length
  passes too.
\<close>

theorem header_validation_is_exact:
  "(validate_message_header h = None \<longleftrightarrow>
      (mh_type h, mh_length h) \<in> {(1, 110), (2, 92), (101, 77), (102, 92), (200, 36)} \<and> mh_sequence h \<noteq> 0) \<and>
   (validate_message_header h = None \<longrightarrow>
      validate_message_payload False (of_nat (unat (mh_length h) - sizeof_MessageHeader)) (mh_type h) = None)"
proof -
  have "validate_message_header h = None \<longleftrightarrow>
      (mh_type h, mh_length h) \<in> {(1, 110), (2, 92), (101, 77), (102, 92), (200, 36)} \<and> mh_sequence h \<noteq> 0"
    by (auto simp: validate_message_header_def is_valid_message_type_def is_valid_message_size_def expected_size_def
      message_types message_sizes MIN_MESSAGE_SIZE_def VALID_MAX_MESSAGE_SIZE_def dest!: unat_eq_numeral split: if_splits)
  then show ?thesis
    by (auto simp: validate_message_payload_def expected_size_def message_types message_sizes)
qed

theorem header_validation_is_exact_witness:
  "validate_message_header \<lparr>mh_type = 1, mh_length = 110, mh_sequence = 7, mh_timestamp = 0, mh_checksum = 0\<rparr> = None \<and>
   validate_message_payload False 82 1 = None"
  using header_validation_is_exact [of "\<lparr>mh_type = 1, mh_length = 110, mh_sequence = 7, mh_timestamp = 0, mh_checksum = 0\<rparr>"]
  by (simp add: sizeof_MessageHeader_def)

lemma unat_of_char: "unat (of_char c :: byte) = code c"
  using code_less [of c] unat_of_nat [of "code c", where 'a = 8] by (simp add: of_nat_of_char)

lemma bytes_string_string_bytes [simp]: "bytes_string (string_bytes s) = s"
  by (simp add: bytes_string_def string_bytes_def comp_def unat_of_char)

text \<open>Assigning a short text without zeros to a bounded string.\<close>

lemma string_bytes_simps [simp]: "length (string_bytes s) = length s" "string_bytes s = [] \<longleftrightarrow> s = []"
  by (simp_all add: string_bytes_def)

lemma string_bytes_no_zero: "\<forall>c\<in>set s. code c \<noteq> 0 \<Longrightarrow> 0 \<notin> set (string_bytes s)"
proof -
  have "of_char c = (0 :: byte) \<Longrightarrow> code c = 0" for c
    using unat_of_char [of c] by simp
  then show "\<forall>c\<in>set s. code c \<noteq> 0 \<Longrightarrow> 0 \<notin> set (string_bytes s)" by (auto simp: string_bytes_def)
qed

lemma assign_text:
  assumes "\<forall>c\<in>set t. code c \<noteq> 0" "length (bs_data s) = unat N" "length t < 2 ^ 64"
  shows "if length t < unat N
     then \<exists>s'. bs_assign N (Some (string_bytes t)) s = Inr s' \<and> bs_c_str s' = string_bytes t \<and>
            length (bs_data s') = unat N \<and> bs_length s' = of_nat (length t)
     else bs_assign N (Some (string_bytes t)) s = Inl (String_too_long (of_nat (length t)))"
proof -
  let ?b = "string_bytes t" and ?n = "of_nat (length t) :: u64"
  have b: "cstr ?b = ?b" "0 \<notin> set ?b" using string_bytes_no_zero [OF assms(1)] by (simp_all add: cstr_id)
  have n: "unat ?n = length t" using assms(3) by (simp add: unat_of_nat)
  show ?thesis
  proof (cases "length t < unat N")
    case True
    then have "bs_assign N (Some ?b) s = Inr \<lparr>bs_data = (?b @ drop (length t) (bs_data s))[length t := 0], bs_length = ?n\<rparr>"
      using assms(2) n by (simp add: bs_assign_def b(1) bs_assign_view_def bs_put_def memcpy_into_def word_le_nat_alt)
    moreover have "cstr ((?b @ drop (length t) (bs_data s))[length t := 0]) = ?b"
    proof -
      obtain d ds where "drop (length t) (bs_data s) = d # ds" using True assms(2) by (cases "drop (length t) (bs_data s)") auto
      then have "(?b @ drop (length t) (bs_data s))[length t := 0] = ?b @ 0 # ds" by (simp add: list_update_append)
      then show ?thesis using b by (simp add: cstr_append_zero)
    qed
    ultimately show ?thesis using True assms(2) by (auto simp: bs_c_str_def)
  next
    case False
    then show ?thesis using n by (simp add: bs_assign_def b(1) bs_assign_view_def word_le_nat_alt)
  qed
qed

lemma symbol_code_nonzero: "\<forall>c\<in>set (sanitize_symbol s). code c \<noteq> 0"
  using sanitize_symbol_chars by (fastforce simp: char_classes)

text \<open>The text of the symbol of an order.\<close>

abbreviation symbol_text :: "bounded_string \<Rightarrow> string" where "symbol_text s \<equiv> bytes_string (bs_c_str s)"

definition order_fields_ok :: "new_order_message \<Rightarrow> bool" where
  "order_fields_ok m \<longleftrightarrow>
     no_order_id m \<noteq> 0 \<and> no_side m \<in> {1, 2} \<and> no_quantity m \<in> {1..1000000} \<and> no_order_type m \<in> {1, 2} \<and>
     (no_order_type m = 2 \<longrightarrow> no_price m \<noteq> 0)"

lemma sanitize_new_order_cases:
  assumes "length (bs_data (no_symbol m)) = 8"
  shows "\<exists>e m'. sanitize_new_order m = Inr (e, m') \<and>
    (e = None \<longleftrightarrow> order_fields_ok m \<and> length (sanitize_symbol (symbol_text (no_symbol m))) \<in> {1..7}) \<and>
    (e = None \<longrightarrow> (\<exists>s. m' = m\<lparr>no_symbol := s\<rparr> \<and> symbol_text s = sanitize_symbol (symbol_text (no_symbol m)) \<and>
       length (bs_data s) = 8))"
proof -
  let ?t = "sanitize_symbol (symbol_text (no_symbol m))"
  have pos: "no_quantity m \<in> {1..1000000} \<longleftrightarrow> \<not> (no_quantity m = 0 \<or> 1000000 < no_quantity m)"
    by (auto simp: word_le_nat_alt word_less_nat_alt unat_eq_0 unat_gt_0 Suc_le_eq)
  show ?thesis
  proof (cases "no_order_id m \<noteq> 0 \<and> ?t \<noteq> [] \<and> length ?t \<le> 7")
    case True
    then obtain s where s: "bs_assign 8 (Some (string_bytes ?t)) (no_symbol m) = Inr s" "bs_c_str s = string_bytes ?t"
      "length (bs_data s) = 8"
      using assign_text [OF symbol_code_nonzero, of "no_symbol m" 8 "symbol_text (no_symbol m)"] assms by auto
    then have "\<exists>sa. m\<lparr>no_symbol := s\<rparr> = m\<lparr>no_symbol := sa\<rparr> \<and> symbol_text sa = ?t \<and> length (bs_data sa) = 8"
      by (intro exI [of _ s]) simp
    with True pos s show ?thesis by (simp add: sanitize_new_order_def Let_def order_fields_ok_def Suc_le_eq)
  next
    case False
    then have "sanitize_new_order m = Inr (fail (if no_order_id m = 0 then INVALID_FIELD_VALUE else INVALID_FIELD_FORMAT), m)"
      by (auto simp: sanitize_new_order_def Let_def)
    with False show ?thesis by (auto simp: order_fields_ok_def Suc_le_eq)
  qed
qed


definition ex_raw_symbol :: bounded_string where
  "ex_raw_symbol = \<lparr>bs_data = [97, 97, 112, 108, 33, 0, 0, 0], bs_length = 5\<rparr>"

definition ex_raw_order :: new_order_message where
  "ex_raw_order = \<lparr>no_header = make_header 1 110 1 0, no_order_id = 1, no_client_id = bs_default 32,
     no_symbol = ex_raw_symbol, no_side = 1, no_quantity = 10, no_price = 5, no_order_type = 2\<rparr>"


text \<open>
  The sanitiser of a cancel has no such limit: eight letters or digits, which only a symbol
  without its terminator can hold, make it throw.
\<close>

lemma sanitize_cancel_order_throws:
  assumes "length (bs_data (co_symbol m)) = 8"
  shows "(\<exists>e. sanitize_cancel_order m = Inl e) \<longleftrightarrow>
     co_order_id m \<noteq> 0 \<and> length (sanitize_symbol (symbol_text (co_symbol m))) = 8"
proof -
  let ?t = "sanitize_symbol (symbol_text (co_symbol m))"
  have "length ?t \<le> 8" using sanitize_symbol_length [of "symbol_text (co_symbol m)"] by simp
  then show ?thesis
    using assign_text [OF symbol_code_nonzero, of "co_symbol m" 8 "symbol_text (co_symbol m)"] assms
    by (auto simp: sanitize_cancel_order_def Let_def split: if_splits)
qed

lemma sanitized_code_nonzero: "\<forall>c\<in>set (sanitize_network_input s). code c \<noteq> 0"
  using network_input_ascii [of s] by (auto simp: list_all_iff)

text \<open>Escaping can make the reason of an acknowledgement longer than its field: then it throws.\<close>

lemma sanitize_order_ack_throws:
  assumes "length (bs_data (oa_reason m)) = 32" "length (sanitize_network_input (symbol_text (oa_reason m))) < 2 ^ 64"
  shows "(\<exists>e. sanitize_order_ack m = Inl e) \<longleftrightarrow>
     oa_order_id m \<noteq> 0 \<and> oa_status m \<in> {1, 2} \<and> 32 \<le> length (sanitize_network_input (symbol_text (oa_reason m)))"
proof -
  have "oa_status m \<in> {1, 2} \<longleftrightarrow> \<not> (oa_status m = 0 \<or> 2 < oa_status m)"
  proof -
    have "unat (oa_status m) \<in> {1, 2} \<longleftrightarrow> \<not> (unat (oa_status m) = 0 \<or> 2 < unat (oa_status m))" by auto
    then show ?thesis by (auto simp: word_less_nat_alt unat_eq_0 dest: unat_eq_numeral)
  qed
  then show ?thesis
    using assign_text [OF sanitized_code_nonzero _ assms(2), of "oa_reason m" 32] assms(1)
    by (auto simp: sanitize_order_ack_def Let_def split: if_splits)
qed

section \<open>Configurations\<close>

lemma or_then_None [simp]: "or_then a b = None \<longleftrightarrow> a = None \<and> b = None"
  by (cases a) (simp_all add: or_then_def)

definition symbol_config_ok :: "symbol_config \<Rightarrow> bool" where
  "symbol_config_ok s \<longleftrightarrow>
     length (sc_symbol s) \<in> {1..8} \<and> 0 < sc_tick_size s \<and> sc_lot_size s \<noteq> 0 \<and> 0 \<le> sc_price_collar_pct s \<and>
     sc_price_collar_pct s \<le> 100"

lemma validate_symbols_from_iff:
  "validate_symbols_from seen ss = None \<longleftrightarrow>
     list_all symbol_config_ok ss \<and> distinct (map sc_symbol ss) \<and> sc_symbol ` set ss \<inter> seen = {}"
proof (induction ss arbitrary: seen)
  case (Cons s ss)
  have "length (sc_symbol s) \<in> {1..8} \<longleftrightarrow> \<not> (sc_symbol s = [] \<or> 8 < length (sc_symbol s))" by (auto simp: Suc_le_eq)
  with Cons.IH show ?case by (auto simp: symbol_config_ok_def validate_percentage_def not_le)
qed simp

definition config_ok :: "config \<Rightarrow> bool" where
  "config_ok c \<longleftrightarrow>
     (let x = cf_exchange c; ports = [xc_tcp_port x, xc_udp_port x, xc_metrics_port x]; r = cf_risk c; p = cf_performance c
      in xc_name x \<noteq> [] \<and> distinct ports \<and> list_all (\<lambda>n. 1024 \<le> n) ports \<and> CHR ''.'' \<in> set (xc_udp_multicast_group x) \<and>
         rc_max_order_size r \<in> {1..10000000} \<and> 0 < rc_max_notional_per_client r \<and>
         rc_max_orders_per_second r \<in> {1..100000} \<and> pc_order_pool_size p \<in> {1..10000000} \<and>
         pc_queue_capacity p \<in> {1..1000000} \<and>
         cf_symbols c \<noteq> [] \<and> list_all symbol_config_ok (cf_symbols c) \<and> distinct (map sc_symbol (cf_symbols c)))"

lemma word_range: "w \<in> {1..n} \<longleftrightarrow> \<not> (w = 0 \<or> n < w)" for w :: "'a::len word"
  by (auto simp: word_le_nat_alt word_less_nat_alt unat_gt_0 Suc_le_eq)

lemma port_max: "(p :: u16) \<le> 65535"
proof -
  have "unat p \<le> 65535" using unsigned_less [of p, where 'a = nat] by simp
  then show ?thesis by (simp add: word_le_nat_alt)
qed

lemma config_accepted: "validate_full_config c = None \<longleftrightarrow> config_ok c"
proof -
  have E: "validate_exchange_config x = None \<longleftrightarrow>
      list_all (\<lambda>n. 1024 \<le> n) [xc_tcp_port x, xc_udp_port x, xc_metrics_port x] \<and> CHR ''.'' \<in> set (xc_udp_multicast_group x)" for x
    by (auto simp: validate_exchange_config_def validate_port_range_def port_max)
  have R: "validate_risk_config r = None \<longleftrightarrow> rc_max_order_size r \<in> {1..10000000} \<and>
      0 < rc_max_notional_per_client r \<and> rc_max_orders_per_second r \<in> {1..100000}" for r
    unfolding word_range by (auto simp: validate_risk_config_def)
  have P: "validate_performance_config p = None \<longleftrightarrow>
      pc_order_pool_size p \<in> {1..10000000} \<and> pc_queue_capacity p \<in> {1..1000000}" for p
    unfolding word_range by (auto simp: validate_performance_config_def)
  have S: "validate_symbol_configs ss = None \<longleftrightarrow> list_all symbol_config_ok ss \<and> distinct (map sc_symbol ss)" for ss
    by (simp add: validate_symbol_configs_def validate_symbols_from_iff)
  have C: "validate_config_schema c = None \<longleftrightarrow> xc_name (cf_exchange c) \<noteq> [] \<and> cf_symbols c \<noteq> []"
    by (simp add: validate_config_schema_def)
  have D: "validate_config_dependencies c = None \<longleftrightarrow>
      distinct [xc_tcp_port (cf_exchange c), xc_udp_port (cf_exchange c), xc_metrics_port (cf_exchange c)]"
    by (auto simp: validate_config_dependencies_def Let_def)
  show ?thesis
    unfolding validate_full_config_def validate_config_values_def or_then_None config_ok_def Let_def E R P S C D by blast
qed

text \<open>
  The validation of a configuration accepts exactly the configurations with a name,
  three different unprivileged ports, a dotted multicast group, every limit, pool and queue size
  in its range, and at least one symbol, all symbols different and well-formed.
\<close>

theorem config_validation_is_exact: "validate_full_config c = None \<longleftrightarrow> config_ok c"
  by (rule config_accepted)

section \<open>Chains\<close>

lemma check_fields_iff:
  "check_fields given rules = None \<longleftrightarrow>
     (\<forall>(f, rs)\<in>set rules. \<exists>v. map_of given f = Some v \<and> list_all (\<lambda>r. vr_validator r v) rs)"
  by (induction given rules rule: check_fields.induct) (auto split: option.splits)

lemma check_custom_iff: "check_custom vs = None \<longleftrightarrow> (\<forall>v\<in>set vs. v () = None)"
  by (induction vs) auto

text \<open>A chain accepts whatever the order of its fields: exactly when every rule and every validator does.\<close>

lemma vc_validate_iff:
  assumes "set (iter (vc_rules c)) = set (vc_rules c)"
  shows "vc_validate iter given c = None \<longleftrightarrow>
     (\<forall>(f, rs)\<in>set (vc_rules c). \<exists>v. map_of given f = Some v \<and> list_all (\<lambda>r. vr_validator r v) rs) \<and>
     (\<forall>v\<in>set (vc_custom c). v () = None)"
  by (simp add: vc_validate_def check_fields_iff check_custom_iff assms)

text \<open>The early rejection looks at no field, so every chain with a rule rejects.\<close>

lemma vc_early_reject_rejects:
  assumes "set (iter (vc_rules c)) = set (vc_rules c)" "vc_rules c \<noteq> []"
  shows "vc_validate_early_reject iter c = fail MISSING_REQUIRED_FIELD"
proof -
  obtain f rs rest where "iter (vc_rules c) = (f, rs) # rest"
    using assms by (cases "iter (vc_rules c)") auto
  then show ?thesis by (simp add: vc_validate_early_reject_def vc_validate_def or_then_def)
qed

end
