(* ===== verification/RTES_Security.thy ===== *)
theory RTES_Security
  imports RTES_Text
begin

text \<open>
  Who may do what (\<^verbatim>\<open>include/rtes/security_utils.hpp\<close>, \<^verbatim>\<open>src/security_utils.cpp\<close>,
  \<^verbatim>\<open>include/rtes/auth_middleware.hpp\<close>, \<^verbatim>\<open>src/auth_middleware.cpp\<close>): the roles and their
  operations, the mock authentication, the middleware that stands before a handler, and the
  check of file paths. The environment, the clock and the file system are arguments.
\<close>

section \<open>Roles\<close>

datatype user_role = ADMIN | TRADER | VIEWER | SYSTEM

record auth_context =
  ac_user_id :: string
  ac_role :: user_role
  ac_permissions :: "string list"
  ac_authenticated :: bool

text \<open>The declaration \<open>AuthContext ctx;\<close> leaves the role as it finds the memory: \<open>junk\<close>.\<close>

definition auth_context_default :: "user_role \<Rightarrow> auth_context" where
  "auth_context_default junk = \<lparr>ac_user_id = [], ac_role = junk, ac_permissions = [], ac_authenticated = False\<rparr>"

definition check_permission :: "auth_context \<Rightarrow> string \<Rightarrow> bool" where
  "check_permission ctx permission =
     (if \<not> ac_authenticated ctx then False
      else if ac_role ctx = ADMIN then True
      else permission \<in> set (ac_permissions ctx))"

definition ADMIN_OPS :: "string list" where
  "ADMIN_OPS = [''shutdown'', ''config_reload'', ''user_management'']"

definition TRADER_OPS :: "string list" where
  "TRADER_OPS = [''place_order'', ''cancel_order'', ''view_positions'']"

definition is_authorized_for_operation :: "auth_context \<Rightarrow> string \<Rightarrow> bool" where
  "is_authorized_for_operation ctx operation =
     (if \<not> ac_authenticated ctx then False
      else if operation \<in> set ADMIN_OPS then ac_role ctx = ADMIN
      else if operation \<in> set TRADER_OPS then ac_role ctx = ADMIN \<or> ac_role ctx = TRADER
      else ac_role ctx \<noteq> VIEWER)"

section \<open>Authentication\<close>

definition starts_with :: "string \<Rightarrow> string \<Rightarrow> bool" where
  "starts_with s p \<longleftrightarrow> take (length p) s = p"

definition substr :: "nat \<Rightarrow> nat \<Rightarrow> string \<Rightarrow> string" where
  "substr pos n s = take n (drop pos s)"

text \<open>\<open>auth_mode\<close> is the environment variable \<^verbatim>\<open>RTES_AUTH_MODE\<close>, None when it is not set.\<close>

definition authenticate_user :: "string option \<Rightarrow> user_role \<Rightarrow> string \<Rightarrow> auth_context" where
  "authenticate_user auth_mode junk token =
     (let ctx = auth_context_default junk
      in if token = [] \<or> length token < 32 \<or> 512 < length token then ctx
         else if \<not> is_safe_string token then ctx
         else if auth_mode \<noteq> Some ''development'' then ctx
         else if starts_with token ''dev_admin_''
         then ctx\<lparr>ac_user_id := substr 10 16 token, ac_role := ADMIN, ac_authenticated := True,
                 ac_permissions := [''all'']\<rparr>
         else if starts_with token ''dev_trader_''
         then ctx\<lparr>ac_user_id := substr 11 16 token, ac_role := TRADER, ac_authenticated := True,
                 ac_permissions := [''place_order'', ''cancel_order'', ''view_positions'']\<rparr>
         else ctx)"

definition validate_session :: "string option \<Rightarrow> user_role \<Rightarrow> string \<Rightarrow> auth_context" where
  "validate_session auth_mode junk token =
     (if \<not> is_safe_string token then \<lparr>ac_user_id = [], ac_role = ADMIN, ac_permissions = [], ac_authenticated = False\<rparr>
      else authenticate_user auth_mode junk token)"

definition is_operation_allowed :: "auth_context \<Rightarrow> string \<Rightarrow> bool" where
  "is_operation_allowed ctx operation = is_authorized_for_operation ctx operation"

record auth_guard =
  ag_context :: auth_context
  ag_authorized :: bool

definition auth_guard_new :: "string option \<Rightarrow> user_role \<Rightarrow> string \<Rightarrow> string \<Rightarrow> auth_guard" where
  "auth_guard_new auth_mode junk token operation =
     (let ctx = validate_session auth_mode junk token
      in \<lparr>ag_context = ctx,
          ag_authorized = (if ac_authenticated ctx then is_operation_allowed ctx operation else False)\<rparr>)"

section \<open>The middleware\<close>

text \<open>
  The state is the map from users to the time of their last admitted request, in nanoseconds of
  the steady clock. A handler works on the outside \<open>'w\<close>; None is an exception it throws.
\<close>

type_synonym rate_limits = "(string \<times> int) list"
type_synonym 'w handler = "auth_context \<Rightarrow> string \<Rightarrow> 'w \<Rightarrow> bool option \<times> 'w"

definition rate_limit_window :: int where "rate_limit_window = 1000 * 1000000"

definition auth_check_rate_limit :: "int \<Rightarrow> string \<Rightarrow> rate_limits \<Rightarrow> bool \<times> rate_limits" where
  "auth_check_rate_limit now user_id limits =
     (case map_of limits user_id of
        None \<Rightarrow> (True, AList.update user_id now limits)
      | Some last_time \<Rightarrow>
          if now - last_time < rate_limit_window then (False, limits)
          else (True, AList.update user_id now limits))"

definition authenticate_and_authorize ::
  "string option \<Rightarrow> user_role \<Rightarrow> int \<Rightarrow> string \<Rightarrow> string \<Rightarrow> string \<Rightarrow> 'w handler \<Rightarrow> rate_limits \<times> 'w \<Rightarrow>
   bool \<times> rate_limits \<times> 'w" where
  "authenticate_and_authorize auth_mode junk now token operation resource handler st =
     (case st of (limits, w) \<Rightarrow>
        if \<not> is_safe_string token then (False, limits, w)
        else
          let ctx = authenticate_user auth_mode junk token
          in if \<not> ac_authenticated ctx then (False, limits, w)
             else
               let (ok, limits1) = auth_check_rate_limit now (ac_user_id ctx) limits
               in if \<not> ok then (False, limits1, w)
                  else if \<not> is_authorized_for_operation ctx operation then (False, limits1, w)
                  else case handler ctx resource w of (r, w1) \<Rightarrow> (r = Some True, limits1, w1))"

section \<open>File paths\<close>

text \<open>The operations of \<^verbatim>\<open>std::filesystem\<close> on paths; None is a filesystem error.\<close>

record file_system =
  fs_weakly_canonical :: "string \<Rightarrow> string option"
  fs_canonical :: "string \<Rightarrow> string option"
  fs_relative :: "string \<Rightarrow> string \<Rightarrow> string option"

definition ALLOWED_CONFIG_DIRS :: "string list" where
  "ALLOWED_CONFIG_DIRS = [''/etc/rtes'', ''./configs'', ''../configs'',
     ''/Users/shivanshu/Low-latency-trading-exchange-simmulator/RTES/configs'']"

definition validate_file_path :: "file_system \<Rightarrow> string \<Rightarrow> string \<Rightarrow> bool" where
  "validate_file_path F path base_dir =
     (case fs_weakly_canonical F path of
        None \<Rightarrow> False
      | Some canonical_file \<Rightarrow>
          case fs_canonical F base_dir of
            None \<Rightarrow> False
          | Some canonical_base \<Rightarrow>
              case fs_relative F canonical_file canonical_base of
                None \<Rightarrow> False
              | Some rel \<Rightarrow>
                  if rel = [] \<or> starts_with rel ''..'' then False
                  else list_ex (starts_with canonical_file) ALLOWED_CONFIG_DIRS)"

definition normalize_path :: "file_system \<Rightarrow> string \<Rightarrow> string" where
  "normalize_path F path = (case fs_weakly_canonical F path of None \<Rightarrow> [] | Some p \<Rightarrow> p)"

section \<open>What a request needs\<close>

text \<open>The role a token stands for, where it stands for one.\<close>

definition token_role :: "string option \<Rightarrow> string \<Rightarrow> (user_role \<times> string) option" where
  "token_role auth_mode token =
     (if 32 \<le> length token \<and> length token \<le> 512 \<and> is_safe_string token \<and> auth_mode = Some ''development''
      then if starts_with token ''dev_admin_'' then Some (ADMIN, substr 10 16 token)
           else if starts_with token ''dev_trader_'' then Some (TRADER, substr 11 16 token)
           else None
      else None)"

definition role_may :: "user_role \<Rightarrow> string \<Rightarrow> bool" where
  "role_may r operation \<longleftrightarrow> r = ADMIN \<or> operation \<notin> set ADMIN_OPS \<and> (r = TRADER \<or> operation \<notin> set TRADER_OPS \<and> r \<noteq> VIEWER)"

lemma authenticate_user_token:
  "(if ac_authenticated (authenticate_user mode junk token)
    then Some (ac_role (authenticate_user mode junk token), ac_user_id (authenticate_user mode junk token)) else None)
   = token_role mode token"
  by (auto simp: authenticate_user_def token_role_def auth_context_default_def Let_def)

lemma is_authorized_role: "ac_authenticated ctx \<Longrightarrow> is_authorized_for_operation ctx operation = role_may (ac_role ctx) operation"
  by (cases "ac_role ctx") (auto simp: is_authorized_for_operation_def role_may_def ADMIN_OPS_def TRADER_OPS_def)

lemma authenticated_junk:
  "ac_authenticated (authenticate_user mode junk token) \<Longrightarrow> authenticate_user mode junk token = authenticate_user mode junk' token"
  by (auto simp: authenticate_user_def auth_context_default_def Let_def split: if_splits)

lemma rate_limit_cases:
  "auth_check_rate_limit now u limits =
     (if \<exists>t. map_of limits u = Some t \<and> now - t < rate_limit_window then (False, limits)
      else (True, AList.update u now limits))"
  by (auto simp: auth_check_rate_limit_def split: option.splits)

text \<open>
  Claim C28. The handler runs exactly when the token stands for a role, the user was not admitted
  within the last second, and the role may perform the operation; otherwise the answer is no and
  nothing outside changes. The uninitialised role of an unauthenticated context plays no part.
\<close>

theorem handler_runs_only_when_authorized:
  assumes "authenticate_and_authorize mode junk now token operation resource handler (limits, w) = (ok, limits', w')"
  shows "case token_role mode token of
       None \<Rightarrow> \<not> ok \<and> w' = w \<and> limits' = limits
     | Some (r, u) \<Rightarrow>
         if \<exists>t. map_of limits u = Some t \<and> now - t < rate_limit_window then \<not> ok \<and> w' = w \<and> limits' = limits
         else limits' = AList.update u now limits \<and>
           (if role_may r operation
            then (\<exists>ctx. ac_role ctx = r \<and> ac_user_id ctx = u \<and> ac_authenticated ctx \<and>
                    w' = snd (handler ctx resource w) \<and> (ok \<longleftrightarrow> fst (handler ctx resource w) = Some True))
            else \<not> ok \<and> w' = w)"
proof -
  let ?ctx = "authenticate_user mode junk token"
  show ?thesis
  proof (cases "ac_authenticated ?ctx")
    case False
    with authenticate_user_token [of mode junk token] assms show ?thesis
      by (auto simp: authenticate_and_authorize_def Let_def split: if_splits)
  next
    case True
    then have role: "token_role mode token = Some (ac_role ?ctx, ac_user_id ?ctx)"
      using authenticate_user_token [of mode junk token] by simp
    then have "is_safe_string token" by (auto simp: token_role_def split: if_splits)
    with True assms role show ?thesis
      by (auto simp: authenticate_and_authorize_def Let_def rate_limit_cases is_authorized_role split: if_splits prod.splits)
  qed
qed

text \<open>A token of a trader, and a handler that counts its calls.\<close>

definition trader_token :: string where "trader_token = ''dev_trader_alice_0123456789abcdef0123''"

definition count_calls :: "nat handler" where "count_calls ctx resource n = (Some True, Suc n)"

lemma trader_token_role: "token_role (Some ''development'') trader_token = Some (TRADER, ''alice_0123456789'')"
  by code_simp

theorem handler_runs_only_when_authorized_witness:
  "\<exists>ok limits w. authenticate_and_authorize (Some ''development'') ADMIN 5 trader_token ''shutdown'' ''x'' count_calls ([], 0) =
      (ok, limits, w) \<and> \<not> ok \<and> w = 0 \<and> limits = [(''alice_0123456789'', 5)]"
proof -
  obtain ok limits w where run:
    "authenticate_and_authorize (Some ''development'') ADMIN 5 trader_token ''shutdown'' ''x'' count_calls ([], 0) = (ok, limits, w)"
    by (metis prod_cases3)
  have "limits = [(''alice_0123456789'', 5)] \<and> \<not> ok \<and> w = 0"
    using handler_runs_only_when_authorized [OF run] by (simp add: trader_token_role role_may_def ADMIN_OPS_def)
  with run show ?thesis by blast
qed

section \<open>The rate of a user\<close>

text \<open>A sequence of requests: time, token, operation, resource.\<close>

fun serve_requests ::
  "string option \<Rightarrow> user_role \<Rightarrow> 'w handler \<Rightarrow> (int \<times> string \<times> string \<times> string) list \<Rightarrow> rate_limits \<times> 'w \<Rightarrow>
   bool list \<times> rate_limits \<times> 'w" where
  "serve_requests mode junk handler [] st = ([], st)"
| "serve_requests mode junk handler ((now, token, operation, resource) # reqs) st =
     (let (ok, st1) = authenticate_and_authorize mode junk now token operation resource handler st;
          (oks, st2) = serve_requests mode junk handler reqs st1
      in (ok # oks, st2))"

lemma served_once:
  assumes "authenticate_and_authorize mode junk now token operation resource handler (limits, w) = (ok, limits', w')"
  shows "ok \<Longrightarrow> \<exists>r u. token_role mode token = Some (r, u) \<and> map_of limits' u = Some now \<and>
           (\<forall>t. map_of limits u = Some t \<longrightarrow> rate_limit_window \<le> now - t)"
    and "map_of limits u = Some t \<Longrightarrow> \<exists>t'. map_of limits' u = Some t' \<and> (t' = t \<or> rate_limit_window \<le> t' - t)"
proof -
  let ?ctx = "authenticate_user mode junk token"
  have role: "token_role mode token = Some (ac_role ?ctx, ac_user_id ?ctx)" if "ac_authenticated ?ctx"
    using authenticate_user_token [of mode junk token] that by simp
  show "ok \<Longrightarrow> \<exists>r u. token_role mode token = Some (r, u) \<and> map_of limits' u = Some now \<and>
           (\<forall>t. map_of limits u = Some t \<longrightarrow> rate_limit_window \<le> now - t)"
    using assms role
    by (auto simp: authenticate_and_authorize_def Let_def rate_limit_cases split: if_splits prod.splits)
  show "map_of limits u = Some t \<Longrightarrow> \<exists>t'. map_of limits' u = Some t' \<and> (t' = t \<or> rate_limit_window \<le> t' - t)"
    using assms
    by (auto simp: authenticate_and_authorize_def Let_def rate_limit_cases not_less split: if_splits prod.splits)
qed

lemma served_later:
  assumes "serve_requests mode junk handler reqs (limits, w) = (oks, st)" "j < length reqs" "oks ! j"
    and "token_role mode (fst (snd (reqs ! j))) = Some (r, u)" "map_of limits u = Some t"
  shows "rate_limit_window \<le> fst (reqs ! j) - t"
  using assms
proof (induction reqs arbitrary: limits w oks j t)
  case (Cons req reqs)
  obtain now token operation resource where req: "req = (now, token, operation, resource)" by (cases req) auto
  obtain ok limits1 w1 where one:
    "authenticate_and_authorize mode junk now token operation resource handler (limits, w) = (ok, limits1, w1)"
    by (metis prod_cases3)
  obtain oks1 where rest: "serve_requests mode junk handler reqs (limits1, w1) = (oks1, st)" "oks = ok # oks1"
    using Cons.prems(1) one by (auto simp: req Let_def split: prod.splits)
  show ?case
  proof (cases j)
    case 0
    with Cons.prems rest(2) served_once(1) [OF one] show ?thesis by (auto simp: req)
  next
    case (Suc i)
    from served_once(2) [OF one Cons.prems(5)] obtain t' where
      t': "map_of limits1 u = Some t'" "t' = t \<or> rate_limit_window \<le> t' - t" by auto
    have "rate_limit_window \<le> fst (reqs ! i) - t'"
      by (rule Cons.IH [OF rest(1)]) (use Cons.prems rest(2) Suc t' in auto)
    with t'(2) show ?thesis by (auto simp: Suc rate_limit_window_def)
  qed
qed simp

text \<open>
  Claim C34. Over any sequence of requests, two that were served for one user are at least one
  second apart, whatever their tokens and operations and whatever came between them.
\<close>

theorem served_requests_keep_the_rate:
  assumes "serve_requests mode junk handler reqs (limits, w) = (oks, st)"
    and "i < j" "j < length reqs" "oks ! i" "oks ! j"
    and "token_role mode (fst (snd (reqs ! i))) = Some (r, u)" "token_role mode (fst (snd (reqs ! j))) = Some (r', u)"
  shows "rate_limit_window \<le> fst (reqs ! j) - fst (reqs ! i)"
  using assms
proof (induction reqs arbitrary: limits w oks i j)
  case (Cons req reqs)
  obtain now token operation resource where req: "req = (now, token, operation, resource)" by (cases req) auto
  obtain ok limits1 w1 where one:
    "authenticate_and_authorize mode junk now token operation resource handler (limits, w) = (ok, limits1, w1)"
    by (metis prod_cases3)
  obtain oks1 where rest: "serve_requests mode junk handler reqs (limits1, w1) = (oks1, st)" "oks = ok # oks1"
    using Cons.prems(1) one by (auto simp: req Let_def split: prod.splits)
  obtain j' where j: "j = Suc j'" using Cons.prems(2) by (cases j) auto
  show ?case
  proof (cases i)
    case 0
    then have "map_of limits1 u = Some now" using served_once(1) [OF one] Cons.prems rest(2) by (auto simp: req)
    from served_later [OF rest(1) _ _ _ this, of j' r'] show ?thesis using Cons.prems rest(2) by (simp add: 0 j req)
  next
    case (Suc i')
    show ?thesis using Cons.IH [OF rest(1), of i' j'] Cons.prems rest(2) by (simp add: Suc j)
  qed
qed simp

theorem served_requests_keep_the_rate_witness:
  "\<exists>oks st. serve_requests (Some ''development'') ADMIN count_calls
      [(0, trader_token, ''place_order'', ''x''), (1000000000, trader_token, ''cancel_order'', ''x'')] ([], 0) = (oks, st) \<and>
    oks = [True, True] \<and> rate_limit_window \<le> 1000000000 - 0"
proof -
  let ?reqs = "[(0, trader_token, ''place_order'', ''x''), (1000000000, trader_token, ''cancel_order'', ''x'')]"
  obtain oks st where run: "serve_requests (Some ''development'') ADMIN count_calls ?reqs ([], 0) = (oks, st)"
    by (metis surj_pair)
  have "fst (serve_requests (Some ''development'') ADMIN count_calls ?reqs ([], 0)) = [True, True]" by code_simp
  then have oks: "oks = [True, True]" unfolding run by simp
  have "rate_limit_window \<le> fst (?reqs ! 1) - fst (?reqs ! 0)"
    by (rule served_requests_keep_the_rate [OF run]) (simp_all add: oks trader_token_role)
  with run oks show ?thesis by auto
qed

end
