(* ===== verification/RTES_Config.thy ===== *)
theory RTES_Config
  imports RTES_Validation RTES_Security RTES_Exchange_Props "HOL-Library.Sublist"
begin

text \<open>
  Loading the configuration (\<^verbatim>\<open>src/config.cpp\<close>): the extraction of single values from the text of
  a JSON file, and \<open>Config::load_from_file\<close> from the path to the validated configuration. The
  file system is an argument, and so is \<open>dbl\<close>, the double nearest to a decimal number (None
  where \<open>strtod\<close> reports a range error). A position is a \<open>size_t\<close>, \<open>npos\<close> its largest value.
\<close>

section \<open>Strings\<close>

datatype parse_error = Substr_out_of_range | Stod_invalid | Stod_out_of_range | Cast_undefined | Validation_failed string

definition npos :: u64 where "npos = -1"

lemma of_nat_u64_code [code_unfold]: "(of_nat n :: u64) = word_of_int (int n)"
  by simp

fun match_offset :: "string \<Rightarrow> string \<Rightarrow> nat option" where
  "match_offset pat [] = (if pat = [] then Some 0 else None)"
| "match_offset pat (c # cs) =
     (if prefix pat (c # cs) then Some 0 else map_option Suc (match_offset pat cs))"

definition str_size :: "string \<Rightarrow> u64" where "str_size s = of_nat (length s)"

definition str_find :: "string \<Rightarrow> string \<Rightarrow> u64 \<Rightarrow> u64" where
  "str_find s pat pos =
     (if str_size s < pos then npos
      else case match_offset pat (drop (unat pos) s) of None \<Rightarrow> npos | Some k \<Rightarrow> pos + of_nat k)"

definition str_substr :: "string \<Rightarrow> u64 \<Rightarrow> u64 \<Rightarrow> parse_error + string" where
  "str_substr s pos n =
     (if str_size s < pos then Inl Substr_out_of_range else Inr (take (unat n) (drop (unat pos) s)))"

text \<open>The position after the characters from \<open>pos\<close> on that satisfy \<open>P\<close>.\<close>

definition skip_while :: "(char \<Rightarrow> bool) \<Rightarrow> string \<Rightarrow> u64 \<Rightarrow> u64" where
  "skip_while P s pos =
     (if str_size s \<le> pos then pos else pos + of_nat (length (takeWhile P (drop (unat pos) s))))"

definition digits_value :: "string \<Rightarrow> int" where
  "digits_value s = foldl (\<lambda>n c. 10 * n + (of_char c - 48)) 0 s"

text \<open>\<open>std::stod\<close> on a text of digits and dots.\<close>

definition stod_digits :: "(rat \<Rightarrow> rat option) \<Rightarrow> string \<Rightarrow> parse_error + rat" where
  "stod_digits dbl s =
     (let ip = takeWhile is_digit s;
          fp = (case drop (length ip) s of [] \<Rightarrow> [] | c # cs \<Rightarrow> if c = CHR ''.'' then takeWhile is_digit cs else [])
      in if ip = [] \<and> fp = [] then Inl Stod_invalid
         else case dbl (of_int (digits_value (ip @ fp)) / 10 ^ length fp) of
                None \<Rightarrow> Inl Stod_out_of_range
              | Some v \<Rightarrow> Inr v)"

text \<open>A conversion to an integer type that cannot hold the value is undefined.\<close>

definition cast_double :: "rat \<Rightarrow> parse_error + 'a::len word" where
  "cast_double x = (if -1 < x \<and> x < 2 ^ LENGTH('a) then Inr (of_int (if x < 0 then 0 else \<lfloor>x\<rfloor>)) else Inl Cast_undefined)"

definition and_then :: "'e + 'a \<Rightarrow> ('a \<Rightarrow> 'e + 'b) \<Rightarrow> 'e + 'b" where
  "and_then r f = (case r of Inl e \<Rightarrow> Inl e | Inr a \<Rightarrow> f a)"

section \<open>JsonParser\<close>

abbreviation quote :: string where "quote \<equiv> [CHR 0x22]"

definition extract_string :: "string \<Rightarrow> string \<Rightarrow> parse_error + string" where
  "extract_string json key =
     (let pos = str_find json (quote @ key @ quote) 0
      in if pos = npos then Inr []
         else let pos = str_find json '':'' pos;
                  pos = str_find json quote pos;
                  fin = str_find json quote (pos + 1)
              in str_substr json (pos + 1) (fin - pos - 1))"

definition extract_number :: "(rat \<Rightarrow> rat option) \<Rightarrow> string \<Rightarrow> string \<Rightarrow> parse_error + rat" where
  "extract_number dbl json key =
     (let pos = str_find json (quote @ key @ quote) 0
      in if pos = npos then Inr 0
         else let pos = str_find json '':'' pos;
                  pos = skip_while (\<lambda>c. c = CHR '':'' \<or> c = CHR '' '') json pos;
                  fin = skip_while (\<lambda>c. is_digit c \<or> c = CHR ''.'') json pos
              in and_then (str_substr json pos (fin - pos)) (stod_digits dbl))"

definition extract_uint16 :: "(rat \<Rightarrow> rat option) \<Rightarrow> string \<Rightarrow> string \<Rightarrow> parse_error + u16" where
  "extract_uint16 dbl json key = and_then (extract_number dbl json key) cast_double"

definition extract_uint32 :: "(rat \<Rightarrow> rat option) \<Rightarrow> string \<Rightarrow> string \<Rightarrow> parse_error + u32" where
  "extract_uint32 dbl json key = and_then (extract_number dbl json key) cast_double"

definition extract_uint64 :: "(rat \<Rightarrow> rat option) \<Rightarrow> string \<Rightarrow> string \<Rightarrow> parse_error + u64" where
  "extract_uint64 dbl json key = and_then (extract_number dbl json key) cast_double"

definition extract_double :: "(rat \<Rightarrow> rat option) \<Rightarrow> string \<Rightarrow> string \<Rightarrow> parse_error + rat" where
  "extract_double dbl json key = extract_number dbl json key"

definition extract_bool :: "string \<Rightarrow> string \<Rightarrow> bool" where
  "extract_bool json key =
     (let pos = str_find json (quote @ key @ quote) 0
      in if pos = npos then False
         else let pos = str_find json '':'' pos
              in str_find json ''true'' pos < str_find json ''false'' pos)"

text \<open>The literal 0.01 is the double next to it.\<close>

definition TICK_0_01 :: rat where "TICK_0_01 = 5764607523034235 / 576460752303423488"

definition listed :: "string \<Rightarrow> symbol_config" where
  "listed s = \<lparr>sc_symbol = string_bytes s, sc_tick_size = TICK_0_01, sc_lot_size = 1, sc_price_collar_pct = 10\<rparr>"

definition parse_exchange :: "(rat \<Rightarrow> rat option) \<Rightarrow> string \<Rightarrow> parse_error + exchange_config" where
  "parse_exchange dbl json =
     and_then (extract_string json ''name'') (\<lambda>nm.
     and_then (extract_uint16 dbl json ''tcp_port'') (\<lambda>tcp.
     and_then (extract_string json ''udp_multicast_group'') (\<lambda>grp.
     and_then (extract_uint16 dbl json ''udp_port'') (\<lambda>udp.
     and_then (extract_uint16 dbl json ''metrics_port'') (\<lambda>met.
     Inr \<lparr>xc_name = nm, xc_tcp_port = tcp, xc_udp_multicast_group = grp, xc_udp_port = udp, xc_metrics_port = met\<rparr>)))))"

definition parse_risk :: "(rat \<Rightarrow> rat option) \<Rightarrow> string \<Rightarrow> parse_error + risk_config" where
  "parse_risk dbl json =
     and_then (extract_uint64 dbl json ''max_order_size'') (\<lambda>mos.
     and_then (extract_double dbl json ''max_notional_per_client'') (\<lambda>mnc.
     and_then (extract_uint32 dbl json ''max_orders_per_second'') (\<lambda>ops.
     Inr \<lparr>rc_max_order_size = mos, rc_max_notional_per_client = mnc, rc_max_orders_per_second = ops,
          rc_price_collar_enabled = extract_bool json ''price_collar_enabled''\<rparr>)))"

text \<open>The size of the market data queue is not read: it stays at its default.\<close>

definition parse_performance :: "(rat \<Rightarrow> rat option) \<Rightarrow> string \<Rightarrow> parse_error + performance_config" where
  "parse_performance dbl json =
     and_then (extract_uint32 dbl json ''order_pool_size'') (\<lambda>pool.
     and_then (extract_uint32 dbl json ''queue_capacity'') (\<lambda>cap.
     and_then (extract_uint32 dbl json ''udp_buffer_size'') (\<lambda>buf.
     Inr \<lparr>pc_order_pool_size = pool, pc_queue_capacity = cap,
          pc_enable_cpu_pinning = extract_bool json ''enable_cpu_pinning'',
          pc_tcp_nodelay = extract_bool json ''tcp_nodelay'', pc_udp_buffer_size = buf,
          pc_market_data_queue_size = 4096\<rparr>)))"

definition json_parse :: "(rat \<Rightarrow> rat option) \<Rightarrow> string \<Rightarrow> parse_error + config" where
  "json_parse dbl json =
     and_then (parse_exchange dbl json) (\<lambda>xc.
     and_then (parse_risk dbl json) (\<lambda>rc.
     and_then (parse_performance dbl json) (\<lambda>pc.
     and_then (extract_string json ''level'') (\<lambda>lvl.
     and_then (extract_uint32 dbl json ''rate_limit_ms'') (\<lambda>rl.
     and_then (extract_uint32 dbl json ''snapshot_interval_ms'') (\<lambda>si.
     and_then (extract_string json ''log_directory'') (\<lambda>dir.
     Inr \<lparr>cf_exchange = xc, cf_symbols = [listed ''AAPL'', listed ''MSFT'', listed ''GOOGL''], cf_risk = rc,
          cf_performance = pc,
          cf_logging = \<lparr>lc_level = lvl, lc_rate_limit_ms = rl, lc_enable_structured = extract_bool json ''enable_structured''\<rparr>,
          cf_persistence = \<lparr>sc_enable_event_log = extract_bool json ''enable_event_log'', sc_snapshot_interval_ms = si,
             sc_log_directory = dir\<rparr>\<rparr>)))))))"

section \<open>Loading\<close>

datatype load_error =
    Invalid_config_path string | Cannot_normalize_path | Cannot_open_config string | Failed_to_parse parse_error

text \<open>\<open>cwd\<close> is the current directory; \<open>content\<close> gives the text of a file that can be opened.\<close>

definition load_from_file ::
  "file_system \<Rightarrow> string \<Rightarrow> (string \<Rightarrow> string option) \<Rightarrow> (rat \<Rightarrow> rat option) \<Rightarrow> string \<Rightarrow> load_error + config" where
  "load_from_file F cwd content dbl path =
     (if \<not> validate_file_path F path cwd then Inl (Invalid_config_path (sanitize_log_input path))
      else
        let normalized_path = normalize_path F path
        in if normalized_path = [] then Inl Cannot_normalize_path
           else case content normalized_path of
                  None \<Rightarrow> Inl (Cannot_open_config (sanitize_log_input normalized_path))
                | Some buffer \<Rightarrow>
                    case json_parse dbl buffer of
                      Inl e \<Rightarrow> Inl (Failed_to_parse e)
                    | Inr c \<Rightarrow>
                        case validate_full_config c of
                          Some e \<Rightarrow> Inl (Failed_to_parse (Validation_failed (validation_message (fst e))))
                        | None \<Rightarrow> Inr c)"

section \<open>Searching\<close>

lemma match_offset_Some: "match_offset pat s = Some k \<Longrightarrow> k \<le> length s \<and> prefix pat (drop k s)"
  by (induction s arbitrary: k) (auto split: if_splits)

lemma match_offset_char: "match_offset [c] s = (if c \<in> set s then Some (length (takeWhile (\<lambda>d. d \<noteq> c) s)) else None)"
  by (induction s) auto

lemma drop_takeWhile: "drop (length (takeWhile P s)) s = dropWhile P s"
  by (simp add: dropWhile_eq_drop)

lemma u64_of_nat_less: "n < 2 ^ 64 \<Longrightarrow> m < 2 ^ 64 \<Longrightarrow> (of_nat n :: u64) < of_nat m \<longleftrightarrow> n < m"
  by (simp add: word_less_nat_alt unat_of_nat)

lemma unat_npos: "unat npos = 2 ^ 64 - 1"
  by (simp add: npos_def unsigned_minus_1_eq_mask mask_eq_exp_minus_1)

lemma u64_of_nat_npos: "n < 2 ^ 64 - 1 \<Longrightarrow> (of_nat n :: u64) \<noteq> npos"
proof
  assume n: "n < 2 ^ 64 - 1" and "(of_nat n :: u64) = npos"
  then have "unat (of_nat n :: u64) = unat npos" by simp
  then show False using n by (simp add: unat_of_nat unat_npos)
qed

lemma str_find_at:
  assumes "length s < 2 ^ 64 - 1" "n \<le> length s"
  shows "str_find s pat (of_nat n) = (case match_offset pat (drop n s) of None \<Rightarrow> npos | Some k \<Rightarrow> of_nat (n + k))"
  using assms by (simp add: str_find_def str_size_def u64_of_nat_less unat_of_nat split: option.split)

lemma str_find_npos: "length s < 2 ^ 64 - 1 \<Longrightarrow> str_find s pat npos = npos"
proof -
  assume l: "length s < 2 ^ 64 - 1"
  have "unat (str_size s) < unat npos" using l by (simp add: unat_npos str_size_def unat_of_nat)
  then have "str_size s < npos" by (simp add: word_less_nat_alt)
  then show ?thesis by (simp add: str_find_def)
qed

lemma skip_while_at:
  assumes "length s < 2 ^ 64 - 1" "n \<le> length s"
  shows "skip_while P s (of_nat n) = of_nat (n + length (takeWhile P (drop n s)))"
proof (cases "n = length s")
  case False
  then have "\<not> str_size s \<le> of_nat n" using assms by (simp add: str_size_def not_le u64_of_nat_less)
  then show ?thesis using assms by (simp add: skip_while_def unat_of_nat)
qed (use assms in \<open>simp add: skip_while_def str_size_def\<close>)

lemma str_substr_at:
  assumes "length s < 2 ^ 64 - 1" "n \<le> length s" "m \<le> length s"
  shows "str_substr s (of_nat n) (of_nat m) = Inr (take m (drop n s))"
  using assms by (simp add: str_substr_def str_size_def u64_of_nat_less unat_of_nat)

lemma match_offset_le: "match_offset pat (drop n s) = Some k \<Longrightarrow> n \<le> length s \<Longrightarrow> n + k \<le> length s"
  using match_offset_Some [of pat "drop n s" k] by auto

section \<open>Single values\<close>

text \<open>\<open>t\<close> is the text from the key on.\<close>

lemma extract_string_at:
  assumes len: "length s < 2 ^ 64 - 1" and a: "match_offset (quote @ key @ quote) s = Some a"
    and t: "dropWhile (\<lambda>c. c \<noteq> CHR '':'') (drop a s) = x @ CHR 0x22 # v @ CHR 0x22 # y" "CHR 0x22 \<notin> set x" "CHR 0x22 \<notin> set v"
  shows "extract_string s key = Inr v"
proof -
  define b where "b = a + length (takeWhile (\<lambda>c. c \<noteq> CHR '':'') (drop a s))"
  define c where "c = b + length x"
  have a_le: "a \<le> length s" using match_offset_Some [OF a] by simp
  have colon: "CHR '':'' \<in> set (drop a s)"
    using t(1) dropWhile_eq_Nil_conv [of "\<lambda>c. c \<noteq> CHR '':''" "drop a s"] by auto
  have ab: "drop b s = x @ CHR 0x22 # v @ CHR 0x22 # y"
    using t(1) by (simp add: b_def drop_takeWhile [symmetric] add.commute)
  then have b_le: "b \<le> length s" by (cases "b \<le> length s") auto
  have len_eq: "length s = c + Suc (Suc (length v + length y))"
    using arg_cong [OF ab, of length] b_le by (simp add: c_def)
  have f1: "str_find s (quote @ key @ quote) 0 = of_nat a" using str_find_at [OF len, of 0] a by simp
  have f2: "str_find s '':'' (of_nat a) = of_nat b"
    using str_find_at [OF len a_le, of "'':''"] colon by (simp add: match_offset_char b_def)
  have tw: "match_offset quote (z @ CHR 0x22 # z') = Some (length z)" if "CHR 0x22 \<notin> set z" for z z'
    using that by (induction z) (simp_all add: match_offset_char)
  have f3: "str_find s quote (of_nat b) = of_nat c" using str_find_at [OF len b_le, of quote] by (simp add: ab tw t(2) c_def)
  have c1: "drop (Suc c) s = v @ CHR 0x22 # y"
  proof -
    have "drop (Suc c) s = drop (Suc (length x)) (drop b s)" by (simp add: c_def add.commute)
    then show ?thesis unfolding ab by simp
  qed
  have f4: "str_find s quote (of_nat c + 1) = of_nat c + 1 + of_nat (length v)"
    using str_find_at [OF len, of "Suc c" quote] len_eq unfolding c1 tw [OF t(3)] by (simp add: add.commute)
  have "str_substr s (of_nat c + 1) (of_nat (length v)) = Inr v"
    using str_substr_at [OF len, of "Suc c" "length v"] len_eq unfolding c1 by (simp add: add.commute)
  then show ?thesis
    unfolding extract_string_def Let_def f1 f2 f3 f4 using u64_of_nat_npos [of a] a_le len by simp
qed

lemma extract_number_at:
  assumes len: "length s < 2 ^ 64 - 1" and a: "match_offset (quote @ key @ quote) s = Some a"
    and t: "dropWhile (\<lambda>c. c \<noteq> CHR '':'') (drop a s) = u" "u \<noteq> []"
  shows "extract_number dbl s key =
     stod_digits dbl (takeWhile (\<lambda>c. is_digit c \<or> c = CHR ''.'') (dropWhile (\<lambda>c. c = CHR '':'' \<or> c = CHR '' '') u))"
proof -
  let ?P = "\<lambda>c. c = CHR '':'' \<or> c = CHR '' ''" and ?Q = "\<lambda>c. is_digit c \<or> c = CHR ''.''"
  define b where "b = a + length (takeWhile (\<lambda>c. c \<noteq> CHR '':'') (drop a s))"
  define c where "c = b + length (takeWhile ?P u)"
  define d where "d = c + length (takeWhile ?Q (dropWhile ?P u))"
  have a_le: "a \<le> length s" using match_offset_Some [OF a] by simp
  have colon: "CHR '':'' \<in> set (drop a s)"
    using t dropWhile_eq_Nil_conv [of "\<lambda>c. c \<noteq> CHR '':''" "drop a s"] by auto
  have ab: "drop b s = u" using t(1) by (simp add: b_def drop_takeWhile [symmetric] add.commute)
  then have b_le: "b \<le> length s" using t(2) by (cases "b \<le> length s") auto
  have c1: "drop c s = dropWhile ?P u"
  proof -
    have "drop c s = drop (length (takeWhile ?P u)) (drop b s)" by (simp add: c_def add.commute)
    then show ?thesis by (simp only: ab drop_takeWhile)
  qed
  have len_eq: "length s = b + length u" using ab b_le by auto
  have c_le: "c \<le> length s" using length_takeWhile_le [of ?P u] len_eq by (simp add: c_def)
  have f1: "str_find s (quote @ key @ quote) 0 = of_nat a" using str_find_at [OF len, of 0] a by simp
  have f2: "str_find s '':'' (of_nat a) = of_nat b"
    using str_find_at [OF len a_le, of "'':''"] colon by (simp add: match_offset_char b_def)
  have f3: "skip_while ?P s (of_nat b) = of_nat c" using skip_while_at [OF len b_le, of ?P] unfolding ab c_def .
  have f4: "skip_while ?Q s (of_nat c) = of_nat d" using skip_while_at [OF len c_le, of ?Q] unfolding c1 d_def .
  have "length (takeWhile ?Q (dropWhile ?P u)) \<le> length (drop c s)" unfolding c1 by (rule length_takeWhile_le)
  then have "length (takeWhile ?Q (dropWhile ?P u)) \<le> length s" by (rule le_trans) simp
  then have "str_substr s (of_nat c) (of_nat d - of_nat c) = Inr (takeWhile ?Q (dropWhile ?P u))"
    using str_substr_at [OF len c_le, of "length (takeWhile ?Q (dropWhile ?P u))"]
    unfolding c1 d_def by (simp add: takeWhile_eq_take [symmetric])
  then show ?thesis
    unfolding extract_number_def Let_def f1 f2 f3 f4 using u64_of_nat_npos [of a] a_le len by (simp add: and_then_def)
qed

lemma extract_bool_at:
  assumes len: "length s < 2 ^ 64 - 1" and a: "match_offset (quote @ key @ quote) s = Some a"
    and t: "dropWhile (\<lambda>c. c \<noteq> CHR '':'') (drop a s) = u" "u \<noteq> []"
  shows "extract_bool s key \<longleftrightarrow>
     (case match_offset ''true'' u of None \<Rightarrow> False
      | Some i \<Rightarrow> (case match_offset ''false'' u of None \<Rightarrow> True | Some j \<Rightarrow> i < j))"
proof -
  define b where "b = a + length (takeWhile (\<lambda>c. c \<noteq> CHR '':'') (drop a s))"
  have a_le: "a \<le> length s" using match_offset_Some [OF a] by simp
  have colon: "CHR '':'' \<in> set (drop a s)"
    using t dropWhile_eq_Nil_conv [of "\<lambda>c. c \<noteq> CHR '':''" "drop a s"] by auto
  have ab: "drop b s = u" using t(1) by (simp add: b_def drop_takeWhile [symmetric] add.commute)
  then have b_le: "b \<le> length s" using t(2) by (cases "b \<le> length s") auto
  have f1: "str_find s (quote @ key @ quote) 0 = of_nat a" using str_find_at [OF len, of 0] a by simp
  have f2: "str_find s '':'' (of_nat a) = of_nat b"
    using str_find_at [OF len a_le, of "'':''"] colon by (simp add: match_offset_char b_def)
  have f3: "str_find s pat (of_nat b) = (case match_offset pat u of None \<Rightarrow> npos | Some k \<Rightarrow> of_nat (b + k))" for pat
    using str_find_at [OF len b_le, of pat] unfolding ab .
  have k: "b + i < 2 ^ 64 - 1" if "match_offset pat u = Some i" for pat i
    using match_offset_le [of pat b s i] that b_le len unfolding ab by linarith
  have less: "\<not> npos < x" "(of_nat n :: u64) < npos \<longleftrightarrow> n < 2 ^ 64 - 1" if "n < 2 ^ 64" for x :: u64 and n
    using that unsigned_less [of x, where 'a = nat] by (simp_all add: word_less_nat_alt unat_npos unat_of_nat not_less)
  show ?thesis
    unfolding extract_bool_def Let_def f1 f2 f3 using u64_of_nat_npos [of a] a_le len less [of 0]
    by (auto split: option.split dest!: k simp: less u64_of_nat_less simp del: of_nat_add)
qed

lemma extract_missing:
  assumes "length s < 2 ^ 64 - 1" "match_offset (quote @ key @ quote) s = None"
  shows "extract_string s key = Inr []" "extract_number dbl s key = Inr 0" "\<not> extract_bool s key"
  using str_find_at [OF assms(1), of 0] assms(2)
  by (simp_all add: extract_string_def extract_number_def extract_bool_def)

section \<open>Documents\<close>

text \<open>A document as the pieces between its quotation marks; every second piece is a quoted text.\<close>

fun quoted :: "string list \<Rightarrow> string" where
  "quoted [] = []"
| "quoted [p] = p"
| "quoted (p # p' # ps) = p @ CHR 0x22 # quoted (p' # ps)"

lemma match_skip: "c \<notin> set p \<Longrightarrow> match_offset (c # pat) (p @ z) = map_option (\<lambda>k. k + length p) (match_offset (c # pat) z)"
  by (induction p) (auto simp: option.map_comp comp_def option.map_ident)

declare match_offset.simps(2) [simp del]

lemma prefix_key:
  "CHR 0x22 \<notin> set key \<Longrightarrow> CHR 0x22 \<notin> set p \<Longrightarrow> prefix (key @ quote) (p @ CHR 0x22 # r) \<longleftrightarrow> p = key"
proof (induction key arbitrary: p)
  case Nil
  then show ?case by (cases p) auto
next
  case (Cons k key)
  then show ?case by (cases p) auto
qed

lemma match_key_step:
  assumes "CHR 0x22 \<notin> set key" "CHR 0x22 \<notin> set p"
  shows "match_offset (CHR 0x22 # key @ quote) (CHR 0x22 # p @ CHR 0x22 # r) =
    (if p = key then Some 0 else map_option (\<lambda>k. k + Suc (length p)) (match_offset (CHR 0x22 # key @ quote) (CHR 0x22 # r)))"
  using prefix_key [OF assms, of r] match_skip [OF assms(2), of "key @ quote" "CHR 0x22 # r"]
  by (auto simp: option.map_comp comp_def match_offset.simps(2) [of _ _ "p @ _"])

lemma match_key:
  assumes "\<forall>p\<in>set (pre @ key # seg # post). CHR 0x22 \<notin> set p" "key \<notin> set pre"
  shows "\<exists>a. match_offset (quote @ key @ quote) (CHR 0x22 # quoted (pre @ key # seg # post)) = Some a \<and>
    drop a (CHR 0x22 # quoted (pre @ key # seg # post)) = CHR 0x22 # quoted (key # seg # post)"
  using assms
proof (induction pre)
  case Nil
  then show ?case using match_key_step [of key key "quoted (seg # post)"] by simp
next
  case (Cons p pre)
  obtain r rs where r: "pre @ key # seg # post = r # rs" by (cases pre) auto
  from Cons obtain a where a: "match_offset (quote @ key @ quote) (CHR 0x22 # quoted (r # rs)) = Some a"
    "drop a (CHR 0x22 # quoted (r # rs)) = CHR 0x22 # quoted (key # seg # post)" by (auto simp: r)
  have "match_offset (quote @ key @ quote) (CHR 0x22 # quoted (p # r # rs)) = Some (a + Suc (length p))"
    using match_key_step [of key p "quoted (r # rs)"] Cons.prems a(1) by auto
  with a(2) show ?case by (simp add: r)
qed

lemma find_key:
  assumes "\<forall>p\<in>set (p0 # pre @ key # seg # post). CHR 0x22 \<notin> set p" "key \<notin> set pre"
  obtains a where "match_offset (quote @ key @ quote) (quoted (p0 # pre @ key # seg # post)) = Some a"
    "drop a (quoted (p0 # pre @ key # seg # post)) = CHR 0x22 # key @ CHR 0x22 # quoted (seg # post)"
proof -
  obtain r rs where r: "pre @ key # seg # post = r # rs" by (cases pre) auto
  obtain a where a: "match_offset (quote @ key @ quote) (CHR 0x22 # quoted (r # rs)) = Some a"
    "drop a (CHR 0x22 # quoted (r # rs)) = CHR 0x22 # quoted (key # seg # post)"
    using match_key [of pre key seg post] assms by (auto simp: r)
  have "match_offset (quote @ key @ quote) (quoted (p0 # r # rs)) = Some (a + length p0)"
    using match_skip [of "CHR 0x22" p0 "key @ quote" "CHR 0x22 # quoted (r # rs)"] assms(1) a(1) by simp
  with a(2) show thesis by (intro that [of "a + length p0"]) (simp_all add: r)
qed

lemma after_key:
  assumes "CHR '':'' \<notin> set key"
  shows "dropWhile (\<lambda>c. c \<noteq> CHR '':'') (CHR 0x22 # key @ CHR 0x22 # CHR '':'' # z) = CHR '':'' # z"
  using assms by (induction key) auto

lemma quoted_seg: "quoted ((x @ y) # ps) = x @ quoted (y # ps)"
  by (cases ps) simp_all

lemma digits_value_append: "digits_value (s @ [c]) = 10 * digits_value s + (of_char c - 48)"
  by (simp add: digits_value_def)

lemma decimal_digits:
  "digits_value (decimal n) = int n \<and> list_all is_digit (decimal n) \<and> decimal n \<noteq> []"
proof (induction n rule: decimal.induct)
  case (1 n)
  have i: "(of_char c :: int) = int (code c)" for c by (simp only: of_nat_of_char)
  have d: "(of_char (char_of (48 + k) :: char) :: int) = 48 + int k" "is_digit (char_of (48 + k))" if "k < 10" for k
    using that unfolding i by (simp_all add: is_digit_def)
  show ?case
  proof (cases "n < 10")
    case True
    then show ?thesis using d [of n] by (subst (1 2 3) decimal.simps) (simp add: digits_value_def)
  next
    case False
    have "int n = 10 * int (n div 10) + int (n mod 10)" by presburger
    with 1 [OF False] d [of "n mod 10"] False show ?thesis
      by (subst (1 2 3) decimal.simps) (simp add: digits_value_append)
  qed
qed

lemma stod_decimal: "stod_digits dbl (decimal n) = (case dbl (of_nat n) of None \<Rightarrow> Inl Stod_out_of_range | Some v \<Rightarrow> Inr v)"
proof -
  have tw: "takeWhile is_digit (decimal n) = decimal n"
    using decimal_digits [of n] by (simp add: takeWhile_eq_all_conv list_all_iff)
  show ?thesis unfolding stod_digits_def Let_def tw using decimal_digits [of n] by simp
qed

text \<open>What follows the first quoted occurrence of the key.\<close>

fun piece_after :: "string \<Rightarrow> string list \<Rightarrow> string list option" where
  "piece_after key [] = None"
| "piece_after key (p # ps) = (if p = key \<and> ps \<noteq> [] then Some ps else piece_after key ps)"

lemma piece_after_Some:
  "piece_after key ps = Some rest \<Longrightarrow> \<exists>pre. ps = pre @ key # rest \<and> key \<notin> set pre \<and> rest \<noteq> []"
proof (induction ps)
  case (Cons p ps)
  show ?case
  proof (cases "p = key \<and> ps \<noteq> []")
    case True
    then show ?thesis using Cons.prems by (intro exI [of _ "[]"]) auto
  next
    case False
    then have rest: "piece_after key ps = Some rest" using Cons.prems by auto
    then have "ps \<noteq> []" by auto
    with False have "p \<noteq> key" by simp
    moreover obtain pre where "ps = pre @ key # rest" "key \<notin> set pre" "rest \<noteq> []" using Cons.IH [OF rest] by blast
    ultimately show ?thesis by (intro exI [of _ "p # pre"]) simp
  qed
qed simp

lemma match_key_None:
  assumes "\<forall>p\<in>set (key # p0 # ps). CHR 0x22 \<notin> set p" "piece_after key ps = None"
  shows "match_offset (quote @ key @ quote) (quoted (p0 # ps)) = None"
  using assms
proof (induction ps arbitrary: p0)
  case Nil
  then show ?case using match_skip [of "CHR 0x22" p0 "key @ quote" "[]"] by simp
next
  case (Cons p ps)
  let ?pat = "CHR 0x22 # key @ quote"
  have "match_offset ?pat (CHR 0x22 # quoted (p # ps)) = None"
  proof (cases ps)
    case Nil
    have "\<not> prefix (key @ quote) p" using Cons.prems(1) by (auto simp: prefix_def)
    then show ?thesis
      using Cons.prems(1) match_skip [of "CHR 0x22" p "key @ quote" "[]"] by (simp add: Nil match_offset.simps(2))
  next
    case (Cons p' ps')
    with Cons.prems have ne: "p \<noteq> key" "piece_after key ps = None" by (auto split: if_splits)
    have "match_offset ?pat (quoted (p # ps)) = None" using Cons.IH [of p] Cons.prems ne(2) by simp
    then have "match_offset ?pat (CHR 0x22 # quoted (p' # ps')) = None"
      using Cons.prems match_skip [of "CHR 0x22" p "key @ quote" "CHR 0x22 # quoted (p' # ps')"] by (simp add: Cons)
    then show ?thesis using match_key_step [of key p "quoted (p' # ps')"] Cons.prems ne(1) by (simp add: Cons)
  qed
  then show ?case
    using match_skip [of "CHR 0x22" p0 "key @ quote" "CHR 0x22 # quoted (p # ps)"] Cons.prems by simp
qed

abbreviation sep :: "char \<Rightarrow> bool" where "sep \<equiv> \<lambda>c. c = CHR '':'' \<or> c = CHR '' ''"
abbreviation numeric :: "char \<Rightarrow> bool" where "numeric \<equiv> \<lambda>c. is_digit c \<or> c = CHR ''.''"

definition document :: "string list \<Rightarrow> bool" where
  "document ps \<longleftrightarrow> list_all (\<lambda>p. CHR 0x22 \<notin> set p) ps \<and> length (quoted ps) < 2 ^ 64 - 1"

lemma document_key:
  assumes "document (p0 # ps)" "piece_after key ps = Some ((CHR '':'' # z) # post)" "CHR '':'' \<notin> set key"
  obtains a where "match_offset (quote @ key @ quote) (quoted (p0 # ps)) = Some a"
    "dropWhile (\<lambda>c. c \<noteq> CHR '':'') (drop a (quoted (p0 # ps))) = quoted ((CHR '':'' # z) # post)"
proof -
  from piece_after_Some [OF assms(2)] obtain pre where pre: "ps = pre @ key # (CHR '':'' # z) # post" "key \<notin> set pre" by blast
  then have "\<forall>p\<in>set (p0 # pre @ key # (CHR '':'' # z) # post). CHR 0x22 \<notin> set p"
    using assms(1) by (auto simp: document_def list_all_iff)
  from find_key [OF this pre(2)] obtain a where a: "match_offset (quote @ key @ quote) (quoted (p0 # ps)) = Some a"
    "drop a (quoted (p0 # ps)) = CHR 0x22 # key @ CHR 0x22 # quoted ((CHR '':'' # z) # post)" by (auto simp: pre(1))
  moreover have q: "quoted ((CHR '':'' # z) # post) = CHR '':'' # quoted (z # post)" using quoted_seg [of "'':''" z post] by simp
  ultimately show thesis using after_key [OF assms(3)] by (intro that [OF a(1)]) (simp add: q)
qed

lemma document_string:
  assumes "document (p0 # ps)" "piece_after key ps = Some ((CHR '':'' # z) # v # w # post)" "CHR '':'' \<notin> set key"
  shows "extract_string (quoted (p0 # ps)) key = Inr v"
proof (rule document_key [OF assms])
  fix a
  assume "match_offset (quote @ key @ quote) (quoted (p0 # ps)) = Some a"
    "dropWhile (\<lambda>c. c \<noteq> CHR '':'') (drop a (quoted (p0 # ps))) = quoted ((CHR '':'' # z) # v # w # post)"
  moreover have "CHR 0x22 \<notin> set (CHR '':'' # z)" "CHR 0x22 \<notin> set v"
    using piece_after_Some [OF assms(2)] assms(1) by (auto simp: document_def list_all_iff)
  ultimately show ?thesis
    using assms(1) by (intro extract_string_at [where x = "CHR '':'' # z" and y = "quoted (w # post)"]) (simp_all add: document_def)
qed

lemma takeWhile_stop: "\<not> P c \<Longrightarrow> takeWhile P (s @ c # t) = takeWhile P s"
  by (induction s) auto

lemma dropWhile_stop: "\<not> P c \<Longrightarrow> dropWhile P (s @ c # t) = dropWhile P s @ c # t"
  by (induction s) auto

lemma document_number:
  assumes "document (p0 # ps)" "piece_after key ps = Some ((CHR '':'' # z) # post)" "CHR '':'' \<notin> set key"
  shows "extract_number dbl (quoted (p0 # ps)) key = stod_digits dbl (takeWhile numeric (dropWhile sep z))"
proof (rule document_key [OF assms])
  fix a
  assume a: "match_offset (quote @ key @ quote) (quoted (p0 # ps)) = Some a"
    "dropWhile (\<lambda>c. c \<noteq> CHR '':'') (drop a (quoted (p0 # ps))) = quoted ((CHR '':'' # z) # post)"
  have "takeWhile numeric (dropWhile sep (quoted ((CHR '':'' # z) # post))) = takeWhile numeric (dropWhile sep z)"
    by (cases post) (simp_all add: dropWhile_stop takeWhile_stop is_digit_def)
  moreover have "quoted ((CHR '':'' # z) # post) \<noteq> []" by (cases post) auto
  ultimately show ?thesis using extract_number_at [OF _ a] assms(1) by (simp add: document_def)
qed

lemma document_bool:
  assumes "document (p0 # ps)" "piece_after key ps = Some ((CHR '':'' # z) # post)" "CHR '':'' \<notin> set key"
  shows "prefix ''true'' (dropWhile sep z) \<Longrightarrow> extract_bool (quoted (p0 # ps)) key"
    "prefix ''false'' (dropWhile sep z) \<Longrightarrow> \<not> extract_bool (quoted (p0 # ps)) key"
proof -
  obtain a where a: "match_offset (quote @ key @ quote) (quoted (p0 # ps)) = Some a"
    "dropWhile (\<lambda>c. c \<noteq> CHR '':'') (drop a (quoted (p0 # ps))) = quoted ((CHR '':'' # z) # post)"
    by (rule document_key [OF assms])
  define sp where "sp = takeWhile sep z"
  define u where "u = quoted (dropWhile sep z # post)"
  have "z = sp @ dropWhile sep z" by (simp add: sp_def)
  then have q: "quoted ((CHR '':'' # z) # post) = (CHR '':'' # sp) @ u"
    using quoted_seg [of "CHR '':'' # sp" "dropWhile sep z" post] by (simp add: u_def)
  have no: "c \<notin> set (CHR '':'' # sp)" if "c = CHR ''t'' \<or> c = CHR ''f''" for c
    using that by (auto simp: sp_def dest: set_takeWhileD)
  have eb: "extract_bool (quoted (p0 # ps)) key \<longleftrightarrow>
     (case match_offset ''true'' u of None \<Rightarrow> False | Some i \<Rightarrow> (case match_offset ''false'' u of None \<Rightarrow> True | Some j \<Rightarrow> i < j))"
    using extract_bool_at [OF _ a] assms(1) match_skip [OF no, of "CHR ''t''" "''rue''" u] match_skip [OF no, of "CHR ''f''" "''alse''" u]
    unfolding q by (simp add: document_def split: option.split)
  have start: "prefix pat u \<and> match_offset pat u = Some 0" if "prefix pat (dropWhile sep z)" "pat \<noteq> []" for pat
  proof -
    have "prefix pat u" using that quoted_seg [of _ _ post] by (auto simp: u_def prefix_def)
    then show ?thesis using that(2) by (cases u) (auto simp: match_offset.simps(2))
  qed
  have first: "match_offset ''false'' u \<noteq> Some 0" if "prefix ''true'' u"
    using match_offset_Some [of "''false''" u 0] that by (auto simp: prefix_def)
  show "prefix ''true'' (dropWhile sep z) \<Longrightarrow> extract_bool (quoted (p0 # ps)) key"
    using start [of "''true''"] first by (auto simp: eb split: option.split)
  show "prefix ''false'' (dropWhile sep z) \<Longrightarrow> \<not> extract_bool (quoted (p0 # ps)) key"
    using start [of "''false''"] by (auto simp: eb split: option.split)
qed

definition doc_string :: "string list \<Rightarrow> string \<Rightarrow> string" where
  "doc_string ps key = (case piece_after key (tl ps) of None \<Rightarrow> [] | Some rest \<Rightarrow> rest ! 1)"

definition doc_number :: "(rat \<Rightarrow> rat option) \<Rightarrow> string list \<Rightarrow> string \<Rightarrow> parse_error + rat" where
  "doc_number dbl ps key =
     (case piece_after key (tl ps) of None \<Rightarrow> Inr 0
      | Some rest \<Rightarrow> stod_digits dbl (takeWhile numeric (dropWhile sep (tl (hd rest)))))"

definition doc_bool :: "string list \<Rightarrow> string \<Rightarrow> bool" where
  "doc_bool ps key =
     (case piece_after key (tl ps) of None \<Rightarrow> False | Some rest \<Rightarrow> prefix ''true'' (dropWhile sep (tl (hd rest))))"

definition doc_is_bool :: "string list \<Rightarrow> string \<Rightarrow> bool" where
  "doc_is_bool ps key =
     (case piece_after key (tl ps) of None \<Rightarrow> True
      | Some rest \<Rightarrow> let t = dropWhile sep (tl (hd rest)) in prefix ''true'' t \<or> prefix ''false'' t)"

definition doc_has :: "string list \<Rightarrow> string \<Rightarrow> bool" where
  "doc_has ps key \<longleftrightarrow> list_all (\<lambda>c. c \<noteq> CHR '':'' \<and> c \<noteq> CHR 0x22) key \<and> ps \<noteq> [] \<and>
     (case piece_after key (tl ps) of None \<Rightarrow> True | Some rest \<Rightarrow> hd rest \<noteq> [] \<and> hd (hd rest) = CHR '':'')"

lemma doc_cases:
  assumes "document ps" "doc_has ps key"
  obtains (missing) "piece_after key (tl ps) = None" "match_offset (quote @ key @ quote) (quoted ps) = None"
  | (found) p0 qs z post where "ps = p0 # qs" "piece_after key qs = Some ((CHR '':'' # z) # post)" "CHR '':'' \<notin> set key"
proof -
  obtain p0 qs where ps: "ps = p0 # qs" using assms(2) by (cases ps) (auto simp: doc_has_def)
  have key: "CHR '':'' \<notin> set key" "CHR 0x22 \<notin> set key" using assms(2) by (auto simp: doc_has_def list_all_iff)
  show thesis
  proof (cases "piece_after key qs")
    case None
    then show thesis
      using match_key_None [of key p0 qs] assms(1) key(2) by (intro missing) (auto simp: ps document_def list_all_iff)
  next
    case (Some rest)
    then obtain seg post where "rest = seg # post" using piece_after_Some [OF Some] by (cases rest) auto
    moreover have "seg \<noteq> [] \<and> hd seg = CHR '':''" using assms(2) Some calculation by (simp add: doc_has_def ps)
    ultimately show thesis using Some key(1) by (intro found [OF ps, of "tl seg" post]) (cases seg, auto)
  qed
qed

lemma doc_lookup_number:
  assumes "document ps" "doc_has ps key"
  shows "extract_number dbl (quoted ps) key = doc_number dbl ps key"
  using assms
proof (cases rule: doc_cases)
  case missing
  then show ?thesis using extract_missing(2) [OF _ missing(2)] assms(1) by (simp add: document_def doc_number_def)
next
  case (found p0 qs z post)
  then show ?thesis using document_number [OF assms(1) [unfolded found(1)] found(2,3)] by (simp add: doc_number_def)
qed

lemma doc_lookup_bool:
  assumes "document ps" "doc_has ps key"
    and "doc_is_bool ps key"
  shows "extract_bool (quoted ps) key = doc_bool ps key"
  using assms(1,2)
proof (cases rule: doc_cases)
  case missing
  then show ?thesis using extract_missing(3) [OF _ missing(2)] assms(1) by (simp add: document_def doc_bool_def)
next
  case (found p0 qs z post)
  have "\<not> (prefix ''true'' x \<and> prefix ''false'' x)" for x by (auto simp: prefix_def)
  with document_bool [OF assms(1) [unfolded found(1)] found(2,3)] assms(3) found show ?thesis by (auto simp: doc_bool_def doc_is_bool_def Let_def)
qed

lemma doc_lookup_string:
  assumes "document ps" "doc_has ps key" "case piece_after key (tl ps) of None \<Rightarrow> True | Some rest \<Rightarrow> 2 < length rest"
  shows "extract_string (quoted ps) key = Inr (doc_string ps key)"
  using assms(1,2)
proof (cases rule: doc_cases)
  case missing
  then show ?thesis using extract_missing(1) [OF _ missing(2)] assms(1) by (simp add: document_def doc_string_def)
next
  case (found p0 qs z post)
  have "2 < length ((CHR '':'' # z) # post)" using assms(3) found by auto
  then obtain v w post' where "post = v # w # post'" by (cases post; cases "tl post") auto
  then show ?thesis using document_string [OF assms(1) [unfolded found(1)] _ found(3)] found by (simp add: doc_string_def)
qed


section \<open>The configuration of the repository\<close>

text \<open>The file \<^verbatim>\<open>configs/config.json\<close>, and the configuration it means.\<close>

abbreviation nl :: string where "nl \<equiv> [CHR 0x0A]"

definition config_pieces :: "string list" where
  "config_pieces =
   [''{'' @ nl @ ''  '', ''exchange'', '': {'' @ nl @ ''    '', ''name'', '': '', ''RTES'', '','' @ nl @ ''    '',
    ''tcp_port'', '': 8888,'' @ nl @ ''    '', ''udp_multicast_group'', '': '', ''239.0.0.1'', '','' @ nl @ ''    '',
    ''udp_port'', '': 9999,'' @ nl @ ''    '', ''metrics_port'', '': 8080'' @ nl @ ''  },'' @ nl @ ''  '', ''symbols'',
    '': ['' @ nl @ ''    {'' @ nl @ ''      '', ''symbol'', '': '', ''AAPL'', '','' @ nl @ ''      '', ''tick_size'',
    '': 0.01,'' @ nl @ ''      '', ''lot_size'', '': 1,'' @ nl @ ''      '', ''price_collar_pct'',
    '': 10.0'' @ nl @ ''    },'' @ nl @ ''    {'' @ nl @ ''      '', ''symbol'', '': '', ''MSFT'', '', '' @ nl @ ''      '',
    ''tick_size'', '': 0.01,'' @ nl @ ''      '', ''lot_size'', '': 1,'' @ nl @ ''      '', ''price_collar_pct'',
    '': 10.0'' @ nl @ ''    },'' @ nl @ ''    {'' @ nl @ ''      '', ''symbol'', '': '', ''GOOGL'', '','' @ nl @ ''      '',
    ''tick_size'', '': 0.01,'' @ nl @ ''      '', ''lot_size'', '': 1,'' @ nl @ ''      '', ''price_collar_pct'',
    '': 10.0'' @ nl @ ''    }'' @ nl @ ''  ],'' @ nl @ ''  '', ''risk'', '': {'' @ nl @ ''    '', ''max_order_size'',
    '': 10000,'' @ nl @ ''    '', ''max_notional_per_client'', '': 1000000.0,'' @ nl @ ''    '', ''max_orders_per_second'',
    '': 1000,'' @ nl @ ''    '', ''price_collar_enabled'', '': true'' @ nl @ ''  },'' @ nl @ ''  '', ''performance'',
    '': {'' @ nl @ ''    '', ''order_pool_size'', '': 1000000,'' @ nl @ ''    '', ''queue_capacity'',
    '': 65536,'' @ nl @ ''    '', ''enable_cpu_pinning'', '': false,'' @ nl @ ''    '', ''tcp_nodelay'',
    '': true,'' @ nl @ ''    '', ''udp_buffer_size'', '': 262144'' @ nl @ ''  },'' @ nl @ ''  '', ''logging'',
    '': {'' @ nl @ ''    '', ''level'', '': '', ''INFO'', '','' @ nl @ ''    '', ''rate_limit_ms'',
    '': 1000,'' @ nl @ ''    '', ''enable_structured'', '': true'' @ nl @ ''  },'' @ nl @ ''  '', ''persistence'',
    '': {'' @ nl @ ''    '', ''enable_event_log'', '': false,'' @ nl @ ''    '', ''snapshot_interval_ms'',
    '': 60000,'' @ nl @ ''    '', ''log_directory'', '': '', ''./logs'', nl @ ''  }'' @ nl @ ''}'']"

definition repository_config :: config where
  "repository_config =
     \<lparr>cf_exchange = \<lparr>xc_name = ''RTES'', xc_tcp_port = 8888, xc_udp_multicast_group = ''239.0.0.1'', xc_udp_port = 9999,
        xc_metrics_port = 8080\<rparr>,
      cf_symbols = [listed ''AAPL'', listed ''MSFT'', listed ''GOOGL''],
      cf_risk = \<lparr>rc_max_order_size = 10000, rc_max_notional_per_client = 1000000, rc_max_orders_per_second = 1000,
        rc_price_collar_enabled = True\<rparr>,
      cf_performance = \<lparr>pc_order_pool_size = 1000000, pc_queue_capacity = 65536, pc_enable_cpu_pinning = False,
        pc_tcp_nodelay = True, pc_udp_buffer_size = 262144, pc_market_data_queue_size = 4096\<rparr>,
      cf_logging = \<lparr>lc_level = ''INFO'', lc_rate_limit_ms = 1000, lc_enable_structured = True\<rparr>,
      cf_persistence = \<lparr>sc_enable_event_log = False, sc_snapshot_interval_ms = 60000, sc_log_directory = ''./logs''\<rparr>\<rparr>"

lemma config_document: "document config_pieces"
proof -
  have "list_all (\<lambda>p. CHR 0x22 \<notin> set p) config_pieces" by code_simp
  moreover have "length (quoted config_pieces) < 2000" by code_simp
  ultimately show ?thesis by (simp add: document_def)
qed

definition number_keys :: "string list" where
  "number_keys = [''tcp_port'', ''udp_port'', ''metrics_port'', ''max_order_size'', ''max_notional_per_client'',
     ''max_orders_per_second'', ''order_pool_size'', ''queue_capacity'', ''udp_buffer_size'', ''rate_limit_ms'',
     ''snapshot_interval_ms'']"

lemma config_numbers:
  "map (doc_number Some config_pieces) number_keys =
     map Inr [8888, 9999, 8080, 10000, 1000000, 1000, 1000000, 65536, 262144, 1000, 60000]"
  by code_simp

lemma config_has_numbers: "list_all (doc_has config_pieces) number_keys"
  by code_simp

lemma config_strings:
  "list_all (\<lambda>(k, v). doc_has config_pieces k \<and> doc_string config_pieces k = v \<and>
       (case piece_after k (tl config_pieces) of None \<Rightarrow> True | Some rest \<Rightarrow> 2 < length rest))
     [(''name'', ''RTES''), (''udp_multicast_group'', ''239.0.0.1''), (''level'', ''INFO''), (''log_directory'', ''./logs'')]"
  by code_simp

lemma config_bools:
  "list_all (\<lambda>(k, v). doc_has config_pieces k \<and> doc_bool config_pieces k = v \<and> doc_is_bool config_pieces k)
     [(''price_collar_enabled'', True), (''enable_cpu_pinning'', False), (''tcp_nodelay'', True),
      (''enable_structured'', True), (''enable_event_log'', False)]"
  by code_simp

lemma repository_config_parses: "json_parse Some (quoted config_pieces) = Inr repository_config"
proof -
  note n = config_numbers [unfolded number_keys_def, simplified] config_has_numbers [unfolded number_keys_def, simplified]
  note N = doc_lookup_number [OF config_document] 
  note S = doc_lookup_string [OF config_document] config_strings [simplified]
  note B = doc_lookup_bool [OF config_document] config_bools [simplified]
  show ?thesis
    by (simp add: json_parse_def parse_exchange_def parse_risk_def parse_performance_def extract_uint16_def
      extract_uint32_def extract_uint64_def extract_double_def N n S B and_then_def cast_double_def repository_config_def)
qed


section \<open>From the file to the running exchange\<close>

lemma and_then_Inr: "and_then r f = Inr x \<longleftrightarrow> (\<exists>a. r = Inr a \<and> f a = Inr x)"
  by (cases r) (simp_all add: and_then_def)

lemma json_parse_fixed:
  assumes "json_parse dbl json = Inr c"
  shows "cf_symbols c = [listed ''AAPL'', listed ''MSFT'', listed ''GOOGL'']"
    "pc_market_data_queue_size (cf_performance c) = 4096"
  using assms by (auto simp: json_parse_def parse_performance_def and_then_Inr)

lemma load_validated:
  assumes "load_from_file F cwd content dbl path = Inr c"
  shows "config_ok c" "\<exists>json. json_parse dbl json = Inr c"
  using assms config_accepted [of c]
  by (auto simp: load_from_file_def Let_def split: if_splits option.splits sum.splits)

lemma validated_pool:
  assumes "config_ok c"
  shows "\<exists>P. initialize_order_pool c = Inr P"
proof -
  let ?n = "pc_order_pool_size (cf_performance c)"
  have r: "1 \<le> ?n" "?n \<le> 10000000" using assms by (auto simp: config_ok_def Let_def)
  then have n: "1 \<le> unat ?n" "unat ?n \<le> 10000000" by (simp_all add: word_le_nat_alt)
  have u: "unat (ucast ?n :: u64) = unat ?n"
    using n(2) by (simp add: unsigned_ucast_eq take_bit_nat_eq_self)
  have "(ucast ?n :: u64) \<noteq> 0" "\<not> ucast POOL_EMPTY \<le> (ucast ?n :: u64)"
    using n u by (auto simp: word_le_nat_alt POOL_EMPTY_def)
  then show ?thesis by (simp add: initialize_order_pool_def mp_new_def validate_capacity_def)
qed

text \<open>The key of a symbol in the map of engines.\<close>

lemma engine_key:
  assumes "\<forall>c\<in>set s. code c \<noteq> 0" "length s < 8"
  shows "cstr (fs_new symbol_size (Some (string_bytes s))) = string_bytes s"
  using assms string_bytes_no_zero [OF assms(1)] by (simp add: fs_new_def symbol_size_def cstr_fs_assign fs_default_def cstr_id)

lemma three_engines:
  assumes "cf_symbols c = [listed ''AAPL'', listed ''MSFT'', listed ''GOOGL'']"
  shows "fst (initialize_matching_engines P clk c) =
     [(string_bytes ''AAPL'', 0), (string_bytes ''MSFT'', 1), (string_bytes ''GOOGL'', 2)]"
proof -
  have "string_bytes ''AAPL'' \<noteq> string_bytes ''MSFT''" "string_bytes ''AAPL'' \<noteq> string_bytes ''GOOGL''"
    "string_bytes ''MSFT'' \<noteq> string_bytes ''GOOGL''"
    by (simp_all add: string_bytes_def)
  then show ?thesis
    by (simp add: initialize_matching_engines_def assms listed_def engine_key install_engine_def)
qed

text \<open>
  Claim C27. Whatever file is loaded, if loading succeeds then the configuration is valid, the
  exchange built from it starts, its invariant holds at the start, and it has one engine for
  each of the three symbols that the parser lists, whatever the file says about symbols.
\<close>

theorem loaded_config_starts_the_exchange:
  assumes "load_from_file F cwd content dbl path = Inr cfg" and "\<And>m. set (iter m) = set m"
  shows "config_ok cfg \<and>
    (\<exists>X X'. exchange_new rnd clk iter (Some cfg) = Inr X \<and> exchange_start X = Inr X' \<and> exchange_inv 0 X' \<and>
       x_engines X' = [(string_bytes ''AAPL'', 0), (string_bytes ''MSFT'', 1), (string_bytes ''GOOGL'', 2)])"
proof -
  have ok: "config_ok cfg" using load_validated(1) [OF assms(1)] .
  obtain json where "json_parse dbl json = Inr cfg" using load_validated(2) [OF assms(1)] by blast
  note fixed = json_parse_fixed [OF this]
  obtain P where P: "initialize_order_pool cfg = Inr P" using validated_pool [OF ok] by blast
  obtain X where X: "exchange_new rnd clk iter (Some cfg) = Inr X" "x_state X = CREATED"
    "x_engines X = fst (initialize_matching_engines P clk cfg)"
    by (cases "initialize_matching_engines P clk cfg") (simp add: exchange_new_def P wire_components_def Let_def)
  then obtain X' where X': "exchange_start X = Inr X'" "x_engines X' = x_engines X" by (simp add: exchange_start_def)
  have "exchange_inv 0 X'" by (rule start_inv [OF X(1) X'(1) _ assms(2)]) (simp add: fixed(2))
  with ok X X' three_engines [OF fixed(1)] show ?thesis by auto
qed

text \<open>A file system that knows every path as it is written, with one configuration file.\<close>

definition plain_fs :: file_system where
  "plain_fs = \<lparr>fs_weakly_canonical = Some, fs_canonical = Some, fs_relative = (\<lambda>p b. Some p)\<rparr>"

theorem loaded_config_starts_the_exchange_witness:
  "\<exists>X X'. load_from_file plain_fs ''/'' (\<lambda>p. Some (quoted config_pieces)) Some ''/etc/rtes/config.json'' = Inr repository_config \<and>
     exchange_new id (\<lambda>_. 0) id (Some repository_config) = Inr X \<and> exchange_start X = Inr X' \<and> exchange_inv 0 X'"
proof -
  have "config_ok repository_config"
    by (simp add: config_ok_def repository_config_def listed_def symbol_config_ok_def TICK_0_01_def string_bytes_def)
  then have "validate_full_config repository_config = None" using config_accepted by blast
  moreover have "validate_file_path plain_fs ''/etc/rtes/config.json'' ''/''" by code_simp
  ultimately have load: "load_from_file plain_fs ''/'' (\<lambda>p. Some (quoted config_pieces)) Some ''/etc/rtes/config.json'' =
      Inr repository_config"
    by (simp add: load_from_file_def normalize_path_def plain_fs_def repository_config_parses)
  from loaded_config_starts_the_exchange [OF load, of id id "\<lambda>_. 0"] load show ?thesis by auto
qed

text \<open>
  Validation accepts symbols of eight characters, the type of symbols holds seven: two of them
  that differ in the eighth character share one engine.
\<close>

lemma long_symbols_collide:
  assumes "config_ok c" "cf_symbols c = [s, t]" "length (sc_symbol s) = 8" "take 7 (sc_symbol s) = take 7 (sc_symbol t)"
    and "0 \<notin> set (sc_symbol s)" "0 \<notin> set (sc_symbol t)"
  shows "length (fst (initialize_matching_engines P clk c)) = 1"
proof -
  have k: "cstr (fs_new symbol_size (Some x)) = take 7 x" if "0 \<notin> set x" for x
    using that by (simp add: fs_new_def symbol_size_def cstr_fs_assign fs_default_def cstr_id)
  show ?thesis using assms k by (simp add: initialize_matching_engines_def install_engine_def)
qed

end
