(* ===== verification/RTES_Network_Security.thy ===== *)
theory RTES_Network_Security
  imports RTES_Errors RTES_Protocol_Props RTES_Memory_Props
begin

text \<open>
  The security layer of the network (\<^verbatim>\<open>include/rtes/network_security.hpp\<close>,
  \<^verbatim>\<open>src/network_security.cpp\<close>): the token buckets, the monitor of clients and addresses, the
  sessions, the authenticated broadcast and the secure channel. The answers of OpenSSL, of the
  sockets and of the random generator are arguments, and so is the time of a call, in
  nanoseconds of the steady clock; the time 0 is the default \<open>time_point\<close>. A map from strings
  is an association list.
\<close>

section \<open>Token buckets\<close>

record token_bucket =
  tb_tokens :: u32
  tb_last_refill :: int

record rate_limiter =
  rl_max_tokens :: u32
  rl_refill_interval :: int
  rl_buckets :: "(string \<times> token_bucket) list"

definition rl_new :: "u32 \<Rightarrow> int \<Rightarrow> rate_limiter" where
  "rl_new max_tokens refill_interval =
     \<lparr>rl_max_tokens = max_tokens, rl_refill_interval = refill_interval, rl_buckets = []\<rparr>"

definition millis :: "int \<Rightarrow> int" where "millis ns = ns div 1000000"

text \<open>The interval is in milliseconds; None is the division by an interval of zero.\<close>

definition refill_bucket :: "int \<Rightarrow> rate_limiter \<Rightarrow> token_bucket \<Rightarrow> token_bucket option" where
  "refill_bucket now R b =
     (if tb_last_refill b = 0 then Some \<lparr>tb_tokens = rl_max_tokens R, tb_last_refill = now\<rparr>
      else
        let elapsed = millis (now - tb_last_refill b)
        in if rl_refill_interval R \<le> elapsed
           then if rl_refill_interval R = 0 then None
                else let tokens_to_add = word_of_int (elapsed div rl_refill_interval R)
                     in Some \<lparr>tb_tokens = min (rl_max_tokens R) (tb_tokens b + tokens_to_add), tb_last_refill = now\<rparr>
           else Some b)"

definition try_consume :: "int \<Rightarrow> string \<Rightarrow> u32 \<Rightarrow> rate_limiter \<Rightarrow> (bool \<times> rate_limiter) option" where
  "try_consume now client_id tokens R =
     (let b = (case map_of (rl_buckets R) client_id of None \<Rightarrow> \<lparr>tb_tokens = 0, tb_last_refill = 0\<rparr> | Some b \<Rightarrow> b)
      in case refill_bucket now R b of
           None \<Rightarrow> None
         | Some b1 \<Rightarrow>
             if tokens \<le> tb_tokens b1
             then Some (True, R\<lparr>rl_buckets := AList.update client_id (b1\<lparr>tb_tokens := tb_tokens b1 - tokens\<rparr>) (rl_buckets R)\<rparr>)
             else Some (False, R\<lparr>rl_buckets := AList.update client_id b1 (rl_buckets R)\<rparr>))"

definition reset_client :: "string \<Rightarrow> rate_limiter \<Rightarrow> rate_limiter" where
  "reset_client client_id R = R\<lparr>rl_buckets := AList.delete client_id (rl_buckets R)\<rparr>"

definition active_clients :: "rate_limiter \<Rightarrow> nat" where
  "active_clients R = length (rl_buckets R)"

section \<open>The monitor\<close>

record client_metrics =
  cm_message_count :: u64
  cm_total_bytes :: u64
  cm_first_seen :: int
  cm_last_activity :: int
  cm_auth_failures :: u32

record ip_metrics =
  im_connection_count :: u32
  im_auth_failures :: u32
  im_first_seen :: int
  im_last_failure :: int

record security_stats =
  ss_total_connections :: u64
  ss_blocked_connections :: u64
  ss_auth_failures :: u64
  ss_anomalies_detected :: u64

text \<open>\<open>nm_alerts\<close> are the alerts written to the log.\<close>

record network_monitor =
  nm_clients :: "(string \<times> client_metrics) list"
  nm_ips :: "(string \<times> ip_metrics) list"
  nm_stats :: security_stats
  nm_alerts :: "(string \<times> string) list"

definition MAX_MESSAGES_PER_MINUTE :: u64 where "MAX_MESSAGES_PER_MINUTE = 10000"
definition MAX_BYTES_PER_MINUTE :: u64 where "MAX_BYTES_PER_MINUTE = 1048576"
definition MAX_AUTH_FAILURES :: u32 where "MAX_AUTH_FAILURES = 5"
definition MAX_CONNECTIONS_PER_IP :: u32 where "MAX_CONNECTIONS_PER_IP = 10"

definition nm_new :: network_monitor where
  "nm_new = \<lparr>nm_clients = [], nm_ips = [],
     nm_stats = \<lparr>ss_total_connections = 0, ss_blocked_connections = 0, ss_auth_failures = 0, ss_anomalies_detected = 0\<rparr>,
     nm_alerts = []\<rparr>"

definition fresh_client :: client_metrics where
  "fresh_client = \<lparr>cm_message_count = 0, cm_total_bytes = 0, cm_first_seen = 0, cm_last_activity = 0, cm_auth_failures = 0\<rparr>"

definition fresh_ip :: ip_metrics where
  "fresh_ip = \<lparr>im_connection_count = 0, im_auth_failures = 0, im_first_seen = 0, im_last_failure = 0\<rparr>"

definition ip_of :: "network_monitor \<Rightarrow> string \<Rightarrow> ip_metrics" where
  "ip_of M ip = (case map_of (nm_ips M) ip of None \<Rightarrow> fresh_ip | Some m \<Rightarrow> m)"

definition client_of :: "network_monitor \<Rightarrow> string \<Rightarrow> client_metrics" where
  "client_of M c = (case map_of (nm_clients M) c of None \<Rightarrow> fresh_client | Some m \<Rightarrow> m)"

definition generate_security_alert :: "string \<Rightarrow> string \<Rightarrow> network_monitor \<Rightarrow> network_monitor" where
  "generate_security_alert alert_type details M = M\<lparr>nm_alerts := nm_alerts M @ [(alert_type, details)]\<rparr>"

definition count_anomaly :: "network_monitor \<Rightarrow> network_monitor" where
  "count_anomaly M = M\<lparr>nm_stats := (nm_stats M)\<lparr>ss_anomalies_detected := ss_anomalies_detected (nm_stats M) + 1\<rparr>\<rparr>"

definition record_connection :: "int \<Rightarrow> string \<Rightarrow> network_monitor \<Rightarrow> network_monitor" where
  "record_connection now client_ip M =
     (let m = ip_of M client_ip;
          m = m\<lparr>im_connection_count := im_connection_count m + 1\<rparr>;
          m = (if im_first_seen m = 0 then m\<lparr>im_first_seen := now\<rparr> else m)
      in M\<lparr>nm_ips := AList.update client_ip m (nm_ips M),
           nm_stats := (nm_stats M)\<lparr>ss_total_connections := ss_total_connections (nm_stats M) + 1\<rparr>\<rparr>)"

definition record_message :: "int \<Rightarrow> string \<Rightarrow> u64 \<Rightarrow> network_monitor \<Rightarrow> network_monitor" where
  "record_message now client_id message_size M =
     (if 1048576 < message_size then count_anomaly M
      else
        let m = client_of M client_id; keep = AList.update client_id m (nm_clients M)
        in if cm_message_count m = - 1 then M\<lparr>nm_clients := keep\<rparr>
           else if - 1 - message_size < cm_total_bytes m then M\<lparr>nm_clients := keep\<rparr>
           else
             let m1 = m\<lparr>cm_message_count := cm_message_count m + 1, cm_total_bytes := cm_total_bytes m + message_size,
                        cm_last_activity := now\<rparr>;
                 m2 = (if cm_first_seen m1 = 0 then m1\<lparr>cm_first_seen := cm_last_activity m1\<rparr> else m1)
             in M\<lparr>nm_clients := AList.update client_id m2 (nm_clients M)\<rparr>)"

definition detect_anomalous_traffic_patterns :: "int \<Rightarrow> string \<Rightarrow> network_monitor \<Rightarrow> bool \<times> network_monitor" where
  "detect_anomalous_traffic_patterns now client_id M =
     (case map_of (nm_clients M) client_id of
        None \<Rightarrow> (False, M)
      | Some m \<Rightarrow>
          let minutes = (now - cm_first_seen m) div 60000000000
          in if 0 < minutes
             then if MAX_MESSAGES_PER_MINUTE < cm_message_count m div word_of_int minutes \<or>
                     MAX_BYTES_PER_MINUTE < cm_total_bytes m div word_of_int minutes
                  then (True, generate_security_alert ''TRAFFIC_ANOMALY'' client_id (count_anomaly M))
                  else (False, M)
             else (False, M))"

definition should_block_connection :: "string \<Rightarrow> network_monitor \<Rightarrow> bool \<times> network_monitor" where
  "should_block_connection client_ip M =
     (case map_of (nm_ips M) client_ip of
        None \<Rightarrow> (False, M)
      | Some m \<Rightarrow>
          if MAX_CONNECTIONS_PER_IP < im_connection_count m \<or> MAX_AUTH_FAILURES < im_auth_failures m
          then (True, M\<lparr>nm_stats := (nm_stats M)\<lparr>ss_blocked_connections := ss_blocked_connections (nm_stats M) + 1\<rparr>\<rparr>)
          else (False, M))"

definition record_authentication_failure :: "int \<Rightarrow> string \<Rightarrow> network_monitor \<Rightarrow> network_monitor" where
  "record_authentication_failure now client_ip M =
     (let m = ip_of M client_ip;
          m = m\<lparr>im_auth_failures := im_auth_failures m + 1, im_last_failure := now\<rparr>;
          M1 = M\<lparr>nm_ips := AList.update client_ip m (nm_ips M),
                 nm_stats := (nm_stats M)\<lparr>ss_auth_failures := ss_auth_failures (nm_stats M) + 1\<rparr>\<rparr>
      in if MAX_AUTH_FAILURES \<le> im_auth_failures m then generate_security_alert ''AUTH_FAILURE_THRESHOLD'' client_ip M1 else M1)"

section \<open>Sessions\<close>

record session =
  se_client_id :: string
  se_created :: int
  se_last_access :: int

record authenticator =
  au_session_timeout :: int
  au_sessions :: "(string \<times> session) list"
  au_api_keys :: "(string \<times> string) list"

text \<open>The keys are never loaded.\<close>

definition au_new :: "int \<Rightarrow> authenticator" where
  "au_new timeout = \<lparr>au_session_timeout = timeout, au_sessions = [], au_api_keys = []\<rparr>"

definition hex_digit :: "nat \<Rightarrow> char" where
  "hex_digit n = (if n < 10 then char_of (48 + n) else char_of (87 + n))"

definition hex_byte :: "byte \<Rightarrow> string" where
  "hex_byte b = [hex_digit (unat b div 16), hex_digit (unat b mod 16)]"

text \<open>\<open>random_bytes\<close> are the 32 bytes of the generator, None when it fails, which throws.\<close>

definition generate_session_token :: "byte list option \<Rightarrow> string option" where
  "generate_session_token random_bytes = map_option (\<lambda>bs. concat (map hex_byte bs)) random_bytes"

definition create_session :: "byte list option \<Rightarrow> int \<Rightarrow> string \<Rightarrow> authenticator \<Rightarrow> (string \<times> authenticator) option" where
  "create_session random_bytes now client_id A =
     (case generate_session_token random_bytes of
        None \<Rightarrow> None
      | Some token \<Rightarrow>
          Some (token, A\<lparr>au_sessions := AList.update token
            \<lparr>se_client_id = client_id, se_created = now, se_last_access = now\<rparr> (au_sessions A)\<rparr>))"

definition au_validate_session :: "int \<Rightarrow> string \<Rightarrow> authenticator \<Rightarrow> bool \<times> authenticator" where
  "au_validate_session now session_token A =
     (case map_of (au_sessions A) session_token of
        None \<Rightarrow> (False, A)
      | Some s \<Rightarrow>
          if au_session_timeout A < now - se_created s
          then (False, A\<lparr>au_sessions := AList.delete session_token (au_sessions A)\<rparr>)
          else (True, A\<lparr>au_sessions := AList.update session_token (s\<lparr>se_last_access := now\<rparr>) (au_sessions A)\<rparr>))"

definition invalidate_session :: "string \<Rightarrow> authenticator \<Rightarrow> authenticator" where
  "invalidate_session session_token A = A\<lparr>au_sessions := AList.delete session_token (au_sessions A)\<rparr>"

definition cleanup_expired_sessions :: "int \<Rightarrow> authenticator \<Rightarrow> authenticator" where
  "cleanup_expired_sessions now A =
     A\<lparr>au_sessions := filter (\<lambda>(k, s). \<not> au_session_timeout A < now - se_created s) (au_sessions A)\<rparr>"

definition validate_api_key :: "string \<Rightarrow> authenticator \<Rightarrow> string result" where
  "validate_api_key api_key A =
     (case map_of (au_api_keys A) api_key of None \<Rightarrow> Inl NETWORK_CONNECTION_FAILED | Some c \<Rightarrow> Inr c)"

section \<open>Authenticated broadcast\<close>

text \<open>
  The message header is a sequence number and the size of the code, padded to 16 bytes; the
  padding is whatever the stack holds. \<open>hmac key data\<close> is the code, None where OpenSSL fails.
\<close>

record broadcast =
  ub_hmac_key :: bounded_string
  ub_sequence_number :: u64

definition ub_new :: "bounded_string \<Rightarrow> broadcast" where
  "ub_new hmac_key = \<lparr>ub_hmac_key = hmac_key, ub_sequence_number = 1\<rparr>"

definition ub_initialize :: "broadcast \<Rightarrow> unit result" where
  "ub_initialize B = (if bs_length (ub_hmac_key B) = 0 then Inl INVALID_CONFIGURATION else Inr ())"

definition compute_hmac ::
  "(byte list \<Rightarrow> byte list \<Rightarrow> byte list option) \<Rightarrow> byte list \<Rightarrow> broadcast \<Rightarrow> (byte list) result" where
  "compute_hmac hmac data B =
     (case hmac (bs_view (ub_hmac_key B)) data of None \<Rightarrow> Inl SYSTEM_CORRUPTED_STATE | Some code \<Rightarrow> Inr code)"

definition AUTH_HEADER_SIZE :: nat where "AUTH_HEADER_SIZE = 16"
definition AUTH_BUFFER_SIZE :: u64 where "AUTH_BUFFER_SIZE = 8192"

definition auth_header :: "u64 \<Rightarrow> u32 \<Rightarrow> byte list \<Rightarrow> byte list" where
  "auth_header seq hmac_size padding = to_le 8 seq @ to_le 4 hmac_size @ padding"

text \<open>The result is the answer, the state, and the datagram handed to the socket, if any.\<close>

definition send_authenticated_message ::
  "(byte list \<Rightarrow> byte list \<Rightarrow> byte list option) \<Rightarrow> byte list \<Rightarrow> bool \<Rightarrow> bool \<Rightarrow> byte list \<Rightarrow> broadcast \<Rightarrow>
   buffer_error + unit result \<times> broadcast \<times> byte list option" where
  "send_authenticated_message hmac padding socket_ok sent_ok data B =
     (case compute_hmac hmac data B of
        Inl e \<Rightarrow> Inr (Inl e, B, None)
      | Inr code \<Rightarrow>
          if AUTH_BUFFER_SIZE < of_nat (AUTH_HEADER_SIZE + length data + length code)
          then Inr (Inl MEMORY_BUFFER_OVERFLOW, B, None)
          else
            let hd_bytes = auth_header (ub_sequence_number B) (of_nat (length code)) padding;
                B1 = B\<lparr>ub_sequence_number := ub_sequence_number B + 1\<rparr>
            in case xb_write AUTH_BUFFER_SIZE hd_bytes (of_nat AUTH_HEADER_SIZE) (xb_new AUTH_BUFFER_SIZE) of
                 Inl e \<Rightarrow> Inl e
               | Inr buf1 \<Rightarrow>
                   case xb_append AUTH_BUFFER_SIZE data (of_nat (length data)) buf1 of
                     Inl e \<Rightarrow> Inl e
                   | Inr buf2 \<Rightarrow>
                       case xb_append AUTH_BUFFER_SIZE code (of_nat (length code)) buf2 of
                         Inl e \<Rightarrow> Inl e
                       | Inr buf3 \<Rightarrow>
                           if \<not> socket_ok then Inr (Inl NETWORK_CONNECTION_FAILED, B1, None)
                           else Inr (if sent_ok then Inr () else Inl NETWORK_CONNECTION_FAILED, B1,
                                     Some (take (unat (xb_used buf3)) (xb_data buf3))))"

text \<open>The argument is None for the null pointer.\<close>

definition verify_message_authenticity ::
  "(byte list \<Rightarrow> byte list \<Rightarrow> byte list option) \<Rightarrow> byte list option \<Rightarrow> broadcast \<Rightarrow> bool result" where
  "verify_message_authenticity hmac msg B =
     (case msg of
        None \<Rightarrow> Inl INVALID_ARGUMENT
      | Some data \<Rightarrow>
          if length data < AUTH_HEADER_SIZE then Inl INVALID_ARGUMENT
          else
            let hmac_size = unat (le (field 8 4 data) :: u32)
            in if length data < AUTH_HEADER_SIZE + hmac_size then Inl INVALID_ARGUMENT
               else
                 let payload_size = length data - AUTH_HEADER_SIZE - hmac_size;
                     payload = take payload_size (drop AUTH_HEADER_SIZE data);
                     received_hmac = drop (AUTH_HEADER_SIZE + payload_size) data
                 in case compute_hmac hmac payload B of
                      Inl e \<Rightarrow> Inl e
                    | Inr code \<Rightarrow>
                        if length code \<noteq> hmac_size then Inr False
                        else Inr (code = take (length code) received_hmac))"

section \<open>The secure channel\<close>

record security_config =
  cg_tls_cert_file :: string
  cg_tls_key_file :: string
  cg_ca_cert_file :: string
  cg_hmac_key :: bounded_string
  cg_max_connections_per_ip :: u32
  cg_rate_limit_per_second :: u32
  cg_session_timeout :: int
  cg_require_client_certs :: bool

text \<open>What OpenSSL answers while the context is set up.\<close>

record tls_setup =
  ts_ctx_new :: bool
  ts_use_certificate :: "string \<Rightarrow> bool"
  ts_use_private_key :: "string \<Rightarrow> bool"
  ts_check_private_key :: bool
  ts_load_verify :: "string \<Rightarrow> bool"

definition load_certificates :: "security_config \<Rightarrow> tls_setup \<Rightarrow> unit result" where
  "load_certificates C T =
     (if \<not> ts_use_certificate T (cg_tls_cert_file C) then Inl FILE_NOT_FOUND
      else if \<not> ts_use_private_key T (cg_tls_key_file C) then Inl FILE_NOT_FOUND
      else if \<not> ts_check_private_key T then Inl FILE_CORRUPTED
      else Inr ())"

definition setup_ssl_context :: "security_config \<Rightarrow> tls_setup \<Rightarrow> unit result" where
  "setup_ssl_context C T =
     (if \<not> ts_ctx_new T then Inl NETWORK_CONNECTION_FAILED
      else case load_certificates C T of
             Inl e \<Rightarrow> Inl e
           | Inr _ \<Rightarrow>
               if cg_require_client_certs C \<and> cg_ca_cert_file C \<noteq> [] \<and> \<not> ts_load_verify T (cg_ca_cert_file C)
               then Inl FILE_NOT_FOUND else Inr ())"

definition tcp_initialize :: "security_config \<Rightarrow> tls_setup \<Rightarrow> unit result" where
  "tcp_initialize C T = setup_ssl_context C T"

text \<open>
  The sockets that are open, and the SSL objects that exist, each with its socket. An SSL object
  is known by its address; the address 0 is the null pointer. \<open>tls_answers\<close> is what one attempt to
  accept a connection meets.
\<close>

record channel =
  ch_sockets :: "int list"
  ch_ssls :: "(u64 \<times> int) list"

record tls_answers =
  ta_accept :: int
  ta_ssl_new :: u64
  ta_ssl_accept :: int
  ta_peer_certificate :: bool
  ta_verify_ok :: bool
  ta_common_name :: string

definition verify_client_certificate :: "tls_answers \<Rightarrow> unit result" where
  "verify_client_certificate T =
     (if \<not> ta_peer_certificate T then Inl NETWORK_CONNECTION_FAILED
      else if \<not> ta_verify_ok T then Inl NETWORK_CONNECTION_FAILED
      else Inr ())"

definition close_socket :: "int \<Rightarrow> channel \<Rightarrow> channel" where
  "close_socket fd H = H\<lparr>ch_sockets := remove1 fd (ch_sockets H)\<rparr>"

definition ssl_free :: "u64 \<Rightarrow> channel \<Rightarrow> channel" where
  "ssl_free ssl H = H\<lparr>ch_ssls := filter (\<lambda>(s, fd). s \<noteq> ssl) (ch_ssls H)\<rparr>"

text \<open>The address goes through the type \<open>int\<close> of the result.\<close>

definition accept_secure_connection :: "security_config \<Rightarrow> tls_answers \<Rightarrow> channel \<Rightarrow> u32 result \<times> channel" where
  "accept_secure_connection C T H =
     (let fd = ta_accept T
      in if fd < 0 then (Inl NETWORK_CONNECTION_FAILED, H)
         else
           let H1 = H\<lparr>ch_sockets := fd # ch_sockets H\<rparr>; ssl = ta_ssl_new T
           in if ssl = 0 then (Inl MEMORY_ALLOCATION_FAILED, close_socket fd H1)
              else
                let H2 = H1\<lparr>ch_ssls := (ssl, fd) # ch_ssls H1\<rparr>
                in if ta_ssl_accept T \<le> 0 then (Inl NETWORK_CONNECTION_FAILED, close_socket fd (ssl_free ssl H2))
                   else if cg_require_client_certs C
                   then case verify_client_certificate T of
                          Inl e \<Rightarrow> (Inl e, close_socket fd (ssl_free ssl H2))
                        | Inr _ \<Rightarrow> (Inr (ucast ssl), H2)
                   else (Inr (ucast ssl), H2))"

definition pointer_of_int :: "u32 \<Rightarrow> u64" where "pointer_of_int n = scast n"

text \<open>None is the use of a pointer that is no SSL object.\<close>

definition close_connection :: "u64 \<Rightarrow> channel \<Rightarrow> channel option" where
  "close_connection ssl H =
     (if ssl = 0 then Some H
      else case map_of (ch_ssls H) ssl of
             None \<Rightarrow> None
           | Some fd \<Rightarrow> Some (if 0 \<le> fd then close_socket fd (ssl_free ssl H) else ssl_free ssl H))"

definition authenticate_certificate :: "u64 \<Rightarrow> tls_answers \<Rightarrow> channel \<Rightarrow> string result option" where
  "authenticate_certificate ssl T H =
     (if map_of (ch_ssls H) ssl = None then None
      else if \<not> ta_peer_certificate T then Some (Inl NETWORK_CONNECTION_FAILED)
      else if ta_common_name T = [] then Some (Inl NETWORK_CONNECTION_FAILED)
      else Some (Inr (ta_common_name T)))"

text \<open>An answer of the SSL library: the number of bytes and, where it is not positive, the error.\<close>

datatype ssl_error = WANT_READ | WANT_WRITE | SSL_failed

definition secure_transfer :: "int \<Rightarrow> ssl_error \<Rightarrow> u64 result" where
  "secure_transfer bytes err =
     (if bytes \<le> 0
      then if err \<noteq> WANT_READ \<and> err \<noteq> WANT_WRITE then Inl NETWORK_DISCONNECTED else Inr 0
      else Inr (word_of_int bytes))"

section \<open>The layer\<close>

record network_layer =
  nl_config :: security_config
  nl_channel :: channel
  nl_broadcast :: broadcast
  nl_limiter :: rate_limiter
  nl_monitor :: network_monitor
  nl_authenticator :: authenticator

definition nl_new :: "security_config \<Rightarrow> network_layer" where
  "nl_new C =
     \<lparr>nl_config = C, nl_channel = \<lparr>ch_sockets = [], ch_ssls = []\<rparr>, nl_broadcast = ub_new (cg_hmac_key C),
      nl_limiter = rl_new (cg_rate_limit_per_second C) 1000, nl_monitor = nm_new,
      nl_authenticator = au_new (cg_session_timeout C)\<rparr>"

definition nl_initialize :: "tls_setup \<Rightarrow> network_layer \<Rightarrow> unit result" where
  "nl_initialize T N =
     (case tcp_initialize (nl_config N) T of Inl e \<Rightarrow> Inl e | Inr _ \<Rightarrow> ub_initialize (nl_broadcast N))"

definition accept_secure_tcp_connection :: "tls_answers \<Rightarrow> network_layer \<Rightarrow> ((u32 \<times> string) result \<times> network_layer) option" where
  "accept_secure_tcp_connection T N =
     (case accept_secure_connection (nl_config N) T (nl_channel N) of
        (Inl e, H) \<Rightarrow> Some (Inl e, N\<lparr>nl_channel := H\<rparr>)
      | (Inr h, H) \<Rightarrow>
          let ssl = pointer_of_int h
          in case authenticate_certificate ssl T H of
               None \<Rightarrow> None
             | Some (Inl e) \<Rightarrow> map_option (\<lambda>H1. (Inl e, N\<lparr>nl_channel := H1\<rparr>)) (close_connection ssl H)
             | Some (Inr client_id) \<Rightarrow> Some (Inr (h, client_id), N\<lparr>nl_channel := H\<rparr>))"

definition is_client_rate_limited :: "int \<Rightarrow> string \<Rightarrow> network_layer \<Rightarrow> (bool \<times> network_layer) option" where
  "is_client_rate_limited now client_id N =
     map_option (\<lambda>(ok, R). (\<not> ok, N\<lparr>nl_limiter := R\<rparr>)) (try_consume now client_id 1 (nl_limiter N))"

definition should_block_ip :: "string \<Rightarrow> network_layer \<Rightarrow> bool \<times> network_layer" where
  "should_block_ip ip N = (case should_block_connection ip (nl_monitor N) of (b, M) \<Rightarrow> (b, N\<lparr>nl_monitor := M\<rparr>))"

definition record_security_event :: "int \<Rightarrow> string \<Rightarrow> network_layer \<Rightarrow> network_layer" where
  "record_security_event now client_id N = N\<lparr>nl_monitor := record_message now client_id 0 (nl_monitor N)\<rparr>"

definition broadcast_market_data ::
  "(byte list \<Rightarrow> byte list \<Rightarrow> byte list option) \<Rightarrow> byte list \<Rightarrow> bool \<Rightarrow> bool \<Rightarrow> byte list \<Rightarrow> network_layer \<Rightarrow>
   buffer_error + unit result \<times> network_layer \<times> byte list option" where
  "broadcast_market_data hmac padding socket_ok sent_ok data N =
     map_sum id (\<lambda>(r, B, d). (r, N\<lparr>nl_broadcast := B\<rparr>, d))
       (send_authenticated_message hmac padding socket_ok sent_ok data (nl_broadcast N))"

definition verify_udp_message ::
  "(byte list \<Rightarrow> byte list \<Rightarrow> byte list option) \<Rightarrow> byte list option \<Rightarrow> network_layer \<Rightarrow> bool result" where
  "verify_udp_message hmac msg N = verify_message_authenticity hmac msg (nl_broadcast N)"

end
