(* ===== verification/RTES_Network_Props.thy ===== *)
theory RTES_Network_Props
  imports RTES_Network_Security
begin

text \<open>
  What the security layer promises: the bound of the token buckets, the life of a session, the
  messages that the authenticated broadcast accepts, the addresses the monitor blocks, and the
  resources of the secure channel.
\<close>

section \<open>Token buckets\<close>

fun rl_run :: "(int \<times> string \<times> u32) list \<Rightarrow> rate_limiter \<Rightarrow> (bool list \<times> rate_limiter) option" where
  "rl_run [] R = Some ([], R)"
| "rl_run ((now, c, n) # reqs) R =
     (case try_consume now c n R of
        None \<Rightarrow> None
      | Some (ok, R1) \<Rightarrow> map_option (\<lambda>(oks, R2). (ok # oks, R2)) (rl_run reqs R1))"

text \<open>The tokens granted to a client.\<close>

fun granted :: "string \<Rightarrow> (int \<times> string \<times> u32) list \<Rightarrow> bool list \<Rightarrow> nat" where
  "granted c ((now, d, n) # reqs) (ok # oks) = (if d = c \<and> ok then unat n else 0) + granted c reqs oks"
| "granted c _ _ = 0"

definition quantum :: "rate_limiter \<Rightarrow> int" where "quantum R = 1000000 * rl_refill_interval R"

lemma div_add_le: "0 < q \<Longrightarrow> (a :: int) div q + b div q \<le> (a + b) div q"
  by (simp add: div_add1_eq [of a b q] pos_imp_zdiv_nonneg_iff)

lemma unat_word_of_int_le: "0 \<le> k \<Longrightarrow> int (unat (word_of_int k :: 'a::len word)) \<le> k"
  by (simp add: unsigned_of_int take_bit_eq_mod zmod_le_nonneg_dividend)

lemma unat_plus_le: "unat (a + b :: 'a::len word) \<le> unat a + unat b"
  by (simp add: unat_word_ariths)

lemma refill_bound:
  assumes "refill_bucket now R b = Some b1" "0 < rl_refill_interval R" "tb_last_refill b \<noteq> 0" "tb_last_refill b \<le> now"
  shows "tb_last_refill b1 \<in> {tb_last_refill b, now} \<and>
    int (unat (tb_tokens b1)) \<le> int (unat (tb_tokens b)) + (tb_last_refill b1 - tb_last_refill b) div quantum R"
proof -
  let ?d = "now - tb_last_refill b" and ?iv = "rl_refill_interval R"
  have q: "millis ?d div ?iv = ?d div quantum R"
    using assms(2) by (simp add: millis_def quantum_def zdiv_zmult2_eq)
  have nonneg: "0 \<le> ?d div quantum R" using assms(2,4) by (simp add: quantum_def pos_imp_zdiv_nonneg_iff)
  show ?thesis
  proof (cases "?iv \<le> millis ?d")
    case True
    let ?add = "word_of_int (millis ?d div ?iv) :: u32"
    have b1: "b1 = \<lparr>tb_tokens = min (rl_max_tokens R) (tb_tokens b + ?add), tb_last_refill = now\<rparr>"
      using assms True by (simp add: refill_bucket_def Let_def)
    have "unat (tb_tokens b1) \<le> unat (tb_tokens b) + unat ?add"
      using unat_plus_le [of "tb_tokens b" ?add] by (simp add: b1 unat_min)
    moreover have "int (unat ?add) \<le> ?d div quantum R"
      using unat_word_of_int_le [of "millis ?d div ?iv"] nonneg by (simp add: q)
    ultimately have "int (unat (tb_tokens b1)) \<le> int (unat (tb_tokens b)) + ?d div quantum R" by linarith
    moreover have "tb_last_refill b1 = now" by (simp add: b1)
    ultimately show ?thesis by blast
  next
    case False
    then have "b1 = b" using assms by (simp add: refill_bucket_def Let_def)
    then show ?thesis by simp
  qed
qed

lemma try_consume_frame:
  assumes "try_consume now c n R = Some (ok, R1)"
  shows "rl_max_tokens R1 = rl_max_tokens R" "rl_refill_interval R1 = rl_refill_interval R"
    "d \<noteq> c \<Longrightarrow> map_of (rl_buckets R1) d = map_of (rl_buckets R) d"
  using assms by (auto simp: try_consume_def Let_def split: option.splits if_splits)

definition bucket_of :: "rate_limiter \<Rightarrow> string \<Rightarrow> token_bucket" where
  "bucket_of R c = (case map_of (rl_buckets R) c of None \<Rightarrow> \<lparr>tb_tokens = 0, tb_last_refill = 0\<rparr> | Some b \<Rightarrow> b)"

lemma try_consume_bucket:
  assumes "try_consume now c n R = Some (ok, R1)"
  obtains b1 where "refill_bucket now R (bucket_of R c) = Some b1"
    "map_of (rl_buckets R1) c = Some (b1\<lparr>tb_tokens := tb_tokens b1 - (if ok then n else 0)\<rparr>)"
    "ok \<longleftrightarrow> n \<le> tb_tokens b1"
  using assms by (auto simp: try_consume_def bucket_of_def Let_def split: option.splits if_splits)

lemma granted_bound:
  assumes "rl_run reqs R = Some (oks, R')" "0 < rl_refill_interval R" "map_of (rl_buckets R) c = Some b"
    "tb_last_refill b \<noteq> 0" "sorted (tb_last_refill b # map fst reqs)" "\<forall>r\<in>set reqs. fst r \<le> t1" "tb_last_refill b \<le> t1"
    "0 < tb_last_refill b"
  shows "int (granted c reqs oks) \<le> int (unat (tb_tokens b)) + (t1 - tb_last_refill b) div quantum R"
  using assms
proof (induction reqs arbitrary: R oks b)
  case Nil
  then show ?case by (simp add: pos_imp_zdiv_nonneg_iff quantum_def)
next
  case (Cons req reqs)
  obtain now d n where req: "req = (now, d, n)" by (cases req)
  obtain ok R1 oks1 where one: "try_consume now d n R = Some (ok, R1)"
    and rest: "rl_run reqs R1 = Some (oks1, R')" "oks = ok # oks1"
    using Cons.prems(1) by (auto simp: req split: option.splits)
  note fr = try_consume_frame [OF one]
  have times: "tb_last_refill b \<le> now" "now \<le> t1" "sorted (now # map fst reqs)" "\<forall>r\<in>set reqs. fst r \<le> t1"
    using Cons.prems by (auto simp: req)
  have q: "quantum R1 = quantum R" "0 < quantum R" using fr Cons.prems(2) by (simp_all add: quantum_def)
  show ?case
  proof (cases "d = c")
    case False
    then have "map_of (rl_buckets R1) c = Some b" using fr(3) Cons.prems(3) by metis
    moreover have "sorted (tb_last_refill b # map fst reqs)" using Cons.prems(5) by (auto simp: req)
    ultimately have "int (granted c reqs oks1) \<le> int (unat (tb_tokens b)) + (t1 - tb_last_refill b) div quantum R1"
      using Cons.IH [OF rest(1)] Cons.prems fr by simp
    then show ?thesis using False by (simp add: req rest q)
  next
    case True
    obtain b1 where b1: "refill_bucket now R b = Some b1" "ok \<longleftrightarrow> n \<le> tb_tokens b1"
      "map_of (rl_buckets R1) c = Some (b1\<lparr>tb_tokens := tb_tokens b1 - (if ok then n else 0)\<rparr>)"
      using try_consume_bucket [of now c n R ok R1] one Cons.prems(3) True by (auto simp: bucket_of_def)
    let ?b2 = "b1\<lparr>tb_tokens := tb_tokens b1 - (if ok then n else 0)\<rparr>"
    note rb = refill_bound [OF b1(1) Cons.prems(2,4) times(1)]
    then have l: "tb_last_refill b \<le> tb_last_refill b1" "tb_last_refill b1 \<le> now" using times(1) by auto
    have "sorted (tb_last_refill ?b2 # map fst reqs)" using l(2) times(3) by auto
    then have "int (granted c reqs oks1) \<le> int (unat (tb_tokens ?b2)) + (t1 - tb_last_refill b1) div quantum R"
      using Cons.IH [OF rest(1), of ?b2] b1(3) Cons.prems l times fr q by simp
    moreover have "(if ok then unat n else 0) + unat (tb_tokens ?b2) = unat (tb_tokens b1)"
      using b1(2) by (auto simp: unat_sub word_le_nat_alt)
    then have "int (if ok then unat n else 0) + int (unat (tb_tokens ?b2)) = int (unat (tb_tokens b1))"
      by (metis of_nat_add)
    moreover have "int (granted c (req # reqs) oks) = int (if ok then unat n else 0) + int (granted c reqs oks1)"
      using True by (simp add: req rest)
    moreover have "(tb_last_refill b1 - tb_last_refill b) div quantum R + (t1 - tb_last_refill b1) div quantum R \<le>
        (t1 - tb_last_refill b) div quantum R"
      using div_add_le [OF q(2), of "tb_last_refill b1 - tb_last_refill b" "t1 - tb_last_refill b1"] by simp
    ultimately show ?thesis using conjunct2 [OF rb] by linarith
  qed
qed

lemma granted_from_empty:
  assumes "rl_run reqs R0 = Some (oks, R)" "0 < rl_refill_interval R0" "map_of (rl_buckets R0) c = None"
    and "sorted (map fst reqs)" "\<forall>r\<in>set reqs. t0 \<le> fst r \<and> fst r \<le> t1" "t0 \<le> t1" "0 < t0"
  shows "int (granted c reqs oks) \<le> int (unat (rl_max_tokens R0)) + (t1 - t0) div quantum R0"
  using assms
proof (induction reqs arbitrary: R0 oks)
  case Nil
  then show ?case using Nil.prems(6) by (simp add: pos_imp_zdiv_nonneg_iff quantum_def)
next
  case (Cons req reqs)
  obtain now d n where req: "req = (now, d, n)" by (cases req)
  obtain ok R1 oks1 where one: "try_consume now d n R0 = Some (ok, R1)"
    and rest: "rl_run reqs R1 = Some (oks1, R)" "oks = ok # oks1"
    using Cons.prems(1) by (auto simp: req split: option.splits)
  note fr = try_consume_frame [OF one]
  show ?case
  proof (cases "d = c")
    case False
    then show ?thesis using Cons.IH [OF rest(1)] Cons.prems fr by (simp add: req rest quantum_def)
  next
    case True
    obtain b1 where b1: "refill_bucket now R0 (bucket_of R0 c) = Some b1" "ok \<longleftrightarrow> n \<le> tb_tokens b1"
      "map_of (rl_buckets R1) c = Some (b1\<lparr>tb_tokens := tb_tokens b1 - (if ok then n else 0)\<rparr>)"
      using try_consume_bucket [of now c n R0 ok R1] one True by blast
    then have full: "b1 = \<lparr>tb_tokens = rl_max_tokens R0, tb_last_refill = now\<rparr>"
      using Cons.prems(3) by (simp add: bucket_of_def refill_bucket_def)
    let ?b2 = "b1\<lparr>tb_tokens := tb_tokens b1 - (if ok then n else 0)\<rparr>"
    have now: "0 < now" "t0 \<le> now" "now \<le> t1" using Cons.prems(5,7) by (auto simp: req)
    have "int (granted c reqs oks1) \<le> int (unat (tb_tokens ?b2)) + (t1 - now) div quantum R1"
      using granted_bound [OF rest(1) _ b1(3), of t1] Cons.prems now fr by (simp add: full req)
    moreover have "(t1 - now) div quantum R1 \<le> (t1 - t0) div quantum R0"
      using now fr Cons.prems(2) by (simp add: quantum_def zdiv_mono1)
    moreover have "(if ok then unat n else 0) + unat (tb_tokens ?b2) = unat (rl_max_tokens R0)"
      using b1(2) by (auto simp: full unat_sub word_le_nat_alt)
    then have "int (if ok then unat n else 0) + int (unat (tb_tokens ?b2)) = int (unat (rl_max_tokens R0))"
      by (metis of_nat_add)
    moreover have "int (granted c (req # reqs) oks) = int (if ok then unat n else 0) + int (granted c reqs oks1)"
      using True by (simp add: req rest)
    ultimately show ?thesis by linarith
  qed
qed

lemma rl_run_returns:
  "0 < rl_refill_interval R \<Longrightarrow> \<exists>oks R'. rl_run reqs R = Some (oks, R') \<and> length oks = length reqs"
proof (induction reqs arbitrary: R)
  case (Cons req reqs)
  obtain now c n where req: "req = (now, c, n)" by (cases req)
  obtain b1 where "refill_bucket now R (bucket_of R c) = Some b1"
    using Cons.prems by (fastforce simp: refill_bucket_def Let_def)
  then obtain ok R1 where one: "try_consume now c n R = Some (ok, R1)"
    by (cases "n \<le> tb_tokens b1") (simp_all add: try_consume_def bucket_of_def)
  then have "0 < rl_refill_interval R1" using try_consume_frame(2) Cons.prems by simp
  from Cons.IH [OF this] one show ?case by (auto simp: req)
qed simp


definition ex_requests :: "(int \<times> string \<times> u32) list" where
  "ex_requests = [(5, ''a'', 1), (6, ''a'', 1), (7, ''a'', 1), (1000000007, ''a'', 1)]"


section \<open>Authenticated messages\<close>

lemma nth_to_le: "k < n \<Longrightarrow> to_le n w ! k = ucast (drop_bit (8 * k) w)"
proof (induction n arbitrary: w k)
  case (Suc n)
  then show ?case by (cases k) (simp_all add: add.commute)
qed simp

lemma to_le_le:
  assumes "length bs = n" "8 * n \<le> LENGTH('a)"
  shows "to_le n (le bs :: 'a::len word) = bs"
proof (rule nth_equalityI)
  fix k
  assume "k < length (to_le n (le bs :: 'a word))"
  then have k: "k < n" by simp
  show "to_le n (le bs :: 'a word) ! k = bs ! k"
  proof (rule bit_word_eqI)
    fix j
    assume "j < LENGTH(8)"
    then have j: "j < 8" by simp
    then have "8 * k + j < LENGTH('a)" "(8 * k + j) div 8 = k" "(8 * k + j) mod 8 = j" using k assms(2) by auto
    then show "bit (to_le n (le bs :: 'a word) ! k) j = bit (bs ! k) j"
      using k j assms(1) by (simp add: nth_to_le bit_ucast_iff bit_drop_bit_eq bit_le)
  qed
qed (simp add: assms)

lemma length_auth_header: "length padding = 4 \<Longrightarrow> length (auth_header seq n padding) = 16"
  by (simp add: auth_header_def)

lemma auth_header_size: "le (field 8 4 (auth_header seq n padding @ rest)) = n"
  by (simp add: auth_header_def field_at [of 8])

lemma sixteen_bytes:
  assumes "16 \<le> length bs"
  shows "bs = auth_header (le (field 0 8 bs)) (le (field 8 4 bs)) (field 12 4 bs) @ drop 16 bs"
proof -
  have "to_le 8 (le (field 0 8 bs) :: u64) = field 0 8 bs" "to_le 4 (le (field 8 4 bs) :: u32) = field 8 4 bs"
    using assms by (simp_all add: to_le_le field_def)
  then show ?thesis
    using append_take_drop_id [of 8 bs] append_take_drop_id [of 4 "drop 8 bs"] append_take_drop_id [of 4 "drop 12 bs"]
    by (simp add: auth_header_def field_def)
qed

lemma broadcast_accepted:
  "verify_message_authenticity hmac (Some bs) B = Inr True \<longleftrightarrow>
     (\<exists>seq padding payload code. hmac (bs_view (ub_hmac_key B)) payload = Some code \<and> length code < 2 ^ 32 \<and>
        length padding = 4 \<and> bs = auth_header seq (of_nat (length code)) padding @ payload @ code)"
proof
  assume v: "verify_message_authenticity hmac (Some bs) B = Inr True"
  let ?n = "le (field 8 4 bs) :: u32"
  define payload where "payload = take (length bs - 16 - unat ?n) (drop 16 bs)"
  have len: "16 + unat ?n \<le> length bs" using v
    by (auto simp: verify_message_authenticity_def Let_def AUTH_HEADER_SIZE_def split: if_splits)
  obtain code where code: "hmac (bs_view (ub_hmac_key B)) payload = Some code" "length code = unat ?n"
    "code = drop (16 + (length bs - 16 - unat ?n)) bs"
    using v len by (auto simp: verify_message_authenticity_def Let_def AUTH_HEADER_SIZE_def compute_hmac_def payload_def
      split: if_splits option.splits)
  have "drop 16 bs = payload @ code"
    using append_take_drop_id [of "length bs - 16 - unat ?n" "drop 16 bs"] code(3) by (simp add: payload_def add.commute)
  moreover have "bs = auth_header (le (field 0 8 bs)) ?n (field 12 4 bs) @ drop 16 bs" using sixteen_bytes len by simp
  moreover have "length (field 12 4 bs) = 4" "of_nat (length code) = ?n" "length code < 2 ^ 32"
    using len code(2) unsigned_less [of ?n, where 'a = nat] by (auto simp: field_def)
  ultimately show "\<exists>seq padding payload code. hmac (bs_view (ub_hmac_key B)) payload = Some code \<and> length code < 2 ^ 32 \<and>
      length padding = 4 \<and> bs = auth_header seq (of_nat (length code)) padding @ payload @ code"
    using code(1) by metis
next
  assume "\<exists>seq padding payload code. hmac (bs_view (ub_hmac_key B)) payload = Some code \<and> length code < 2 ^ 32 \<and>
      length padding = 4 \<and> bs = auth_header seq (of_nat (length code)) padding @ payload @ code"
  then obtain seq padding payload code where c: "hmac (bs_view (ub_hmac_key B)) payload = Some code" "length code < 2 ^ 32"
    "length padding = 4" and bs: "bs = auth_header seq (of_nat (length code)) padding @ payload @ code" by blast
  have "unat (of_nat (length code) :: u32) = length code" using c(2) by (simp add: unat_of_nat)
  moreover have "length (auth_header seq (of_nat (length code)) padding) = 16" using length_auth_header [OF c(3)] .
  ultimately show "verify_message_authenticity hmac (Some bs) B = Inr True"
    using c(1) by (simp add: verify_message_authenticity_def Let_def AUTH_HEADER_SIZE_def bs auth_header_size compute_hmac_def)
qed

text \<open>
  Claim C30. A datagram is accepted exactly when it is a header, a payload and the code of that
  payload under the key, with the size of the code in the header. The sequence number and the
  padding may be anything: the code does not cover them.
\<close>

theorem broadcast_accepts_exactly:
  "verify_message_authenticity hmac (Some bs) B = Inr True \<longleftrightarrow>
     (\<exists>seq padding payload code. hmac (bs_view (ub_hmac_key B)) payload = Some code \<and> length code < 2 ^ 32 \<and>
        length padding = 4 \<and> bs = auth_header seq (of_nat (length code)) padding @ payload @ code)"
  by (rule broadcast_accepted)

text \<open>What a buffer holds, and what writing and appending add.\<close>

definition holds :: "u64 \<Rightarrow> byte list \<Rightarrow> fixed_buffer \<Rightarrow> bool" where
  "holds cap bs b \<longleftrightarrow> length (xb_data b) = unat cap \<and> unat (xb_used b) = length bs \<and> length bs \<le> unat cap \<and>
     take (length bs) (xb_data b) = bs"

lemma holds_append:
  assumes "holds cap bs b" "length bs + length src \<le> unat cap"
  shows "\<exists>b'. xb_append cap src (of_nat (length src)) b = Inr b' \<and> holds cap (bs @ src) b'"
proof -
  have cap: "unat cap < 2 ^ 64" using unsigned_less [of cap, where 'a = nat] by simp
  have n: "unat (of_nat (length src) :: u64) = length src" using assms(2) cap by (simp add: unat_of_nat)
  have sum: "unat (xb_used b + of_nat (length src)) = length bs + length src"
    using assms cap n by (simp add: holds_def unat_word_ariths)
  then have "\<not> cap < xb_used b + of_nat (length src)" using assms(2) by (simp add: word_less_nat_alt)
  then show ?thesis
    using assms n sum by (simp add: xb_append_def memcpy_into_def holds_def)
qed

lemma holds_write:
  assumes "length src \<le> unat cap"
  shows "\<exists>b. xb_write cap src (of_nat (length src)) (xb_new cap) = Inr b \<and> holds cap src b"
proof -
  have n: "unat (of_nat (length src) :: u64) = length src"
    using assms unsigned_less [of cap, where 'a = nat] by (simp add: unat_of_nat)
  then have "\<not> cap < of_nat (length src)" using assms by (simp add: word_less_nat_alt)
  then show ?thesis using assms n by (simp add: xb_write_def xb_new_def memcpy_into_def holds_def)
qed

text \<open>
  A payload that fits with its header and code into the buffer is sent without an
  overflow: the datagram is the header with the next sequence number, the payload and its code,
  the sequence number advances, and every holder of the key accepts the datagram. A payload that
  does not fit is refused and changes nothing.
\<close>

theorem broadcast_roundtrip:
  assumes "length padding = 4" "hmac (bs_view (ub_hmac_key B)) data = Some code"
    and "length data < 2 ^ 32" "length code < 2 ^ 32" "ub_hmac_key B' = ub_hmac_key B"
    and "d = auth_header (ub_sequence_number B) (of_nat (length code)) padding @ data @ code"
  shows "send_authenticated_message hmac padding True True data B =
     (if 16 + length data + length code \<le> 8192
      then Inr (Inr (), B\<lparr>ub_sequence_number := ub_sequence_number B + 1\<rparr>, Some d)
      else Inr (Inl MEMORY_BUFFER_OVERFLOW, B, None)) \<and>
   verify_message_authenticity hmac (Some d) B' = Inr True"
proof -
  let ?h = "auth_header (ub_sequence_number B) (of_nat (length code)) padding"
  let ?total = "16 + length data + length code"
  have h: "length ?h = 16" using length_auth_header [OF assms(1)] .
  have total: "unat (of_nat ?total :: u64) = ?total" using assms(3,4) by (simp add: unat_of_nat del: of_nat_add)
  then have fits: "AUTH_BUFFER_SIZE < of_nat ?total \<longleftrightarrow> 8192 < ?total"
    by (simp add: AUTH_BUFFER_SIZE_def word_less_nat_alt del: of_nat_add)
  have "send_authenticated_message hmac padding True True data B =
      Inr (Inr (), B\<lparr>ub_sequence_number := ub_sequence_number B + 1\<rparr>, Some d)" if le: "?total \<le> 8192"
  proof -
    have cap: "unat AUTH_BUFFER_SIZE = 8192" by (simp add: AUTH_BUFFER_SIZE_def)
    obtain b1 where b1: "xb_write AUTH_BUFFER_SIZE ?h 16 (xb_new AUTH_BUFFER_SIZE) = Inr b1" "holds AUTH_BUFFER_SIZE ?h b1"
      using holds_write [of ?h AUTH_BUFFER_SIZE] h cap by auto
    obtain b2 where b2: "xb_append AUTH_BUFFER_SIZE data (of_nat (length data)) b1 = Inr b2"
      "holds AUTH_BUFFER_SIZE (?h @ data) b2"
      using holds_append [OF b1(2), of data] h cap le by auto
    obtain b3 where b3: "xb_append AUTH_BUFFER_SIZE code (of_nat (length code)) b2 = Inr b3"
      "holds AUTH_BUFFER_SIZE ((?h @ data) @ code) b3"
      using holds_append [OF b2(2), of code] h cap le by auto
    have "take (unat (xb_used b3)) (xb_data b3) = d" using b3(2) by (simp add: holds_def assms(6))
    moreover have "\<not> AUTH_BUFFER_SIZE < of_nat ?total" using fits le by simp
    ultimately show ?thesis
      using b1(1) b2(1) b3(1) assms(2)
      by (simp add: send_authenticated_message_def compute_hmac_def AUTH_HEADER_SIZE_def Let_def)
  qed
  moreover have "send_authenticated_message hmac padding True True data B = Inr (Inl MEMORY_BUFFER_OVERFLOW, B, None)"
    if "\<not> ?total \<le> 8192"
    using that fits assms(2) by (simp add: send_authenticated_message_def compute_hmac_def AUTH_HEADER_SIZE_def)
  moreover have "verify_message_authenticity hmac (Some d) B' = Inr True"
    using assms by (auto simp: broadcast_accepted)
  ultimately show ?thesis by simp
qed

theorem broadcast_roundtrip_witness:
  "\<exists>B d. send_authenticated_message (\<lambda>key data. Some [7]) [0, 0, 0, 0] True True [1, 2, 3] B =
     Inr (Inr (), B\<lparr>ub_sequence_number := 2\<rparr>, Some d) \<and>
     verify_message_authenticity (\<lambda>key data. Some [7]) (Some d) B = Inr True"
proof -
  let ?B = "ub_new (bs_default 64)"
  let ?d = "auth_header (ub_sequence_number ?B) (of_nat (length [7 :: byte])) [0, 0, 0, 0] @ [1, 2, 3] @ [7]"
  have "send_authenticated_message (\<lambda>key data. Some [7]) [0, 0, 0, 0] True True [1, 2, 3] ?B =
     (if 16 + length [1, 2, 3 :: byte] + length [7 :: byte] \<le> 8192
      then Inr (Inr (), ?B\<lparr>ub_sequence_number := ub_sequence_number ?B + 1\<rparr>, Some ?d)
      else Inr (Inl MEMORY_BUFFER_OVERFLOW, ?B, None)) \<and>
     verify_message_authenticity (\<lambda>key data. Some [7]) (Some ?d) ?B = Inr True"
    by (rule broadcast_roundtrip) simp_all
  then show ?thesis by (intro exI [of _ ?B] exI [of _ ?d]) (simp add: ub_new_def)
qed

section \<open>Sessions\<close>

text \<open>The operations on sessions, each at a time.\<close>

datatype session_op = Create "byte list" string | Check string | Invalidate string | Cleanup

definition session_step :: "int \<times> session_op \<Rightarrow> authenticator \<Rightarrow> authenticator" where
  "session_step e A =
     (case e of (now, op) \<Rightarrow> (case op of
        Create bs c \<Rightarrow> (case create_session (Some bs) now c A of None \<Rightarrow> A | Some (t, A1) \<Rightarrow> A1)
      | Check t \<Rightarrow> snd (au_validate_session now t A)
      | Invalidate t \<Rightarrow> invalidate_session t A
      | Cleanup \<Rightarrow> cleanup_expired_sessions now A))"

fun touches :: "string \<Rightarrow> session_op \<Rightarrow> bool" where
  "touches tok (Create bs c) \<longleftrightarrow> concat (map hex_byte bs) = tok"
| "touches tok (Invalidate t) \<longleftrightarrow> t = tok"
| "touches tok _ \<longleftrightarrow> False"

text \<open>At time \<open>u\<close> the session made at \<open>t\<close> is still there, or it is over.\<close>

definition session_state :: "string \<Rightarrow> int \<Rightarrow> int \<Rightarrow> authenticator \<Rightarrow> bool" where
  "session_state tok t u A \<longleftrightarrow> distinct (map fst (au_sessions A)) \<and>
     (case map_of (au_sessions A) tok of Some s \<Rightarrow> se_created s = t | None \<Rightarrow> au_session_timeout A < u - t)"

lemma distinct_map_filter: "distinct (map f xs) \<Longrightarrow> distinct (map f (filter P xs))"
  by (induction xs) auto

lemma map_of_filter:
  "distinct (map fst al) \<Longrightarrow>
   map_of (filter (\<lambda>(k, v). P v) al) x = (case map_of al x of Some v \<Rightarrow> if P v then Some v else None | None \<Rightarrow> None)"
  by (induction al) (auto split: option.split simp: map_of_eq_None_iff image_iff dest: map_of_SomeD)

lemma session_step_keeps:
  assumes "session_state tok t u A" "u \<le> now" "\<not> touches tok op"
  shows "session_state tok t now (session_step (now, op) A) \<and>
    au_session_timeout (session_step (now, op) A) = au_session_timeout A"
proof (cases op)
  case (Create bs c)
  then show ?thesis
    using assms by (auto simp: session_step_def create_session_def generate_session_token_def session_state_def
      simp del: map_of_eq_Some_iff split: option.splits)
next
  case (Check t')
  then show ?thesis
    using assms by (auto simp: session_step_def au_validate_session_def session_state_def
      simp del: map_of_eq_Some_iff split: option.splits if_splits)
next
  case (Invalidate t')
  then show ?thesis
    using assms by (auto simp: session_step_def invalidate_session_def session_state_def
      simp del: map_of_eq_Some_iff split: option.splits)
next
  case Cleanup
  then show ?thesis
    using assms
    by (auto simp: session_step_def cleanup_expired_sessions_def session_state_def map_of_filter distinct_map_filter
      simp del: map_of_eq_Some_iff split: option.splits)
qed

lemma session_run_keeps:
  assumes "session_state tok t u A" "sorted (u # map fst ops)" "\<forall>e\<in>set ops. \<not> touches tok (snd e) \<and> fst e \<le> now" "u \<le> now"
  shows "\<exists>v\<le>now. session_state tok t v (fold session_step ops A) \<and>
    au_session_timeout (fold session_step ops A) = au_session_timeout A"
  using assms
proof (induction ops arbitrary: A u)
  case (Cons e ops)
  obtain v op where e: "e = (v, op)" by force
  have "session_state tok t v (session_step e A) \<and> au_session_timeout (session_step e A) = au_session_timeout A"
    using session_step_keeps [of tok t u A v op] Cons.prems by (simp add: e)
  with Cons.IH [of v "session_step e A"] Cons.prems show ?case by (simp add: e)
qed auto

text \<open>
  Claim C31. A session lives exactly as long as its timeout: whatever else happens to other
  sessions and however often it is checked or expired sessions are removed, its token is
  accepted at a later time if and only if the timeout since its creation has not passed.
\<close>

theorem session_lives_until_its_timeout:
  assumes "distinct (map fst (au_sessions A))" "create_session (Some bs) t c A = Some (tok, A0)"
    and "sorted (t # map fst ops)" "\<forall>e\<in>set ops. \<not> touches tok (snd e) \<and> fst e \<le> now" "t \<le> now"
  shows "fst (au_validate_session now tok (fold session_step ops A0)) \<longleftrightarrow> now - t \<le> au_session_timeout A"
proof -
  have A0: "session_state tok t t A0" "au_session_timeout A0 = au_session_timeout A"
    using assms(1,2) by (auto simp: create_session_def generate_session_token_def session_state_def)
  from session_run_keeps [OF A0(1) assms(3-5)] obtain v where
    "v \<le> now" "session_state tok t v (fold session_step ops A0)" "au_session_timeout (fold session_step ops A0) = au_session_timeout A"
    using A0(2) by auto
  then show ?thesis
    by (auto simp: session_state_def au_validate_session_def simp del: map_of_eq_Some_iff split: option.splits)
qed

theorem session_lives_until_its_timeout_witness:
  "\<exists>tok A. create_session (Some [1, 2]) 10 ''alice'' (au_new 100) = Some (tok, A) \<and>
     fst (au_validate_session 110 tok (fold session_step [(50, Cleanup), (60, Check tok)] A))"
proof -
  obtain tok A where c: "create_session (Some [1, 2]) 10 ''alice'' (au_new 100) = Some (tok, A)"
    by (simp add: create_session_def generate_session_token_def)
  have "fst (au_validate_session 110 tok (fold session_step [(50, Cleanup), (60, Check tok)] A)) \<longleftrightarrow>
      (110 :: int) - 10 \<le> au_session_timeout (au_new 100)"
    by (rule session_lives_until_its_timeout [OF _ c]) (simp_all add: au_new_def)
  with c show ?thesis by (auto simp: au_new_def)
qed

text \<open>Different random bytes give different tokens.\<close>

lemma hex_digit_inj: "m < 16 \<Longrightarrow> n < 16 \<Longrightarrow> hex_digit m = hex_digit n \<Longrightarrow> m = n"
proof -
  assume h: "m < 16" "n < 16" "hex_digit m = hex_digit n"
  have k: "(of_char (hex_digit k) :: nat) = (if k < 10 then 48 + k else 87 + k)" if "k < 16" for k
    using that by (simp add: hex_digit_def)
  have "(if m < 10 then 48 + m else 87 + m) = (if n < 10 then 48 + n else 87 + n)"
    unfolding k [OF h(1), symmetric] k [OF h(2), symmetric] h(3) ..
  then show "m = n" by (simp split: if_splits)
qed

lemma hex_byte_inj: "hex_byte a = hex_byte b \<Longrightarrow> a = b"
proof -
  assume "hex_byte a = hex_byte b"
  moreover have "unat x div 16 < 16" for x :: byte using unsigned_less [of x, where 'a = nat] by simp
  ultimately have "unat a div 16 = unat b div 16" "unat a mod 16 = unat b mod 16"
    by (auto simp: hex_byte_def intro: hex_digit_inj)
  then have "unat a = unat b" using div_mult_mod_eq [of "unat a" 16] div_mult_mod_eq [of "unat b" 16] by linarith
  then have "(of_nat (unat a) :: byte) = of_nat (unat b)" by (rule arg_cong)
  then show "a = b" by simp
qed

lemma session_tokens_differ:
  "length bs = length cs \<Longrightarrow> generate_session_token (Some bs) = generate_session_token (Some cs) \<Longrightarrow> bs = cs"
proof (induction bs cs rule: list_induct2)
  case (Cons b bs c cs)
  then have "hex_byte b = hex_byte c" "concat (map hex_byte bs) = concat (map hex_byte cs)"
    by (auto simp: generate_session_token_def hex_byte_def)
  then show ?case using Cons.IH hex_byte_inj by (simp add: generate_session_token_def)
qed simp

section \<open>Blocked addresses\<close>

datatype ip_event = Connection int string | Failure int string

fun ip_step :: "ip_event \<Rightarrow> network_monitor \<Rightarrow> network_monitor" where
  "ip_step (Connection now ip) M = record_connection now ip M"
| "ip_step (Failure now ip) M = record_authentication_failure now ip M"

definition connections :: "string \<Rightarrow> ip_event list \<Rightarrow> nat" where
  "connections ip es = length (filter (\<lambda>e. \<exists>now. e = Connection now ip) es)"

definition failures :: "string \<Rightarrow> ip_event list \<Rightarrow> nat" where
  "failures ip es = length (filter (\<lambda>e. \<exists>now. e = Failure now ip) es)"

lemma ip_step_counts:
  "im_connection_count (ip_of (ip_step e M) ip) = im_connection_count (ip_of M ip) + (if \<exists>now. e = Connection now ip then 1 else 0)"
  "im_auth_failures (ip_of (ip_step e M) ip) = im_auth_failures (ip_of M ip) + (if \<exists>now. e = Failure now ip then 1 else 0)"
  by (cases e; auto simp: record_connection_def record_authentication_failure_def generate_security_alert_def ip_of_def Let_def
    split: option.split)+

lemma ip_run_counts:
  "im_connection_count (ip_of (fold ip_step es M) ip) = im_connection_count (ip_of M ip) + of_nat (connections ip es) \<and>
   im_auth_failures (ip_of (fold ip_step es M) ip) = im_auth_failures (ip_of M ip) + of_nat (failures ip es)"
  by (induction es arbitrary: M) (simp_all add: connections_def failures_def ip_step_counts)

lemma should_block_counts:
  "fst (should_block_connection ip M) \<longleftrightarrow> 10 < im_connection_count (ip_of M ip) \<or> 5 < im_auth_failures (ip_of M ip)"
  by (auto simp: should_block_connection_def ip_of_def fresh_ip_def MAX_CONNECTIONS_PER_IP_def MAX_AUTH_FAILURES_def
    split: option.split)

text \<open>
  After any sequence of connections and authentication failures of any addresses, an
  address is blocked exactly when it has made more than ten connections, open or closed by now,
  or failed to authenticate more than five times.
\<close>

theorem monitor_blocks_exactly:
  assumes "length es < 2 ^ 32"
  shows "fst (should_block_connection ip (fold ip_step es nm_new)) \<longleftrightarrow> 10 < connections ip es \<or> 5 < failures ip es"
proof -
  have "connections ip es \<le> length es" "failures ip es \<le> length es" by (simp_all add: connections_def failures_def)
  then have "unat (of_nat (connections ip es) :: u32) = connections ip es" "unat (of_nat (failures ip es) :: u32) = failures ip es"
    using assms by (simp_all add: unat_of_nat)
  then show ?thesis
    unfolding should_block_counts conjunct1 [OF ip_run_counts] conjunct2 [OF ip_run_counts]
    by (simp add: nm_new_def ip_of_def fresh_ip_def word_less_nat_alt)
qed

theorem monitor_blocks_exactly_witness:
  "fst (should_block_connection ''10.0.0.1'' (fold ip_step (replicate 6 (Failure 1 ''10.0.0.1'')) nm_new)) \<and>
   \<not> fst (should_block_connection ''10.0.0.1'' (fold ip_step (replicate 5 (Failure 1 ''10.0.0.1'')) nm_new))"
  using monitor_blocks_exactly [of "replicate 6 (Failure 1 ''10.0.0.1'')" "''10.0.0.1''"]
    monitor_blocks_exactly [of "replicate 5 (Failure 1 ''10.0.0.1'')" "''10.0.0.1''"]
  by (simp add: connections_def failures_def filter_replicate)

section \<open>Secure connections\<close>

lemma accept_channel:
  assumes "accept_secure_connection C T H = (r, H')" "ta_ssl_new T \<notin> fst ` set (ch_ssls H)"
  shows "case r of
       Inl e \<Rightarrow> H' = H
     | Inr h \<Rightarrow> h = ucast (ta_ssl_new T) \<and> ta_ssl_new T \<noteq> 0 \<and> 0 \<le> ta_accept T \<and>
         H' = H\<lparr>ch_sockets := ta_accept T # ch_sockets H, ch_ssls := (ta_ssl_new T, ta_accept T) # ch_ssls H\<rparr> \<and>
         (cg_require_client_certs C \<longrightarrow> ta_peer_certificate T \<and> ta_verify_ok T)"
proof -
  have "filter (\<lambda>(s, fd). s \<noteq> ta_ssl_new T) (ch_ssls H) = ch_ssls H" using assms(2) by (auto simp: filter_id_conv image_iff)
  then show ?thesis
    using assms(1)
    by (auto simp: accept_secure_connection_def verify_client_certificate_def close_socket_def ssl_free_def Let_def
      split: if_splits sum.splits)
qed

text \<open>
  Claim C32. When the address of the SSL object survives its way through the type \<open>int\<close>, accepting
  a connection never uses a wrong pointer and leaks nothing: every refusal leaves the sockets and
  SSL objects as they were, and a success adds one of each for a client with a name in its
  certificate, which was verified where certificates are required.
\<close>

theorem secure_accept_leaks_nothing:
  assumes "pointer_of_int (ucast (ta_ssl_new T)) = ta_ssl_new T" "ta_ssl_new T \<notin> fst ` set (ch_ssls (nl_channel N))"
  shows "\<exists>r N'. accept_secure_tcp_connection T N = Some (r, N') \<and>
    (case r of
       Inl e \<Rightarrow> nl_channel N' = nl_channel N
     | Inr (h, client_id) \<Rightarrow> client_id = ta_common_name T \<and> client_id \<noteq> [] \<and> ta_peer_certificate T \<and>
         (cg_require_client_certs (nl_config N) \<longrightarrow> ta_verify_ok T) \<and> pointer_of_int h = ta_ssl_new T \<and>
         ch_sockets (nl_channel N') = ta_accept T # ch_sockets (nl_channel N) \<and>
         ch_ssls (nl_channel N') = (ta_ssl_new T, ta_accept T) # ch_ssls (nl_channel N))"
proof -
  obtain r H' where acc: "accept_secure_connection (nl_config N) T (nl_channel N) = (r, H')" by force
  note ac = accept_channel [OF acc assms(2)]
  show ?thesis
  proof (cases r)
    case (Inl e)
    then show ?thesis using acc ac by (simp add: accept_secure_tcp_connection_def)
  next
    case (Inr h)
    have kept: "filter (\<lambda>(s, fd). s \<noteq> ta_ssl_new T) (ch_ssls (nl_channel N)) = ch_ssls (nl_channel N)"
      using assms(2) by (auto simp: filter_id_conv image_iff)
    show ?thesis
      using Inr acc ac assms(1) kept
      by (auto simp: accept_secure_tcp_connection_def authenticate_certificate_def close_connection_def close_socket_def
        ssl_free_def Let_def)
  qed
qed

definition ex_tls :: tls_answers where
  "ex_tls = \<lparr>ta_accept = 7, ta_ssl_new = 4096, ta_ssl_accept = 1, ta_peer_certificate = True, ta_verify_ok = True,
     ta_common_name = ''bob''\<rparr>"

definition ex_layer :: network_layer where
  "ex_layer = nl_new \<lparr>cg_tls_cert_file = ''c'', cg_tls_key_file = ''k'', cg_ca_cert_file = [], cg_hmac_key = bs_default 64,
     cg_max_connections_per_ip = 10, cg_rate_limit_per_second = 1000, cg_session_timeout = 3600000000000,
     cg_require_client_certs = True\<rparr>"

theorem secure_accept_leaks_nothing_witness:
  "\<exists>r N'. accept_secure_tcp_connection ex_tls ex_layer = Some (r, N') \<and> r = Inr (4096, ''bob'') \<and>
     ch_ssls (nl_channel N') = [(4096, 7)]"
proof -
  have "\<exists>r N'. accept_secure_tcp_connection ex_tls ex_layer = Some (r, N') \<and>
    (case r of
       Inl e \<Rightarrow> nl_channel N' = nl_channel ex_layer
     | Inr (h, client_id) \<Rightarrow> client_id = ta_common_name ex_tls \<and> client_id \<noteq> [] \<and> ta_peer_certificate ex_tls \<and>
         (cg_require_client_certs (nl_config ex_layer) \<longrightarrow> ta_verify_ok ex_tls) \<and> pointer_of_int h = ta_ssl_new ex_tls \<and>
         ch_sockets (nl_channel N') = ta_accept ex_tls # ch_sockets (nl_channel ex_layer) \<and>
         ch_ssls (nl_channel N') = (ta_ssl_new ex_tls, ta_accept ex_tls) # ch_ssls (nl_channel ex_layer))"
    by (rule secure_accept_leaks_nothing) (simp_all add: ex_tls_def ex_layer_def nl_new_def pointer_of_int_def)
  moreover have "map_option fst (accept_secure_tcp_connection ex_tls ex_layer) = Some (Inr (4096, ''bob''))" by code_simp
  ultimately show ?thesis by (auto simp: ex_tls_def ex_layer_def nl_new_def)
qed

text \<open>A pointer above the first two gigabytes does not survive.\<close>

lemma high_addresses_are_lost:
  assumes "2 ^ 31 \<le> unat ssl" "unat ssl < 2 ^ 64 - 2 ^ 31"
  shows "pointer_of_int (ucast ssl) \<noteq> ssl"
proof
  assume "pointer_of_int (ucast ssl) = ssl"
  then have "sint (scast (ucast ssl :: u32) :: u64) = sint ssl" by (simp add: pointer_of_int_def)
  moreover have "sint (scast (ucast ssl :: u32) :: u64) = sint (ucast ssl :: u32)" by (simp add: sint_up_scast is_up)
  moreover have "- (2 ^ 31) \<le> sint (ucast ssl :: u32)" "sint (ucast ssl :: u32) < 2 ^ 31"
    using sint_ge [of "ucast ssl :: u32"] sint_lt [of "ucast ssl :: u32"] by simp_all
  moreover have "take_bit 64 (uint ssl) = uint ssl"
    using unsigned_less [of ssl, where 'a = int] by (simp add: take_bit_int_eq_self_iff)
  then have "uint ssl = sint ssl \<or> uint ssl = sint ssl + 2 ^ 64"
    by (simp add: sint_uint signed_take_bit_eq_take_bit_minus)
  moreover have "int (2 ^ 31) \<le> int (unat ssl)" "int (unat ssl) < int (2 ^ 64 - 2 ^ 31)"
    using assms by (simp_all only: of_nat_le_iff of_nat_less_iff)
  then have "2 ^ 31 \<le> uint ssl" "uint ssl < 2 ^ 64 - 2 ^ 31" by simp_all
  ultimately show False by linarith
qed

end
