(* ===== verification/RTES_Thread_Safety.thy ===== *)
theory RTES_Thread_Safety
  imports RTES_Prelude "HOL-Library.Multiset" "HOL-Library.Sublist"
begin

text \<open>
  The utilities for threads (\<^verbatim>\<open>include/rtes/thread_safety.hpp\<close>, \<^verbatim>\<open>src/thread_safety.cpp\<close>): the
  deadlock detector with the scoped lock that uses it, the shutdown manager, the work drainer, the
  validator of lock orders and the race detector. Threads, locks and addresses are numbers. A
  function that holds the mutex of its object is one step. The wrappers of atomics and of
  condition variables only forward to the standard library and are left out.
\<close>

type_synonym thread = nat
type_synonym lock = nat

section \<open>DeadlockDetector\<close>

record deadlock_detector =
  dd_thread_locks :: "(thread \<times> lock list) list"
  dd_lock_owners :: "(lock \<times> thread) list"

definition dd_new :: deadlock_detector where "dd_new = \<lparr>dd_thread_locks = [], dd_lock_owners = []\<rparr>"

definition locks_of :: "deadlock_detector \<Rightarrow> thread \<Rightarrow> lock list" where
  "locks_of D t = (case map_of (dd_thread_locks D) t of None \<Rightarrow> [] | Some ls \<Rightarrow> ls)"

definition register_lock_acquisition :: "thread \<Rightarrow> lock \<Rightarrow> deadlock_detector \<Rightarrow> deadlock_detector" where
  "register_lock_acquisition t l D =
     D\<lparr>dd_thread_locks := AList.update t (locks_of D t @ [l]) (dd_thread_locks D),
       dd_lock_owners := AList.update l t (dd_lock_owners D)\<rparr>"

definition register_lock_release :: "thread \<Rightarrow> lock \<Rightarrow> deadlock_detector \<Rightarrow> deadlock_detector" where
  "register_lock_release t l D =
     D\<lparr>dd_thread_locks := AList.update t (removeAll l (locks_of D t)) (dd_thread_locks D),
       dd_lock_owners := AList.delete l (dd_lock_owners D)\<rparr>"

text \<open>The subscript inserts an empty entry for a thread without locks.\<close>

definition would_cause_deadlock :: "thread \<Rightarrow> lock \<Rightarrow> deadlock_detector \<Rightarrow> bool \<times> deadlock_detector" where
  "would_cause_deadlock t l D =
     (case map_of (dd_lock_owners D) l of
        None \<Rightarrow> (False, D)
      | Some owner \<Rightarrow>
          if owner = t then (False, D)
          else
            let current_locks = locks_of D t;
                D1 = D\<lparr>dd_thread_locks := AList.update t current_locks (dd_thread_locks D)\<rparr>
            in (list_ex (\<lambda>held. map_of (dd_lock_owners D) held = Some owner) current_locks, D1))"

section \<open>scoped_lock\<close>

text \<open>
  \<open>lw_held\<close> says which thread holds a mutex. The constructor throws on a suspected deadlock and
  waits until every mutex is free, for ever when it is given a mutex twice or one that its own
  thread holds; the destructor tells the detector and nothing else.
\<close>

record lock_world =
  lw_detector :: deadlock_detector
  lw_held :: "(lock \<times> thread) list"

fun check_deadlocks :: "thread \<Rightarrow> lock list \<Rightarrow> deadlock_detector \<Rightarrow> bool \<times> deadlock_detector" where
  "check_deadlocks t [] D = (False, D)"
| "check_deadlocks t (l # ls) D =
     (case would_cause_deadlock t l D of
        (True, D1) \<Rightarrow> (True, D1)
      | (False, D1) \<Rightarrow> check_deadlocks t ls D1)"

datatype lock_outcome = Locked | Deadlock_suspected | Waiting

definition scoped_lock_new :: "thread \<Rightarrow> lock list \<Rightarrow> lock_world \<Rightarrow> lock_outcome \<times> lock_world" where
  "scoped_lock_new t ls W =
     (case check_deadlocks t ls (lw_detector W) of
        (True, D) \<Rightarrow> (Deadlock_suspected, W\<lparr>lw_detector := D\<rparr>)
      | (False, D) \<Rightarrow>
          if \<not> distinct ls \<or> list_ex (\<lambda>l. map_of (lw_held W) l \<noteq> None) ls then (Waiting, W\<lparr>lw_detector := D\<rparr>)
          else (Locked, W\<lparr>lw_detector := fold (register_lock_acquisition t) ls D,
                          lw_held := fold (\<lambda>l. AList.update l t) ls (lw_held W)\<rparr>))"

definition scoped_lock_destroy :: "thread \<Rightarrow> lock list \<Rightarrow> lock_world \<Rightarrow> lock_world" where
  "scoped_lock_destroy t ls W = W\<lparr>lw_detector := fold (register_lock_release t) ls (lw_detector W)\<rparr>"

section \<open>ShutdownManager\<close>

text \<open>
  A shutdown function changes the outside \<open>'w\<close>; the flag says that it threw. The counter of
  active components is an \<open>int\<close> that far fewer than 2 to the 31 registrations keep in range; \<open>iter\<close> is the order in which the hash table enumerates.
\<close>

type_synonym 'w shutdown_fn = "'w \<Rightarrow> bool \<times> 'w"

record 'w shutdown_manager =
  sm_requested :: bool
  sm_components :: "(string \<times> 'w shutdown_fn) list"
  sm_active :: int

definition sm_new :: "'w shutdown_manager" where
  "sm_new = \<lparr>sm_requested = False, sm_components = [], sm_active = 0\<rparr>"

definition register_component :: "string \<Rightarrow> 'w shutdown_fn \<Rightarrow> 'w shutdown_manager \<Rightarrow> 'w shutdown_manager" where
  "register_component nm fn S =
     S\<lparr>sm_components := AList.update nm fn (sm_components S), sm_active := sm_active S + 1\<rparr>"

fun call_all :: "(string \<times> 'w shutdown_fn) list \<Rightarrow> 'w \<Rightarrow> 'w" where
  "call_all [] w = w"
| "call_all ((nm, fn) # rest) w = (case fn w of (threw, w1) \<Rightarrow> call_all rest w1)"

definition initiate_shutdown ::
  "((string \<times> 'w shutdown_fn) list \<Rightarrow> (string \<times> 'w shutdown_fn) list) \<Rightarrow> 'w shutdown_manager \<times> 'w \<Rightarrow> 'w shutdown_manager \<times> 'w" where
  "initiate_shutdown iter st = (case st of (S, w) \<Rightarrow> (S\<lparr>sm_requested := True\<rparr>, call_all (iter (sm_components S)) w))"

text \<open>The condition for which \<open>wait_for_shutdown\<close> waits.\<close>

definition wait_for_shutdown_done :: "'w shutdown_manager \<Rightarrow> bool" where
  "wait_for_shutdown_done S \<longleftrightarrow> sm_requested S \<and> sm_active S = 0"

definition is_shutdown_requested :: "'w shutdown_manager \<Rightarrow> bool" where
  "is_shutdown_requested S = sm_requested S"

section \<open>WorkDrainer\<close>

text \<open>A work item is named; \<open>wd_done\<close> are the items that were run, oldest first.\<close>

record 'a work_drainer =
  wd_queue :: "'a list"
  wd_draining :: bool
  wd_done :: "'a list"

definition wd_new :: "'a work_drainer" where "wd_new = \<lparr>wd_queue = [], wd_draining = False, wd_done = []\<rparr>"

definition add_work_item :: "'a \<Rightarrow> 'a work_drainer \<Rightarrow> 'a work_drainer" where
  "add_work_item w D = (if wd_draining D then D else D\<lparr>wd_queue := wd_queue D @ [w]\<rparr>)"

text \<open>One turn of the loop of \<open>process_work\<close>; between turns other threads may act.\<close>

definition process_one :: "'a work_drainer \<Rightarrow> 'a work_drainer" where
  "process_one D =
     (case wd_queue D of
        [] \<Rightarrow> D
      | w # ws \<Rightarrow> if wd_draining D then D else D\<lparr>wd_queue := ws, wd_done := wd_done D @ [w]\<rparr>)"

text \<open>The flag is stored before the lock is taken; other threads may act between the two steps.\<close>

definition drain_flag :: "'a work_drainer \<Rightarrow> 'a work_drainer" where
  "drain_flag D = D\<lparr>wd_draining := True\<rparr>"

definition drain_clear :: "'a work_drainer \<Rightarrow> 'a work_drainer" where
  "drain_clear D = D\<lparr>wd_queue := []\<rparr>"

definition drain_work :: "'a work_drainer \<Rightarrow> 'a work_drainer" where
  "drain_work D = drain_clear (drain_flag D)"

section \<open>LockOrderValidator\<close>

type_synonym lock_graph = "(lock \<times> lock list) list"

definition register_lock_order :: "lock \<Rightarrow> lock \<Rightarrow> lock_graph \<Rightarrow> lock_graph" where
  "register_lock_order a b G =
     AList.update a ((case map_of G a of None \<Rightarrow> [] | Some bs \<Rightarrow> bs) @ [b]) G"

definition violates :: "lock_graph \<Rightarrow> lock \<Rightarrow> lock \<Rightarrow> bool" where
  "violates G a b = (case map_of G b of None \<Rightarrow> False | Some succs \<Rightarrow> a \<in> set succs)"

fun validate_lock_order :: "lock_graph \<Rightarrow> lock list \<Rightarrow> bool" where
  "validate_lock_order G [] = True"
| "validate_lock_order G (a # locks) = (\<not> list_ex (violates G a) locks \<and> validate_lock_order G locks)"

section \<open>RaceDetector\<close>

text \<open>Times are in nanoseconds; the second component says that a race was detected.\<close>

record memory_access =
  ma_thread :: thread
  ma_is_write :: bool
  ma_timestamp :: int

record race_detector =
  rd_accesses :: "(nat \<times> memory_access list) list"
  rd_race_detected :: bool

definition rd_new :: race_detector where "rd_new = \<lparr>rd_accesses = [], rd_race_detected = False\<rparr>"

definition accesses_of :: "race_detector \<Rightarrow> nat \<Rightarrow> memory_access list" where
  "accesses_of R addr = (case map_of (rd_accesses R) addr of None \<Rightarrow> [] | Some as \<Rightarrow> as)"

definition races_with :: "int \<Rightarrow> thread \<Rightarrow> bool \<Rightarrow> memory_access \<Rightarrow> bool" where
  "races_with now tid is_write a \<longleftrightarrow>
     ma_thread a \<noteq> tid \<and> (is_write \<or> ma_is_write a) \<and> now - ma_timestamp a < 100000"

definition register_memory_access :: "int \<Rightarrow> thread \<Rightarrow> nat \<Rightarrow> bool \<Rightarrow> race_detector \<Rightarrow> race_detector" where
  "register_memory_access now tid addr is_write R =
     (let as = accesses_of R addr
      in if list_ex (races_with now tid is_write) as
         then R\<lparr>rd_accesses := AList.update addr as (rd_accesses R), rd_race_detected := True\<rparr>
         else
           let as1 = as @ [\<lparr>ma_thread = tid, ma_is_write = is_write, ma_timestamp = now\<rparr>];
               as2 = filter (\<lambda>a. \<not> ma_timestamp a < now - 1000000) as1
           in R\<lparr>rd_accesses := AList.update addr as2 (rd_accesses R)\<rparr>)"

definition register_synchronization_point :: "race_detector \<Rightarrow> race_detector" where
  "register_synchronization_point R = R\<lparr>rd_accesses := []\<rparr>"

definition has_race_condition :: "race_detector \<Rightarrow> bool" where
  "has_race_condition R = rd_race_detected R"

section \<open>What the detector detects\<close>

text \<open>
  The registrations that the lock discipline produces: a lock is acquired when nobody owns it and
  released by its owner.
\<close>

inductive dd_run :: "deadlock_detector \<Rightarrow> bool" where
  dd_start: "dd_run dd_new"
| dd_acquire: "dd_run D \<Longrightarrow> map_of (dd_lock_owners D) l = None \<Longrightarrow> dd_run (register_lock_acquisition t l D)"
| dd_release: "dd_run D \<Longrightarrow> map_of (dd_lock_owners D) l = Some t \<Longrightarrow> dd_run (register_lock_release t l D)"
| dd_ask: "dd_run D \<Longrightarrow> would_cause_deadlock t l D = (b, D') \<Longrightarrow> dd_run D'"

definition dd_inv :: "deadlock_detector \<Rightarrow> bool" where
  "dd_inv D \<longleftrightarrow> (\<forall>t l. l \<in> set (locks_of D t) \<longrightarrow> map_of (dd_lock_owners D) l = Some t)"

lemma locks_of_simps:
  "locks_of (register_lock_acquisition t l D) u = (if u = t then locks_of D t @ [l] else locks_of D u)"
  "locks_of (register_lock_release t l D) u = (if u = t then removeAll l (locks_of D t) else locks_of D u)"
  "locks_of (snd (would_cause_deadlock t l D)) u = locks_of D u"
  by (auto simp: locks_of_def register_lock_acquisition_def register_lock_release_def would_cause_deadlock_def Let_def
    split: option.split)

lemma owners_simps:
  "dd_lock_owners (register_lock_acquisition t l D) = AList.update l t (dd_lock_owners D)"
  "dd_lock_owners (register_lock_release t l D) = AList.delete l (dd_lock_owners D)"
  "dd_lock_owners (snd (would_cause_deadlock t l D)) = dd_lock_owners D"
  by (auto simp: register_lock_acquisition_def register_lock_release_def would_cause_deadlock_def Let_def split: option.split)

lemma dd_run_inv: "dd_run D \<Longrightarrow> dd_inv D"
proof (induction rule: dd_run.induct)
  case dd_start
  then show ?case by (simp add: dd_inv_def dd_new_def locks_of_def)
next
  case (dd_acquire D l t)
  then show ?case by (auto simp: dd_inv_def locks_of_simps owners_simps)
next
  case (dd_release D l t)
  then show ?case by (auto simp: dd_inv_def locks_of_simps owners_simps split: if_splits)
next
  case (dd_ask D t l b D')
  then have "D' = snd (would_cause_deadlock t l D)" by simp
  with dd_ask show ?case by (simp add: dd_inv_def locks_of_simps owners_simps)
qed

text \<open>
  Under the discipline of locks, in which a lock is registered to one thread at a time,
  the deadlock detector never reports anything, whichever thread asks for whichever lock: it
  looks for a lock held by the asking thread that belongs to another one.
\<close>

theorem deadlock_detector_never_fires:
  assumes "dd_run D"
  shows "\<not> fst (would_cause_deadlock t l D)"
  using dd_run_inv [OF assms] by (auto simp: would_cause_deadlock_def Let_def dd_inv_def list_ex_iff split: option.split)

theorem deadlock_detector_never_fires_witness:
  "\<exists>D. dd_run D \<and> map_of (dd_lock_owners D) 1 = Some 10 \<and> map_of (dd_lock_owners D) 2 = Some 20 \<and>
     \<not> fst (would_cause_deadlock 10 2 D) \<and> \<not> fst (would_cause_deadlock 20 1 D)"
proof -
  let ?D1 = "register_lock_acquisition 10 1 dd_new"
  let ?D2 = "register_lock_acquisition 20 2 ?D1"
  have "dd_run ?D1" by (rule dd_acquire [OF dd_start]) (simp add: dd_new_def)
  then have D2: "dd_run ?D2" by (rule dd_acquire) (simp add: owners_simps dd_new_def)
  have "\<not> fst (would_cause_deadlock 10 2 ?D2)" "\<not> fst (would_cause_deadlock 20 1 ?D2)"
    by (rule deadlock_detector_never_fires [OF D2])+
  with D2 show ?thesis by (intro exI [of _ ?D2]) (simp add: owners_simps dd_new_def)
qed

section \<open>Scoped locks\<close>

inductive lock_run :: "lock_world \<Rightarrow> lock_world \<Rightarrow> bool" for W0 where
  lock_start: "lock_run W0 W0"
| lock_enter: "lock_run W0 W \<Longrightarrow> scoped_lock_new t ls W = (r, W') \<Longrightarrow> lock_run W0 W'"
| lock_leave: "lock_run W0 W \<Longrightarrow> lock_run W0 (scoped_lock_destroy t ls W)"

lemma fold_update_other:
  "map_of (fold (\<lambda>l. AList.update l t) ls al) x = (if x \<in> set ls then Some t else map_of al x)"
  by (induction ls arbitrary: al) auto

text \<open>
  A mutex that a scoped lock has locked stays locked for ever: no sequence of scopes of
  any threads, entered and left, makes it free again, so every later scope over it waits or
  throws.
\<close>

theorem scoped_lock_never_unlocks:
  assumes "lock_run W0 W" "map_of (lw_held W0) l = Some t" "l \<in> set ls"
  shows "map_of (lw_held W) l = Some t \<and> fst (scoped_lock_new u ls W) \<noteq> Locked"
proof -
  have "map_of (lw_held W) l = Some t"
    using assms(1,2)
  proof (induction rule: lock_run.induct)
    case (lock_enter W v ms r W')
    then show ?case
      by (auto simp: scoped_lock_new_def fold_update_other list_ex_iff split: if_splits prod.splits bool.splits)
  qed (simp_all add: scoped_lock_destroy_def)
  then show ?thesis
    using assms(3) by (auto simp: scoped_lock_new_def list_ex_iff split: prod.splits bool.splits)
qed

theorem scoped_lock_never_unlocks_witness:
  "\<exists>W1 W2. scoped_lock_new 1 [7] \<lparr>lw_detector = dd_new, lw_held = []\<rparr> = (Locked, W1) \<and> W2 = scoped_lock_destroy 1 [7] W1 \<and>
     fst (scoped_lock_new 2 [7] W2) \<noteq> Locked"
proof -
  let ?W = "\<lparr>lw_detector = dd_new, lw_held = []\<rparr>"
  obtain W1 where W1: "scoped_lock_new 1 [7] ?W = (Locked, W1)" "map_of (lw_held W1) 7 = Some 1"
    by (simp add: scoped_lock_new_def would_cause_deadlock_def dd_new_def)
  have "lock_run W1 (scoped_lock_destroy 1 [7] W1)" by (rule lock_leave [OF lock_start])
  from scoped_lock_never_unlocks [OF this W1(2), of "[7]" 2] W1 show ?thesis by auto
qed

section \<open>Shutdown\<close>

text \<open>A component whose shutdown function records its name and then may throw.\<close>

definition recorder :: "string \<times> bool \<Rightarrow> string \<times> string list shutdown_fn" where
  "recorder c = (fst c, \<lambda>w. (snd c, w @ [fst c]))"

definition register_recorders :: "(string \<times> bool) list \<Rightarrow> string list shutdown_manager" where
  "register_recorders cs = fold (\<lambda>c. register_component (fst (recorder c)) (snd (recorder c))) cs sm_new"

definition is_recorder :: "string \<times> string list shutdown_fn \<Rightarrow> bool" where
  "is_recorder c \<longleftrightarrow> (\<forall>w. snd (snd c w) = w @ [fst c])"

lemma call_all_recorders: "list_all is_recorder xs \<Longrightarrow> call_all xs w = w @ map fst xs"
proof (induction xs arbitrary: w)
  case (Cons c xs)
  obtain nm fn where c: "c = (nm, fn)" by (cases c)
  obtain thr w1 where fn: "fn w = (thr, w1)" by (cases "fn w")
  with Cons.prems c have "w1 = w @ [nm]" by (auto simp: is_recorder_def dest: spec [of _ w])
  with Cons c fn show ?case by simp
qed simp

lemma update_recorders:
  "list_all is_recorder xs \<Longrightarrow> is_recorder (k, v) \<Longrightarrow> list_all is_recorder (AList.update k v xs)"
  by (induction xs) auto

lemma registered_aux:
  assumes "distinct (map fst (sm_components S))" "list_all is_recorder (sm_components S)"
    and "S' = fold (\<lambda>c. register_component (fst (recorder c)) (snd (recorder c))) cs S"
  shows "distinct (map fst (sm_components S'))
    \<and> fst ` set (sm_components S') = fst ` set (sm_components S) \<union> fst ` set cs
    \<and> list_all is_recorder (sm_components S')
    \<and> sm_active S' = sm_active S + int (length cs)"
  using assms
proof (induction cs arbitrary: S)
  case (Cons c cs)
  let ?S = "register_component (fst (recorder c)) (snd (recorder c)) S"
  have comps: "sm_components ?S = AList.update (fst c) (\<lambda>w. (snd c, w @ [fst c])) (sm_components S)"
    by (simp add: register_component_def recorder_def)
  have dist: "distinct (map fst (sm_components ?S))" using Cons.prems(1) by (simp add: comps distinct_update)
  have keys: "fst ` set (sm_components ?S) = insert (fst c) (fst ` set (sm_components S))"
    by (simp add: comps dom_update)
  have shape: "list_all is_recorder (sm_components ?S)"
    unfolding comps by (rule update_recorders [OF Cons.prems(2)]) (simp add: is_recorder_def)
  have active: "sm_active ?S = sm_active S + 1" by (simp add: register_component_def)
  have S': "S' = fold (\<lambda>c. register_component (fst (recorder c)) (snd (recorder c))) cs ?S"
    using Cons.prems(3) by simp
  from Cons.IH [OF dist shape S'] keys active show ?case by auto
qed simp

text \<open>
  A shutdown calls the function of every registered component exactly once, in whatever
  order the table enumerates them and whichever of them throw; and the condition that
  \<open>wait_for_shutdown\<close> waits for does not hold afterwards, because no code ever lowers the counter
  of active components.
\<close>

theorem shutdown_calls_everyone_and_waits:
  assumes "\<And>xs :: (string \<times> string list shutdown_fn) list. mset (iter xs) = mset xs" and "cs \<noteq> []"
    and "initiate_shutdown iter (register_recorders cs, []) = (S', calls)"
  shows "distinct calls \<and> set calls = fst ` set cs \<and> is_shutdown_requested S' \<and> \<not> wait_for_shutdown_done S'"
proof -
  let ?S = "register_recorders cs"
  have S: "distinct (map fst (sm_components ?S))" "fst ` set (sm_components ?S) = fst ` set cs"
      "list_all is_recorder (sm_components ?S)" "sm_active ?S = int (length cs)"
    using registered_aux [of sm_new ?S cs] by (simp_all add: register_recorders_def sm_new_def)
  have same: "set (iter (sm_components ?S)) = set (sm_components ?S)"
    by (rule mset_eq_setD) (rule assms(1))
  have calls: "calls = map fst (iter (sm_components ?S))"
    using assms(3) call_all_recorders [of "iter (sm_components ?S)" "[]"] S(3) same
    by (simp add: initiate_shutdown_def list_all_iff)
  have "mset calls = mset (map fst (sm_components ?S))" using assms(1) by (simp add: calls)
  then have "distinct calls" "set calls = fst ` set cs"
    using S(1,2) mset_eq_setD [of calls "map fst (sm_components ?S)"] mset_eq_imp_distinct_iff by (blast, simp)
  moreover have "S' = ?S\<lparr>sm_requested := True\<rparr>" using assms(3) by (simp add: initiate_shutdown_def)
  ultimately show ?thesis
    using S(4) assms(2) by (simp add: is_shutdown_requested_def wait_for_shutdown_done_def)
qed

theorem shutdown_calls_everyone_and_waits_witness:
  "\<exists>S' calls. initiate_shutdown rev (register_recorders [(''gateway'', True), (''risk'', False)], []) = (S', calls) \<and>
     set calls = {''gateway'', ''risk''} \<and> \<not> wait_for_shutdown_done S'"
proof -
  obtain S' calls where run: "initiate_shutdown rev (register_recorders [(''gateway'', True), (''risk'', False)], []) = (S', calls)"
    by (metis surj_pair)
  have "mset (rev xs) = mset xs" for xs :: "(string \<times> string list shutdown_fn) list" by simp
  from shutdown_calls_everyone_and_waits [OF this _ run] run show ?thesis by auto
qed

section \<open>The work queue\<close>

text \<open>\<open>work_run acc D\<close>: the threads have brought the drainer to \<open>D\<close> and \<open>acc\<close> are the items taken.\<close>

inductive work_run :: "'a list \<Rightarrow> 'a work_drainer \<Rightarrow> bool" where
  work_start: "work_run [] wd_new"
| work_add: "work_run acc D \<Longrightarrow> work_run (if wd_draining D then acc else acc @ [w]) (add_work_item w D)"
| work_process: "work_run acc D \<Longrightarrow> work_run acc (process_one D)"
| work_flag: "work_run acc D \<Longrightarrow> work_run acc (drain_flag D)"
| work_clear: "work_run acc D \<Longrightarrow> wd_draining D \<Longrightarrow> work_run acc (drain_clear D)"

text \<open>
  Whatever threads add, process and drain, the items that were run are a prefix of the
  items taken, in order and each once; as long as nobody drains, every other item is still
  queued; and once the flag of draining is set no further item is run.
\<close>

theorem work_runs_in_order:
  assumes "work_run acc D"
  shows "prefix (wd_done D) acc \<and> (wd_draining D \<or> acc = wd_done D @ wd_queue D)
    \<and> wd_done (process_one (drain_flag D)) = wd_done D"
  using assms
  by (induction rule: work_run.induct)
    (auto simp: wd_new_def add_work_item_def process_one_def drain_flag_def drain_clear_def split: list.split)

theorem work_runs_in_order_witness:
  "\<exists>D. work_run [1, 2] D \<and> wd_done D = [1 :: nat] \<and> prefix [1] [1 :: nat, 2] \<and> wd_queue (drain_work D) = []"
proof -
  let ?D2 = "add_work_item 2 (add_work_item (1 :: nat) wd_new)"
  have "work_run [1, 2] ?D2"
    using work_add [OF work_add [OF work_start, of "1 :: nat"], of 2] by (simp add: wd_new_def add_work_item_def)
  then have run: "work_run [1, 2] (process_one ?D2)" by (rule work_process)
  have "wd_done (process_one ?D2) = [1]" by (simp add: process_one_def add_work_item_def wd_new_def)
  with work_runs_in_order [OF run] run show ?thesis
    by (intro exI [of _ "process_one ?D2"]) (simp add: drain_work_def drain_clear_def)
qed

section \<open>Lock orders\<close>

lemma violates_register:
  "violates (register_lock_order x y G) a b \<longleftrightarrow> (b = x \<and> a = y) \<or> violates G a b"
  by (cases "b = x"; cases "map_of G x") (auto simp: violates_def register_lock_order_def update_conv)

lemma violates_registered:
  "violates (fold (\<lambda>p. register_lock_order (fst p) (snd p)) ps G) a b \<longleftrightarrow> (b, a) \<in> set ps \<or> violates G a b"
proof (induction ps arbitrary: G)
  case (Cons p ps)
  then show ?case by (cases p) (auto simp: violates_register)
qed simp

lemma validate_iff_sorted: "validate_lock_order G ls \<longleftrightarrow> sorted_wrt (\<lambda>a b. \<not> violates G a b) ls"
  by (induction ls) (auto simp: list_ex_iff)

text \<open>
  After any registrations, the validator refuses a sequence of locks exactly when two
  of them stand in it against a registered order, at any distance; orders that follow only
  through a third lock are not seen.
\<close>

theorem lock_order_validation_is_exact:
  "\<not> validate_lock_order (fold (\<lambda>p. register_lock_order (fst p) (snd p)) ps []) ls \<longleftrightarrow>
     (\<exists>i j. i < j \<and> j < length ls \<and> (ls ! j, ls ! i) \<in> set ps)"
proof -
  have "\<not> violates [] a b" for a b by (simp add: violates_def)
  then show ?thesis by (auto simp: validate_iff_sorted sorted_wrt_iff_nth_less violates_registered)
qed

section \<open>Races\<close>

datatype race_event = Access int thread nat bool | Sync

fun race_step :: "race_event \<Rightarrow> race_detector \<Rightarrow> race_detector" where
  "race_step (Access now tid addr w) R = register_memory_access now tid addr w R"
| "race_step Sync R = register_synchronization_point R"

fun access_by :: "(nat \<Rightarrow> thread) \<Rightarrow> race_event \<Rightarrow> bool" where
  "access_by own (Access now tid addr w) \<longleftrightarrow> tid = own addr"
| "access_by own Sync \<longleftrightarrow> True"

definition private_accesses :: "(nat \<Rightarrow> thread) \<Rightarrow> race_detector \<Rightarrow> bool" where
  "private_accesses own R \<longleftrightarrow>
     \<not> rd_race_detected R \<and> (\<forall>addr. \<forall>a \<in> set (accesses_of R addr). ma_thread a = own addr)"

lemma accesses_of_update:
  "accesses_of (R\<lparr>rd_accesses := AList.update addr as (rd_accesses R)\<rparr>) x = (if x = addr then as else accesses_of R x)"
  by (simp add: accesses_of_def update_conv)

lemma private_step: "private_accesses own R \<Longrightarrow> access_by own e \<Longrightarrow> private_accesses own (race_step e R)"
proof (cases e)
  case (Access now tid addr w)
  assume R: "private_accesses own R" and "access_by own e"
  then have "\<not> list_ex (races_with now tid w) (accesses_of R addr)"
    using Access by (auto simp: private_accesses_def list_ex_iff races_with_def)
  with R Access \<open>access_by own e\<close> show ?thesis
    by (auto simp: private_accesses_def register_memory_access_def Let_def accesses_of_update)
qed (simp add: private_accesses_def register_synchronization_point_def accesses_of_def)

text \<open>
  The race detector never accuses memory that one thread has to itself: if every
  address is accessed by its own thread only, no race is reported, whatever the times, the writes
  and the synchronisation points.
\<close>

theorem private_memory_never_races:
  assumes "list_all (access_by own) es"
  shows "\<not> has_race_condition (fold race_step es rd_new)"
proof -
  have "private_accesses own R \<Longrightarrow> private_accesses own (fold race_step es R)" for R
    using assms by (induction es arbitrary: R) (auto simp: private_step)
  moreover have "private_accesses own rd_new" by (simp add: private_accesses_def rd_new_def accesses_of_def)
  ultimately have "private_accesses own (fold race_step es rd_new)" by blast
  then show ?thesis by (simp add: private_accesses_def has_race_condition_def)
qed

theorem private_memory_never_races_witness:
  "\<not> has_race_condition (fold race_step [Access 0 1 100 True, Access 10 2 200 True, Sync, Access 20 1 100 False] rd_new)"
  by (rule private_memory_never_races [where own = "\<lambda>addr. if addr = 100 then 1 else 2"]) simp

text \<open>Two threads that write one address within 100 microseconds are reported.\<close>

lemma close_writes_race:
  assumes "t \<noteq> u" "now \<le> now'" "now' - now < 100000"
  shows "has_race_condition (register_memory_access now' u addr w' (register_memory_access now t addr True rd_new))"
  using assms by (simp add: register_memory_access_def rd_new_def accesses_of_def races_with_def has_race_condition_def Let_def update_conv)

end
