(* ===== verification/Spec2Isabelle.thy ===== *)
theory Spec2Isabelle
  imports RTES_Errors RTES_MPMC_Threads RTES_Exchange_Props RTES_Transaction RTES_Publisher
    RTES_Config RTES_Network_Props RTES_Thread_Safety
begin

text \<open>
  A verification development of RTES, an electronic trading exchange in C++.

  \<^bold>\<open>The program.\<close> Clients connect to a TCP gateway, which cuts their byte streams into
  messages, takes a slot of a shared order pool for every new order and hands it to the risk
  manager through a ring. The risk manager checks size, rate, duplicates, price collar and
  credit, and routes what it approves to the matching engine of the symbol through another
  ring. The engine's worker matches on its order book by price and time, and publishes trades
  and best prices to a queue of market data that all engines share. The exchange constructs,
  wires, starts and stops these parts and reports on them.

  \<^bold>\<open>Which theory models what.\<close> Paths are below \<^verbatim>\<open>src/\<close>.

  \<^item> \<open>RTES_Prelude\<close>: machine integers, association lists for the standard containers, the
    collections of simplification rules.
  \<^item> \<open>RTES_Types\<close>: \<^verbatim>\<open>include/rtes/types.hpp\<close>, fixed strings with their hash, orders and trades.
  \<^item> \<open>RTES_Errors\<close>: \<^verbatim>\<open>error_handling.hpp\<close> and \<^verbatim>\<open>.cpp\<close>, error codes, \<open>Result\<close>, the recovery
    strategies with the circuit breaker.
  \<^item> \<open>RTES_Pool\<close>: \<^verbatim>\<open>memory_pool.hpp\<close>; the locale \<open>slot_allocator\<close> is what its users rely on.
  \<^item> \<open>RTES_Queue_Spec\<close>, \<open>RTES_SPSC\<close>, \<open>RTES_MPMC\<close>, \<open>RTES_MPMC_Threads\<close>: \<^verbatim>\<open>spsc_queue.hpp\<close> and
    \<^verbatim>\<open>mpmc_queue.hpp\<close>; the locale \<open>bounded_queue\<close> is the contract of both, proved for each, and
    both are also taken apart into the atomic steps of interleaved threads.
  \<^item> \<open>RTES_Ladder\<close>, \<open>RTES_Order_Book\<close>: \<^verbatim>\<open>order_book.hpp\<close> and \<^verbatim>\<open>.cpp\<close>. \<open>RTES_Book_Inv\<close>,
    \<open>RTES_Book_Match\<close>, \<open>RTES_Book_Refine\<close>, \<open>RTES_Book_Spec\<close>, \<open>RTES_Book_Reach\<close> and \<open>RTES_Book_Props\<close>
    hold its invariant, the reference matcher on lists, the refinement, the contract and the
    properties.
  \<^item> \<open>RTES_Engine\<close>, \<open>RTES_Engine_Props\<close>: \<^verbatim>\<open>matching_engine.hpp\<close> and \<^verbatim>\<open>.cpp\<close>.
  \<^item> \<open>RTES_Risk\<close>, \<open>RTES_Risk_Props\<close>, \<open>RTES_Risk_Limits\<close>: \<^verbatim>\<open>risk_manager.hpp\<close> and \<^verbatim>\<open>.cpp\<close>.
  \<^item> \<open>RTES_Memory_Safety\<close>, \<open>RTES_Memory_Props\<close>: \<^verbatim>\<open>memory_safety.hpp\<close> and \<^verbatim>\<open>.cpp\<close>.
  \<^item> \<open>RTES_Protocol\<close>, \<open>RTES_Protocol_Props\<close>: \<^verbatim>\<open>protocol.hpp\<close> and \<^verbatim>\<open>.cpp\<close>.
  \<^item> \<open>RTES_Gateway\<close>, \<open>RTES_Gateway_Props\<close>: \<^verbatim>\<open>tcp_gateway.hpp\<close> and \<^verbatim>\<open>.cpp\<close>.
  \<^item> \<open>RTES_Exchange\<close>: \<^verbatim>\<open>exchange.hpp\<close>, \<^verbatim>\<open>.cpp\<close> and the structures of \<^verbatim>\<open>config.hpp\<close>.
    \<open>RTES_System\<close> and \<open>RTES_Exchange_Props\<close> are about all parts together.
  \<^item> \<open>RTES_Transaction\<close>: \<^verbatim>\<open>transaction.hpp\<close> and \<^verbatim>\<open>.cpp\<close>; the locale \<open>undoable_actions\<close> is what a
    transaction asks of its actions.
  \<^item> \<open>RTES_Publisher\<close>: \<^verbatim>\<open>udp_publisher.hpp\<close> and \<^verbatim>\<open>.cpp\<close>, from the queue of events to datagrams.
  \<^item> \<open>RTES_Text\<close>: the character classes and sanitisers of \<^verbatim>\<open>input_validation.cpp\<close> and
    \<^verbatim>\<open>security_utils.cpp\<close>. \<open>RTES_Validation\<close> holds the validators of messages, fields and
    configurations, \<open>RTES_Security\<close> roles, paths, the mock authentication and
    \<^verbatim>\<open>auth_middleware.hpp\<close> and \<^verbatim>\<open>.cpp\<close>.
  \<^item> \<open>RTES_Config\<close>: \<^verbatim>\<open>config.cpp\<close>, the reader of JSON text and loading.
  \<^item> \<open>RTES_Network_Security\<close>, \<open>RTES_Network_Props\<close>: \<^verbatim>\<open>network_security.hpp\<close> and \<^verbatim>\<open>.cpp\<close>.
  \<^item> \<open>RTES_Thread_Safety\<close>: \<^verbatim>\<open>thread_safety.hpp\<close> and \<^verbatim>\<open>.cpp\<close>.

  \<^bold>\<open>How state and effects correspond.\<close> A class is a record and a member function a function from the
  state to the result and the new state. An \<open>Order*\<close> is the index of its slot in the pool and
  the null pointer is None, so that aliasing is visible: the pool is shared, and a step of an
  engine runs on the pool and the queue of the world (\<open>w_run\<close>). Integers have their width.
  Doubles are rationals, with the rounding as an argument where it matters. Hash tables are
  association lists keyed by the characters of the key; the order in which one is visited is an
  argument where the code depends on it. Clocks, sockets, system calls and callbacks are
  arguments. Exceptions and early returns are values. A loop that might not end is a
  \<open>partial_function\<close> into option, and that it returns is proved.

  \<^bold>\<open>What is shown.\<close> The order book refines price-time priority on lists, conserves quantity,
  never crosses, and keeps its representation invariant under every sequence of calls; its
  rejections, snapshots, depth and shutdown are characterised. An engine serves its ring in
  order, accounts for every request and publishes or counts every event. An order that the risk
  manager approves passed every check; exposure is the sum of what was approved; rate limit and
  collar are exact. The rings are bounded queues, under any interleaving of their threads. The
  gateway's messages do not depend on how the network cuts the stream. Messages survive their
  layout and short bursts change the checksum. Transactions are atomic. The market data feed is
  in order and numbered without gaps. The sanitisers, the validators and the reader of JSON text
  do exactly what is stated of them, and a configuration that loads starts the exchange. Requests
  are served only to those allowed and within their rate, sessions end with their timeout, and the
  authenticated broadcast accepts exactly what the key signs. For the whole exchange:
  under any interleaving of messages and workers no slot of the pool has two owners, and the
  shutdown ends with every ring drained.

  \<^bold>\<open>Bounds.\<close> The cursor into a price level has 32 bits and compaction need not happen, so
  theorems on the book ask for room in the levels (\<open>book_room\<close>, \<open>book_bound\<close>), and those on the
  exchange for fewer than \<open>2^32\<close> messages. The interleaving theorems of the multi-producer queue
  ask for fewer than \<open>2^62\<close> pushes. Theorems on the market data queue ask for a capacity of at
  least two; with capacity one the queue overwrites (\<open>mpmc_capacity_one_overwrites\<close>).

  \<^bold>\<open>Concurrency.\<close> The two queues are modelled at the level of single atomic steps, with
  sequentially consistent memory. The pool's compare-and-swap loops, and the workers of the
  exchange, run one whole operation or iteration at a time.

  \<^bold>\<open>Outside code.\<close> OpenSSL, HMAC, random bytes, the file system, the environment and the
  conversion of text to doubles are arguments of the definitions that use them.

  \<^bold>\<open>Not modelled.\<close> Socket set-up and the reactor, logging, metrics, HTTP, dashboards,
  encryption of configurations, deployment scripts, the client programs and the benchmarks are
  input and output around the exchange. Thread start, affinity and spin-waiting have no state.
\<close>

end
